(* ===== verification/NbPrelude.thy ===== *)
theory NbPrelude
  imports Main "HOL-Library.Word" "HOL-Library.Monad_Syntax"
begin

text \<open>
  Shared material of the development: the names of the machine types, the collections the
  component theories put their rules into, generic facts on lists and options, and the
  transition-system locale through which every component with steps gets its invariant.

  A value \<open>None\<close> of an operation that returns an option stands for undefined behaviour
  of the C++ code (a null or dangling pointer is dereferenced, an array is indexed out of its
  bounds) or for a loop that never returns; a theorem that an operation returns \<open>Some\<close>
  excludes both.
\<close>

named_theorems list_laws "what the operations of the intrusive list do to its contents"
named_theorems mgr_laws "what the operations of the element manager do to its entries"
named_theorems frame_laws "parts of a state that an operation leaves alone"

section \<open>Machine types\<close>

type_synonym byte = "8 word"
type_synonym bytes = "8 word list"
type_synonym ptr = nat

section \<open>Ends of a list, with a default\<close>

definition first_or :: "'a list \<Rightarrow> 'a option \<Rightarrow> 'a option" where
  "first_or xs d = (case xs of [] \<Rightarrow> d | x # _ \<Rightarrow> Some x)"

definition last_or :: "'a option \<Rightarrow> 'a list \<Rightarrow> 'a option" where
  "last_or d xs = (if xs = [] then d else Some (last xs))"

lemma first_or_simps [simp]:
  "first_or [] d = d" "first_or (x # xs) d = Some x"
  by (simp_all add: first_or_def)

lemma last_or_simps [simp]:
  "last_or d [] = d" "last_or d (xs @ [x]) = Some x" "last_or d (x # xs) = last_or (Some x) xs"
  by (simp_all add: last_or_def)

lemma first_or_append [simp]: "first_or (xs @ ys) d = first_or xs (first_or ys d)"
  by (cases xs) simp_all

lemma last_or_append [simp]: "last_or d (xs @ ys) = last_or (last_or d xs) ys"
  by (simp add: last_or_def)

lemma first_or_None_iff [simp]: "first_or xs None = None \<longleftrightarrow> xs = []"
  by (cases xs) simp_all

lemma last_or_None_iff [simp]: "last_or None xs = None \<longleftrightarrow> xs = []"
  by (simp add: last_or_def)

lemma ends_ex [simp]: "\<exists>y. first_or xs (Some a) = Some y" "\<exists>y. last_or (Some a) xs = Some y"
  by (cases xs) (auto simp: last_or_def)

lemma last_or_other: "last_or (Some a) xs = Some p \<Longrightarrow> p \<noteq> a \<Longrightarrow> p \<in> set xs"
  by (auto simp: last_or_def split: if_splits)

lemma first_or_other: "first_or xs (Some a) = Some p \<Longrightarrow> p \<noteq> a \<Longrightarrow> p \<in> set xs"
  by (cases xs) auto

lemmas ends_other = last_or_other last_or_other [OF sym] first_or_other first_or_other [OF sym]

lemma first_or_in: "first_or xs None = Some x \<Longrightarrow> x \<in> set xs"
  by (cases xs) auto

lemma last_or_in: "last_or None xs = Some x \<Longrightarrow> x \<in> set xs"
  by (auto simp: last_or_def split: if_splits)

lemma count_list_distinct: "distinct xs \<Longrightarrow> count_list xs x = (if x \<in> set xs then 1 else 0)"
  by (induction xs) auto

lemma find_in: "find P xs = Some x \<Longrightarrow> x \<in> set xs \<and> P x"
  by (induction xs) (auto split: if_splits)

section \<open>Transition systems\<close>

text \<open>
  The states reachable from the initial ones, and the contract of an invariant: it holds
  initially and every step keeps it. Each component with steps interprets the locale on its
  own relation.
\<close>

inductive reach :: "('s \<Rightarrow> bool) \<Rightarrow> ('s \<Rightarrow> 's \<Rightarrow> bool) \<Rightarrow> 's \<Rightarrow> bool"
  for init step where
  reach_init: "init s \<Longrightarrow> reach init step s"
| reach_step: "reach init step s \<Longrightarrow> step s t \<Longrightarrow> reach init step t"

locale inductive_invariant =
  fixes init :: "'s \<Rightarrow> bool"
    and step :: "'s \<Rightarrow> 's \<Rightarrow> bool"
    and inv :: "'s \<Rightarrow> bool"
  assumes inv_init: "init s \<Longrightarrow> inv s"
    and inv_step: "step s t \<Longrightarrow> inv s \<Longrightarrow> inv t"
begin

lemma inv_reach: "reach init step s \<Longrightarrow> inv s"
  by (induction rule: reach.induct) (auto intro: inv_init inv_step)

lemma inv_steps: "step\<^sup>*\<^sup>* s t \<Longrightarrow> inv s \<Longrightarrow> inv t"
  by (induction rule: rtranclp_induct) (auto intro: inv_step)

end

end
