(* ===== verification/HeartBeatList.thy ===== *)
theory HeartBeatList
  imports NbPrelude
begin

text \<open>
  The intrusive doubly linked list \<open>heart_beat_list_t\<close> of
  mylib/heart\_beat/heart\_beat\_list.h, over an explicit store of nodes.

  A node pointer is an address (\<open>None\<close> is NULL), the store maps the addresses of live
  nodes to nodes. Every operation takes the store and the list object and returns its result
  with both, or \<open>None\<close> when the C++ code dereferences a null or dangling pointer. The
  abstraction \<open>dll h l ps\<close> says that the object \<open>l\<close> in the store \<open>h\<close> is a
  well-formed list of the nodes \<open>ps\<close>; each operation is shown to act on \<open>ps\<close> as
  the corresponding list operation. The locale \<open>intrusive_list\<close> is this contract; the
  element manager uses nothing else of the list.
\<close>

section \<open>Nodes, the store, the list object\<close>

record 'a list_node =
  nd_front :: "ptr option"
  nd_next :: "ptr option"
  nd_data :: 'a

record hb_list =
  m_header :: "ptr option"
  m_tail :: "ptr option"

type_synonym 'a node_store = "ptr \<rightharpoonup> 'a list_node"

text \<open>Reading and writing through a pointer.\<close>

definition load :: "'a node_store \<Rightarrow> ptr option \<Rightarrow> 'a list_node option" where
  "load h p = Option.bind p h"

definition set_front :: "ptr option \<Rightarrow> ptr option \<Rightarrow> 'a node_store \<Rightarrow> 'a node_store option" where
  "set_front p v h = do { a \<leftarrow> p; n \<leftarrow> h a; Some (h(a \<mapsto> n\<lparr>nd_front := v\<rparr>)) }"

definition set_next :: "ptr option \<Rightarrow> ptr option \<Rightarrow> 'a node_store \<Rightarrow> 'a node_store option" where
  "set_next p v h = do { a \<leftarrow> p; n \<leftarrow> h a; Some (h(a \<mapsto> n\<lparr>nd_next := v\<rparr>)) }"

definition mk_node :: "'a \<Rightarrow> 'a list_node" where
  "mk_node d = \<lparr>nd_front = None, nd_next = None, nd_data = d\<rparr>"

definition default_node :: "'a \<Rightarrow> 'a list_node" where
  "default_node d0 = \<lparr>nd_front = None, nd_next = None, nd_data = d0\<rparr>"

text \<open>The copy constructor has an empty body and no initialisers: nothing is copied.\<close>

definition copy_node :: "'a list_node \<Rightarrow> 'a list_node \<Rightarrow> 'a list_node" where
  "copy_node garbage rhs = garbage"

definition empty_list :: hb_list where
  "empty_list = \<lparr>m_header = None, m_tail = None\<rparr>"

section \<open>The operations\<close>

definition push_front :: "ptr option \<Rightarrow> 'a node_store \<Rightarrow> hb_list \<Rightarrow> (int \<times> 'a node_store \<times> hb_list) option" where
  "push_front node h l =
     (if node = None then Some (-1, h, l)
      else do {
        h \<leftarrow> set_front node None h;
        h \<leftarrow> set_next node None h;
        if m_header l = None then Some (0, h, l\<lparr>m_header := node, m_tail := node\<rparr>)
        else do {
          h \<leftarrow> set_next node (m_header l) h;
          h \<leftarrow> set_front (m_header l) node h;
          Some (0, h, l\<lparr>m_header := node\<rparr>)
        }
      })"

definition push_back :: "ptr option \<Rightarrow> 'a node_store \<Rightarrow> hb_list \<Rightarrow> (int \<times> 'a node_store \<times> hb_list) option" where
  "push_back node h l =
     (if node = None then Some (-1, h, l)
      else do {
        h \<leftarrow> set_front node None h;
        h \<leftarrow> set_next node None h;
        if m_tail l = None then Some (0, h, l\<lparr>m_header := node, m_tail := node\<rparr>)
        else do {
          h \<leftarrow> set_next (m_tail l) node h;
          h \<leftarrow> set_front node (m_tail l) h;
          Some (0, h, l\<lparr>m_tail := node\<rparr>)
        }
      })"

definition pop_front :: "'a node_store \<Rightarrow> hb_list \<Rightarrow> (ptr option \<times> 'a node_store \<times> hb_list) option" where
  "pop_front h l =
     (if m_header l = None then Some (None, h, l)
      else if m_header l = m_tail l
      then Some (m_header l, h, l\<lparr>m_header := None, m_tail := None\<rparr>)
      else do {
        let ret = m_header l;
        n \<leftarrow> load h ret;
        let new_head = nd_next n;
        h \<leftarrow> set_next ret None h;
        h \<leftarrow> set_front new_head None h;
        Some (ret, h, l\<lparr>m_header := new_head\<rparr>)
      })"

definition pop_back :: "'a node_store \<Rightarrow> hb_list \<Rightarrow> (ptr option \<times> 'a node_store \<times> hb_list) option" where
  "pop_back h l =
     (if m_tail l = None then Some (None, h, l)
      else if m_header l = m_tail l
      then Some (m_tail l, h, l\<lparr>m_header := None, m_tail := None\<rparr>)
      else do {
        let ret = m_tail l;
        n \<leftarrow> load h ret;
        let new_tail = nd_front n;
        h \<leftarrow> set_front ret None h;
        h \<leftarrow> set_next new_tail None h;
        Some (ret, h, l\<lparr>m_tail := new_tail\<rparr>)
      })"

definition list_front :: "hb_list \<Rightarrow> ptr option" where
  "list_front l = m_header l"

definition list_back :: "hb_list \<Rightarrow> ptr option" where
  "list_back l = m_tail l"

text \<open>The destructor does not touch the nodes.\<close>

definition destroy_list :: "hb_list \<Rightarrow> hb_list" where
  "destroy_list l = l\<lparr>m_header := None, m_tail := None\<rparr>"

definition is_empty_list :: "hb_list \<Rightarrow> bool" where
  "is_empty_list l \<longleftrightarrow> m_header l = None"

text \<open>
  \<open>erase\<close> has two \<open>if\<close> chains, and the second one reads the node again after the
  first one may have unlinked it; \<open>erase_ends\<close> is the first chain (the node is alone, or
  the head), \<open>erase_rest\<close> the second (the node is the tail, or in the middle).
\<close>

definition erase_ends :: "ptr option \<Rightarrow> 'a node_store \<Rightarrow> hb_list \<Rightarrow> (int \<times> 'a node_store \<times> hb_list) option" where
  "erase_ends node h l = do {
     n \<leftarrow> load h node;
     if nd_front n = None \<and> nd_next n = None then
       (if m_header l = m_tail l \<and> m_header l = node
        then Some (0, h, l\<lparr>m_header := None, m_tail := None\<rparr>)
        else Some (-1, h, l))
     else if nd_front n = None \<and> nd_next n \<noteq> None then
       (if m_header l = node
        then do {
          hn \<leftarrow> load h (m_header l);
          let new_head = nd_next hn;
          h \<leftarrow> set_front new_head None h;
          h \<leftarrow> set_next node None h;
          Some (0, h, l\<lparr>m_header := new_head\<rparr>)
        }
        else Some (-1, h, l))
     else Some (-1, h, l)
   }"

definition erase_rest :: "int \<Rightarrow> ptr option \<Rightarrow> 'a node_store \<Rightarrow> hb_list \<Rightarrow> (int \<times> 'a node_store \<times> hb_list) option" where
  "erase_rest ret node h l = do {
     n \<leftarrow> load h node;
     if nd_front n \<noteq> None \<and> nd_next n = None then
       (if m_tail l = node
        then do {
          tn \<leftarrow> load h (m_tail l);
          let new_tail = nd_front tn;
          h \<leftarrow> set_next new_tail None h;
          h \<leftarrow> set_front node None h;
          Some (0, h, l\<lparr>m_tail := new_tail\<rparr>)
        }
        else Some (ret, h, l))
     else if nd_front n \<noteq> None \<and> nd_next n \<noteq> None then do {
       let node_front = nd_front n;
       let node_next = nd_next n;
       h \<leftarrow> set_front node None h;
       h \<leftarrow> set_next node None h;
       h \<leftarrow> set_next node_front node_next h;
       h \<leftarrow> set_front node_next node_front h;
       Some (0, h, l)
     }
     else Some (ret, h, l)
   }"

definition erase :: "ptr option \<Rightarrow> 'a node_store \<Rightarrow> hb_list \<Rightarrow> (int \<times> 'a node_store \<times> hb_list) option" where
  "erase node h l =
     (if node = None \<or> m_header l = None then Some (-1, h, l)
      else do {
        (ret, h, l) \<leftarrow> erase_ends node h l;
        erase_rest ret node h l
      })"

section \<open>Well-formed lists\<close>

text \<open>
  \<open>dseg h pv ps nx\<close>: the nodes \<open>ps\<close> are live and linked in this order, the first one
  has \<open>pv\<close> in front of it and the last one \<open>nx\<close> behind it.
\<close>

fun dseg :: "'a node_store \<Rightarrow> ptr option \<Rightarrow> ptr list \<Rightarrow> ptr option \<Rightarrow> bool" where
  "dseg h pv [] nx \<longleftrightarrow> True"
| "dseg h pv (p # ps) nx \<longleftrightarrow>
     (case h p of None \<Rightarrow> False
      | Some n \<Rightarrow> nd_front n = pv \<and> nd_next n = first_or ps nx) \<and> dseg h (Some p) ps nx"

definition dll :: "'a node_store \<Rightarrow> hb_list \<Rightarrow> ptr list \<Rightarrow> bool" where
  "dll h l ps \<longleftrightarrow> distinct ps \<and> m_header l = first_or ps None \<and> m_tail l = last_or None ps
     \<and> dseg h None ps None"

text \<open>
  The nodes outside a list are unlinked: the constructor makes a node so, and every pop and
  erase leaves a node so.
\<close>

definition unlinked_but :: "'a node_store \<Rightarrow> ptr list \<Rightarrow> bool" where
  "unlinked_but h ps \<longleftrightarrow>
     (\<forall>q n. h q = Some n \<longrightarrow> q \<notin> set ps \<longrightarrow> nd_front n = None \<and> nd_next n = None)"

definition contents :: "'a node_store \<Rightarrow> ptr \<Rightarrow> 'a option" where
  "contents h p = map_option nd_data (h p)"

section \<open>Segments and their frame\<close>

lemma load_Some [simp]: "load h (Some a) = h a"
  by (simp add: load_def)

lemma load_None [simp]: "load h None = None"
  by (simp add: load_def)

lemma set_front_live [simp]: "h a = Some n \<Longrightarrow> set_front (Some a) v h = Some (h(a \<mapsto> n\<lparr>nd_front := v\<rparr>))"
  by (simp add: set_front_def)

lemma set_next_live [simp]: "h a = Some n \<Longrightarrow> set_next (Some a) v h = Some (h(a \<mapsto> n\<lparr>nd_next := v\<rparr>))"
  by (simp add: set_next_def)

lemma set_link_dead [simp]:
  "set_front None v h = None" "set_next None v h = None"
  "h a = None \<Longrightarrow> set_front (Some a) v h = None"
  "h a = None \<Longrightarrow> set_next (Some a) v h = None"
  by (simp_all add: set_front_def set_next_def)

lemma dseg_Cons [simp]:
  "dseg h pv (p # ps) nx \<longleftrightarrow>
     (\<exists>n. h p = Some n \<and> nd_front n = pv \<and> nd_next n = first_or ps nx) \<and> dseg h (Some p) ps nx"
  by (auto split: option.splits)

declare dseg.simps(2) [simp del]

lemma dseg_append:
  "dseg h pv (as @ bs) nx \<longleftrightarrow> dseg h pv as (first_or bs nx) \<and> dseg h (last_or pv as) bs nx"
  by (induction as arbitrary: pv) auto

lemma dseg_upd_other [simp]: "p \<notin> set ps \<Longrightarrow> dseg (h(p := x)) pv ps nx = dseg h pv ps nx"
  by (induction ps arbitrary: pv) auto

lemma dseg_live: "dseg h pv ps nx \<Longrightarrow> p \<in> set ps \<Longrightarrow> \<exists>n. h p = Some n"
  by (induction ps arbitrary: pv) auto

lemma dll_live: "dll h l ps \<Longrightarrow> p \<in> set ps \<Longrightarrow> \<exists>n. h p = Some n"
  by (auto simp: dll_def dest: dseg_live)

lemma dll_distinct: "dll h l ps \<Longrightarrow> distinct ps"
  by (simp add: dll_def)

lemma dll_upd_other [simp]: "p \<notin> set ps \<Longrightarrow> dll (h(p := x)) l ps = dll h l ps"
  by (simp add: dll_def)

lemma dseg_cong: "(\<And>p. p \<in> set ps \<Longrightarrow> h p = h' p) \<Longrightarrow> dseg h pv ps nx = dseg h' pv ps nx"
  by (induction ps arbitrary: pv) auto

lemma dll_cong: "(\<And>p. p \<in> set ps \<Longrightarrow> h p = h' p) \<Longrightarrow> dll h l ps = dll h' l ps"
  using dseg_cong [of ps h h'] by (auto simp: dll_def)

lemma dll_empty [simp]: "dll h empty_list []"
  by (simp add: dll_def empty_list_def)

lemma contents_upd_same [simp]:
  "map_option nd_data (h a) = Some (nd_data n) \<Longrightarrow> contents (h(a \<mapsto> n)) = contents h"
  by (auto simp: contents_def)

lemma contents_live: "h p = Some n \<Longrightarrow> contents h p = Some (nd_data n)"
  by (simp add: contents_def)

lemma contents_Some: "contents h p = Some d \<longleftrightarrow> (\<exists>n. h p = Some n \<and> nd_data n = d)"
  by (auto simp: contents_def)

section \<open>What the operations do to a well-formed list\<close>

lemma push_front_dll:
  assumes "dll h l ps" and "contents h p = Some d" and "p \<notin> set ps"
  shows "\<exists>h' l'. push_front (Some p) h l = Some (0, h', l') \<and> dll h' l' (p # ps) \<and> (unlinked_but h ps \<longrightarrow> unlinked_but h' (p # ps))
           \<and> contents h' = contents h"
  using assms by (cases ps) (auto simp: push_front_def dll_def contents_Some unlinked_but_def)

lemma push_back_dll:
  assumes "dll h l ps" and "contents h p = Some d" and "p \<notin> set ps"
  shows "\<exists>h' l'. push_back (Some p) h l = Some (0, h', l') \<and> dll h' l' (ps @ [p]) \<and> (unlinked_but h ps \<longrightarrow> unlinked_but h' (ps @ [p]))
           \<and> contents h' = contents h"
  using assms
  by (cases ps rule: rev_cases) (auto simp: push_back_def dll_def dseg_append contents_Some unlinked_but_def)

lemma pop_front_dll:
  assumes "dll h l (p # ps)"
  shows "\<exists>h' l'. pop_front h l = Some (Some p, h', l') \<and> dll h' l' ps
           \<and> (unlinked_but h (p # ps) \<longrightarrow> unlinked_but h' ps) \<and> contents h' = contents h"
  using assms
  by (cases ps)
    (auto simp: pop_front_def dll_def unlinked_but_def Let_def dest!: ends_other,
      (metis option.inject)+)

lemma pop_back_dll:
  assumes "dll h l (ps @ [p])"
  shows "\<exists>h' l'. pop_back h l = Some (Some p, h', l') \<and> dll h' l' ps
           \<and> (unlinked_but h (ps @ [p]) \<longrightarrow> unlinked_but h' ps) \<and> contents h' = contents h"
  using assms
  by (cases ps rule: rev_cases)
    (auto simp: pop_back_def dll_def unlinked_but_def dseg_append Let_def dest!: ends_other,
      (metis option.inject)+)

lemma pop_empty_dll:
  assumes "dll h l []"
  shows "pop_front h l = Some (None, h, l)" "pop_back h l = Some (None, h, l)"
  using assms by (simp_all add: pop_front_def pop_back_def dll_def)

text \<open>
  \<open>erase\<close> of a member unlinks exactly it; a node that is in no list (no links) is
  refused, unless it is the only element of this one.
\<close>

lemma erase_only:
  assumes "dll h l [p]"
  shows "\<exists>h' l'. erase (Some p) h l = Some (0, h', l') \<and> dll h' l' []
           \<and> (unlinked_but h [p] \<longrightarrow> unlinked_but h' []) \<and> contents h' = contents h"
  using assms
  by (auto simp: erase_def erase_ends_def erase_rest_def dll_def unlinked_but_def,
      (metis option.inject)+)

lemma erase_head:
  assumes "dll h l (p # q # bs)"
  shows "\<exists>h' l'. erase (Some p) h l = Some (0, h', l') \<and> dll h' l' (q # bs)
           \<and> (unlinked_but h (p # q # bs) \<longrightarrow> unlinked_but h' (q # bs))
           \<and> contents h' = contents h"
  using assms by (auto simp: erase_def erase_ends_def erase_rest_def dll_def unlinked_but_def Let_def dest!: ends_other)

lemma erase_tail:
  assumes "dll h l (as @ [q, p])"
  shows "\<exists>h' l'. erase (Some p) h l = Some (0, h', l') \<and> dll h' l' (as @ [q])
           \<and> (unlinked_but h (as @ [q, p]) \<longrightarrow> unlinked_but h' (as @ [q]))
           \<and> contents h' = contents h"
  using assms
  by (auto simp: erase_def erase_ends_def erase_rest_def dll_def unlinked_but_def dseg_append Let_def
      dest!: ends_other)

lemma erase_inner:
  assumes "dll h lb (as @ q # p # r # bs)" and "m_header la \<noteq> None"
  shows "\<exists>h'. erase (Some p) h la = Some (0, h', la) \<and> dll h' lb (as @ q # r # bs)
           \<and> (unlinked_but h (as @ q # p # r # bs) \<longrightarrow> unlinked_but h' (as @ q # r # bs))
           \<and> contents h' = contents h \<and> (\<forall>x. x \<notin> {q, p, r} \<longrightarrow> h' x = h x)"
  using assms
  by (auto simp: erase_def erase_ends_def erase_rest_def dll_def unlinked_but_def dseg_append Let_def)

lemma erase_middle:
  assumes "dll h l (as @ q # p # r # bs)"
  shows "\<exists>h' l'. erase (Some p) h l = Some (0, h', l') \<and> dll h' l' (as @ q # r # bs)
           \<and> (unlinked_but h (as @ q # p # r # bs) \<longrightarrow> unlinked_but h' (as @ q # r # bs))
           \<and> contents h' = contents h"
proof -
  have "m_header l \<noteq> None" using assms by (cases as) (simp_all add: dll_def)
  with erase_inner [OF assms] show ?thesis by blast
qed

lemma erase_dll:
  assumes "dll h l ps" and "p \<in> set ps"
  shows "\<exists>h' l'. erase (Some p) h l = Some (0, h', l') \<and> dll h' l' (remove1 p ps)
           \<and> (unlinked_but h ps \<longrightarrow> unlinked_but h' (remove1 p ps))
           \<and> contents h' = contents h"
proof -
  from assms(2) obtain as bs where ps: "ps = as @ p # bs" and "p \<notin> set as"
    by (auto dest: split_list_first)
  then have rem: "remove1 p ps = as @ bs"
    by (simp add: remove1_append)
  show ?thesis
  proof (cases as rule: rev_cases)
    case Nil
    then show ?thesis
      using assms(1) ps rem erase_only [of h l p] erase_head [of h l p] by (cases bs) auto
  next
    case (snoc as' q)
    then show ?thesis
      using assms(1) ps rem erase_tail [of h l as' q p] erase_middle [of h l as' q p]
      by (cases bs) auto
  qed
qed

lemma erase_detached:
  assumes "dll h l ps" and "h p = Some n" and "nd_front n = None" and "nd_next n = None"
    and "p \<notin> set ps"
  shows "erase (Some p) h l = Some (-1, h, l)"
  using assms
  by (cases ps) (auto simp: erase_def erase_ends_def erase_rest_def dll_def)

section \<open>The contract the element manager relies on\<close>

text \<open>
  \<open>hbl h l ps\<close>: \<open>l\<close> is a well-formed list of \<open>ps\<close>, and every other node of the
  store is unlinked. This is the situation of the element manager, whose pool holds the nodes
  of its one busy list.
\<close>

definition hbl :: "'a node_store \<Rightarrow> hb_list \<Rightarrow> ptr list \<Rightarrow> bool" where
  "hbl h l ps \<longleftrightarrow> dll h l ps \<and> unlinked_but h ps"

text \<open>Pushing a sequence of nodes, and popping a number of times.\<close>

fun push_each :: "(ptr option \<Rightarrow> 'h \<Rightarrow> 'l \<Rightarrow> (int \<times> 'h \<times> 'l) option) \<Rightarrow> ptr list \<Rightarrow> 'h \<Rightarrow> 'l
    \<Rightarrow> ('h \<times> 'l) option" where
  "push_each push [] h l = Some (h, l)"
| "push_each push (p # ps) h l = do { (_, h, l) \<leftarrow> push (Some p) h l; push_each push ps h l }"

fun pop_each :: "('h \<Rightarrow> 'l \<Rightarrow> (ptr option \<times> 'h \<times> 'l) option) \<Rightarrow> nat \<Rightarrow> 'h \<Rightarrow> 'l
    \<Rightarrow> (ptr option list \<times> 'h \<times> 'l) option" where
  "pop_each pop 0 h l = Some ([], h, l)"
| "pop_each pop (Suc k) h l = do {
     (r, h, l) \<leftarrow> pop h l;
     (rs, h, l) \<leftarrow> pop_each pop k h l;
     Some (r # rs, h, l)
   }"

locale intrusive_list =
  fixes rep :: "'a node_store \<Rightarrow> 'l \<Rightarrow> ptr list \<Rightarrow> bool"
    and push_f :: "ptr option \<Rightarrow> 'a node_store \<Rightarrow> 'l \<Rightarrow> (int \<times> 'a node_store \<times> 'l) option"
    and pop_f :: "'a node_store \<Rightarrow> 'l \<Rightarrow> (ptr option \<times> 'a node_store \<times> 'l) option"
    and pop_b :: "'a node_store \<Rightarrow> 'l \<Rightarrow> (ptr option \<times> 'a node_store \<times> 'l) option"
    and era :: "ptr option \<Rightarrow> 'a node_store \<Rightarrow> 'l \<Rightarrow> (int \<times> 'a node_store \<times> 'l) option"
    and last_of :: "'l \<Rightarrow> ptr option"
  assumes rep_distinct: "rep h l ps \<Longrightarrow> distinct ps"
    and rep_live: "rep h l ps \<Longrightarrow> p \<in> set ps \<Longrightarrow> \<exists>d. contents h p = Some d"
    and rep_free: "rep h l ps \<Longrightarrow> p \<notin> set ps \<Longrightarrow> rep (h(p := None)) l ps"
    and rep_new: "rep h l ps \<Longrightarrow> p \<notin> set ps \<Longrightarrow> rep (h(p \<mapsto> mk_node d)) l ps"
    and rep_data: "rep h l ps \<Longrightarrow> p \<notin> set ps \<Longrightarrow> h p = Some n \<Longrightarrow>
      rep (h(p \<mapsto> n\<lparr>nd_data := d\<rparr>)) l ps"
    and last_of: "rep h l ps \<Longrightarrow> last_of l = last_or None ps"
    and push_f: "rep h l ps \<Longrightarrow> contents h p = Some d \<Longrightarrow> p \<notin> set ps \<Longrightarrow>
      \<exists>h' l'. push_f (Some p) h l = Some (0, h', l') \<and> rep h' l' (p # ps) \<and> contents h' = contents h"
    and pop_f: "rep h l (p # ps) \<Longrightarrow>
      \<exists>h' l'. pop_f h l = Some (Some p, h', l') \<and> rep h' l' ps \<and> contents h' = contents h"
    and pop_b: "rep h l (ps @ [p]) \<Longrightarrow>
      \<exists>h' l'. pop_b h l = Some (Some p, h', l') \<and> rep h' l' ps \<and> contents h' = contents h"
    and pop_none: "rep h l [] \<Longrightarrow> pop_f h l = Some (None, h, l) \<and> pop_b h l = Some (None, h, l)"
    and erase_member: "rep h l ps \<Longrightarrow> p \<in> set ps \<Longrightarrow>
      \<exists>h' l'. era (Some p) h l = Some (0, h', l') \<and> rep h' l' (remove1 p ps) \<and> contents h' = contents h"
    and erase_other: "rep h l ps \<Longrightarrow> contents h p = Some d \<Longrightarrow> p \<notin> set ps \<Longrightarrow>
      era (Some p) h l = Some (-1, h, l)"
begin

lemma push_each_rev:
  assumes "rep h l qs" and "distinct ps" and "set ps \<inter> set qs = {}"
    and "\<forall>p \<in> set ps. contents h p \<noteq> None"
  shows "\<exists>h' l'. push_each push_f ps h l = Some (h', l') \<and> rep h' l' (rev ps @ qs)
           \<and> contents h' = contents h"
  using assms
proof (induction ps arbitrary: h l qs)
  case Nil
  then show ?case by simp
next
  case (Cons p ps)
  from Cons.prems obtain d where "contents h p = Some d" and "p \<notin> set qs" by auto
  with Cons.prems(1) obtain h1 l1 where one: "push_f (Some p) h l = Some (0, h1, l1)"
    and "rep h1 l1 (p # qs)" and c1: "contents h1 = contents h"
    using push_f by blast
  with Cons.IH [of h1 l1 "p # qs"] Cons.prems obtain h' l' where
    "push_each push_f ps h1 l1 = Some (h', l')" "rep h' l' (rev ps @ p # qs)"
    "contents h' = contents h"
    by auto
  with one show ?case by simp
qed

lemma pop_b_each:
  assumes "rep h l (qs @ rev ps)"
  shows "\<exists>h' l'. pop_each pop_b (length ps) h l = Some (map Some ps, h', l') \<and> rep h' l' qs
           \<and> contents h' = contents h"
  using assms
proof (induction ps arbitrary: h l)
  case Nil
  then show ?case by simp
next
  case (Cons p ps)
  then obtain h1 l1 where one: "pop_b h l = Some (Some p, h1, l1)" and "rep h1 l1 (qs @ rev ps)"
    and c1: "contents h1 = contents h"
    using pop_b [of h l "qs @ rev ps" p] by auto
  with Cons.IH obtain h' l' where "pop_each pop_b (length ps) h1 l1 = Some (map Some ps, h', l')"
    "rep h' l' qs" "contents h' = contents h"
    by metis
  with one show ?case by simp
qed

text \<open>First in, first out: what is pushed on the front comes off the back in the same order.\<close>

lemma fifo:
  assumes "rep h l []" and "distinct ps" and "\<forall>p \<in> set ps. contents h p \<noteq> None"
  shows "\<exists>h1 l1 h2 l2. push_each push_f ps h l = Some (h1, l1)
           \<and> pop_each pop_b (length ps) h1 l1 = Some (map Some ps, h2, l2) \<and> rep h2 l2 []"
  using push_each_rev [OF assms(1,2) _ assms(3)] pop_b_each [of _ _ "[]" ps] by fastforce

text \<open>Taking a member out and pushing it on the front moves it to the front.\<close>

lemma refresh:
  assumes "rep h l ps" and "p \<in> set ps"
  shows "\<exists>h1 l1. era (Some p) h l = Some (0, h1, l1) \<and> rep h1 l1 (remove1 p ps)
           \<and> contents h1 = contents h \<and> p \<notin> set (remove1 p ps)"
  using erase_member [OF assms] rep_distinct [OF assms(1)] by auto

end

interpretation hb: intrusive_list hbl push_front pop_front pop_back erase list_back
proof unfold_locales
  fix h :: "'a node_store" and l ps p d n
  assume rep: "hbl h l ps"
  show "distinct ps" using rep by (simp add: hbl_def dll_def)
  show "list_back l = last_or None ps" using rep by (simp add: hbl_def dll_def list_back_def)
  show "\<exists>d. contents h p = Some d" if "p \<in> set ps"
    using rep that by (auto simp: hbl_def contents_Some dest: dll_live)
  show "hbl (h(p := None)) l ps" if "p \<notin> set ps"
    using rep that by (simp add: hbl_def unlinked_but_def)
  show "hbl (h(p \<mapsto> mk_node d)) l ps" if "p \<notin> set ps"
    using rep that by (simp add: hbl_def unlinked_but_def mk_node_def)
  show "hbl (h(p \<mapsto> n\<lparr>nd_data := d\<rparr>)) l ps" if "p \<notin> set ps" "h p = Some n"
    using rep that by (simp add: hbl_def unlinked_but_def)
  show "\<exists>h' l'. push_front (Some p) h l = Some (0, h', l') \<and> hbl h' l' (p # ps)
      \<and> contents h' = contents h" if "contents h p = Some d" "p \<notin> set ps"
    using push_front_dll [of h l ps p d] rep that by (auto simp: hbl_def)
  show "\<exists>h' l'. erase (Some p) h l = Some (0, h', l') \<and> hbl h' l' (remove1 p ps)
      \<and> contents h' = contents h" if "p \<in> set ps"
    using erase_dll [of h l ps p] rep that by (auto simp: hbl_def)
  show "erase (Some p) h l = Some (-1, h, l)" if "contents h p = Some d" "p \<notin> set ps"
    using erase_detached [of h l ps p] rep that by (auto simp: hbl_def unlinked_but_def contents_Some)
next
  fix h :: "'a node_store" and l ps p
  assume "hbl h l (p # ps)"
  then show "\<exists>h' l'. pop_front h l = Some (Some p, h', l') \<and> hbl h' l' ps \<and> contents h' = contents h"
    using pop_front_dll [of h l p ps] by (auto simp: hbl_def)
next
  fix h :: "'a node_store" and l ps p
  assume "hbl h l (ps @ [p])"
  then show "\<exists>h' l'. pop_back h l = Some (Some p, h', l') \<and> hbl h' l' ps \<and> contents h' = contents h"
    using pop_back_dll [of h l ps p] by (auto simp: hbl_def)
next
  fix h :: "'a node_store" and l
  assume "hbl h l []"
  then show "pop_front h l = Some (None, h, l) \<and> pop_back h l = Some (None, h, l)"
    by (simp add: hbl_def pop_empty_dll)
qed

lemmas list_ops_laws = hb.push_f hb.pop_f hb.pop_b hb.erase_member hb.erase_other hb.pop_none

section \<open>Sequences of calls against lists of addresses\<close>

text \<open>The calls of the class, and what each returns.\<close>

datatype list_call = Push_front ptr | Push_back ptr | Pop_front | Pop_back | Front | Back
  | Erase ptr | Empty

datatype list_result = Status int | Node "ptr option" | Flag bool

fun run_call :: "list_call \<Rightarrow> 'a node_store \<Rightarrow> hb_list
    \<Rightarrow> (list_result \<times> 'a node_store \<times> hb_list) option" where
  "run_call (Push_front p) h l = map_option (apfst Status) (push_front (Some p) h l)"
| "run_call (Push_back p) h l = map_option (apfst Status) (push_back (Some p) h l)"
| "run_call Pop_front h l = map_option (apfst Node) (pop_front h l)"
| "run_call Pop_back h l = map_option (apfst Node) (pop_back h l)"
| "run_call Front h l = Some (Node (list_front l), h, l)"
| "run_call Back h l = Some (Node (list_back l), h, l)"
| "run_call (Erase p) h l = map_option (apfst Status) (erase (Some p) h l)"
| "run_call Empty h l = Some (Flag (is_empty_list l), h, l)"

fun run_calls :: "list_call list \<Rightarrow> 'a node_store \<Rightarrow> hb_list
    \<Rightarrow> (list_result list \<times> 'a node_store \<times> hb_list) option" where
  "run_calls [] h l = Some ([], h, l)"
| "run_calls (c # cs) h l = do {
     (r, h, l) \<leftarrow> run_call c h l;
     (rs, h, l) \<leftarrow> run_calls cs h l;
     Some (r # rs, h, l)
   }"

text \<open>The same calls on a plain list of addresses.\<close>

fun spec_call :: "list_call \<Rightarrow> ptr list \<Rightarrow> list_result \<times> ptr list" where
  "spec_call (Push_front p) ps = (Status 0, p # ps)"
| "spec_call (Push_back p) ps = (Status 0, ps @ [p])"
| "spec_call Pop_front ps = (Node (first_or ps None), tl ps)"
| "spec_call Pop_back ps = (Node (last_or None ps), butlast ps)"
| "spec_call Front ps = (Node (first_or ps None), ps)"
| "spec_call Back ps = (Node (last_or None ps), ps)"
| "spec_call (Erase p) ps = (Status (if p \<in> set ps then 0 else -1), remove1 p ps)"
| "spec_call Empty ps = (Flag (ps = []), ps)"

fun spec_calls :: "list_call list \<Rightarrow> ptr list \<Rightarrow> list_result list \<times> ptr list" where
  "spec_calls [] ps = ([], ps)"
| "spec_calls (c # cs) ps =
     (let (r, ps) = spec_call c ps; (rs, ps) = spec_calls cs ps in (r # rs, ps))"

text \<open>What the caller must guarantee: only live nodes, and no node is pushed twice.\<close>

fun call_ok :: "(ptr \<Rightarrow> bool) \<Rightarrow> list_call \<Rightarrow> ptr list \<Rightarrow> bool" where
  "call_ok live (Push_front p) ps \<longleftrightarrow> live p \<and> p \<notin> set ps"
| "call_ok live (Push_back p) ps \<longleftrightarrow> live p \<and> p \<notin> set ps"
| "call_ok live (Erase p) ps \<longleftrightarrow> live p"
| "call_ok live _ ps \<longleftrightarrow> True"

fun calls_ok :: "(ptr \<Rightarrow> bool) \<Rightarrow> list_call list \<Rightarrow> ptr list \<Rightarrow> bool" where
  "calls_ok live [] ps \<longleftrightarrow> True"
| "calls_ok live (c # cs) ps \<longleftrightarrow> call_ok live c ps \<and> calls_ok live cs (snd (spec_call c ps))"

definition live_in :: "'a node_store \<Rightarrow> ptr \<Rightarrow> bool" where
  "live_in h p \<longleftrightarrow> contents h p \<noteq> None"

lemma hbl_ends:
  assumes "hbl h l ps"
  shows "list_front l = first_or ps None" "list_back l = last_or None ps"
    "is_empty_list l \<longleftrightarrow> ps = []"
  using assms by (simp_all add: hbl_def dll_def list_front_def list_back_def is_empty_list_def)

lemma push_back_hbl:
  assumes "hbl h l ps" and "contents h p = Some d" and "p \<notin> set ps"
  shows "\<exists>h' l'. push_back (Some p) h l = Some (0, h', l') \<and> hbl h' l' (ps @ [p])
           \<and> contents h' = contents h"
  using push_back_dll [of h l ps p d] assms by (auto simp: hbl_def)

lemma run_call_spec:
  assumes "hbl h l ps" and "call_ok (live_in h) c ps"
  shows "\<exists>h' l'. run_call c h l = Some (fst (spec_call c ps), h', l')
           \<and> hbl h' l' (snd (spec_call c ps)) \<and> contents h' = contents h"
proof (cases c)
  case (Push_front p)
  with assms(2) obtain d where "contents h p = Some d" "p \<notin> set ps" by (auto simp: live_in_def)
  from hb.push_f [OF assms(1) this] Push_front show ?thesis by auto
next
  case (Push_back p)
  with assms(2) obtain d where "contents h p = Some d" "p \<notin> set ps" by (auto simp: live_in_def)
  from push_back_hbl [OF assms(1) this] Push_back show ?thesis by auto
next
  case Pop_front
  show ?thesis
  proof (cases ps)
    case Nil
    with assms(1) Pop_front hb.pop_none [of h l] show ?thesis by simp
  next
    case (Cons p ps')
    with assms(1) Pop_front hb.pop_f [of h l p ps'] show ?thesis by auto
  qed
next
  case Pop_back
  show ?thesis
  proof (cases ps rule: rev_cases)
    case Nil
    with assms(1) Pop_back hb.pop_none [of h l] show ?thesis by simp
  next
    case (snoc ps' p)
    with assms(1) Pop_back hb.pop_b [of h l ps' p] show ?thesis by auto
  qed
next
  case (Erase p)
  with assms(2) obtain d where d: "contents h p = Some d" by (auto simp: live_in_def)
  show ?thesis
  proof (cases "p \<in> set ps")
    case True
    from hb.erase_member [OF assms(1) this] True Erase show ?thesis by auto
  next
    case False
    from hb.erase_other [OF assms(1) d this] False Erase assms(1) show ?thesis
      by (simp add: remove1_idem)
  qed
qed (use assms(1) hbl_ends [OF assms(1)] in simp_all)

text \<open>C17: Any sequence of calls whose pushes take live nodes that are not in the list yet
  behaves on the linked nodes exactly as the same calls on a list of addresses: every result
  is the specified one, no call dereferences a null or dangling pointer, the links stay
  consistent, and no node's data changes.\<close>

theorem list_calls_refine:
  assumes "hbl h l ps" and "calls_ok (live_in h) cs ps"
  shows "\<exists>h' l'. run_calls cs h l = Some (fst (spec_calls cs ps), h', l')
           \<and> hbl h' l' (snd (spec_calls cs ps)) \<and> contents h' = contents h"
  using assms
proof (induction cs arbitrary: h l ps)
  case Nil
  then show ?case by simp
next
  case (Cons c cs)
  from Cons.prems(2) have "call_ok (live_in h) c ps" by simp
  from run_call_spec [OF Cons.prems(1) this]
  obtain h1 l1 where one: "run_call c h l = Some (fst (spec_call c ps), h1, l1)"
    and "hbl h1 l1 (snd (spec_call c ps))" and "contents h1 = contents h"
    by (elim exE conjE)
  moreover from this(3) have "live_in h1 = live_in h"
    by (simp add: live_in_def fun_eq_iff)
  ultimately obtain h' l' where
    "run_calls cs h1 l1 = Some (fst (spec_calls cs (snd (spec_call c ps))), h', l')"
    "hbl h' l' (snd (spec_calls cs (snd (spec_call c ps))))" "contents h' = contents h"
    using Cons.IH [of h1 l1 "snd (spec_call c ps)"] Cons.prems by auto
  with one show ?case by (simp add: Let_def case_prod_beta)
qed

text \<open>The list is a queue: nodes pushed on the front come off the back in the order they
  were pushed, and the list is empty afterwards.\<close>

theorem list_fifo:
  assumes "hbl h l []" and "distinct ps" and "\<forall>p \<in> set ps. live_in h p"
  shows "\<exists>h1 l1 h2 l2. push_each push_front ps h l = Some (h1, l1)
           \<and> pop_each pop_back (length ps) h1 l1 = Some (map Some ps, h2, l2) \<and> hbl h2 l2 []"
  using hb.fifo [OF assms(1,2)] assms(3) by (simp add: live_in_def)

text \<open>\<open>erase\<close> does not test membership of a node with two neighbours: called on a
  non-empty list with an inner node of another list it reports success, leaves the list it
  was called on alone, and takes the node out of the other one.\<close>

theorem erase_foreign_node:
  assumes "dll h la as" and "as \<noteq> []" and "dll h lb (bs @ q # p # r # cs)"
    and "set as \<inter> set (bs @ q # p # r # cs) = {}"
  shows "\<exists>h'. erase (Some p) h la = Some (0, h', la) \<and> dll h' la as \<and> dll h' lb (bs @ q # r # cs)"
proof -
  have "m_header la \<noteq> None" using assms(1,2) by (auto simp: dll_def)
  then obtain h' where e: "erase (Some p) h la = Some (0, h', la)"
    and b: "dll h' lb (bs @ q # r # cs)" and same: "\<forall>x. x \<notin> {q, p, r} \<longrightarrow> h' x = h x"
    using erase_inner [OF assms(3)] by blast
  have "h x = h' x" if "x \<in> set as" for x
    using that same assms(4) by auto
  with assms(1) have "dll h' la as"
    using dll_cong [of as h h' la] by blast
  with e b show ?thesis by blast
qed

section \<open>Instances\<close>

text \<open>A store with three live nodes, and one with two lists of one and three nodes.\<close>

definition three_nodes :: "nat node_store" where
  "three_nodes = [1 \<mapsto> mk_node 10, 2 \<mapsto> mk_node 20, 3 \<mapsto> mk_node 30]"

lemma three_nodes_empty: "hbl three_nodes empty_list []"
  by (auto simp: hbl_def unlinked_but_def three_nodes_def mk_node_def)

lemma three_nodes_live: "live_in three_nodes p \<longleftrightarrow> p \<in> {1, 2, 3}"
  by (auto simp: live_in_def contents_def three_nodes_def)

theorem list_calls_refine_witness:
  "\<exists>h' l'. run_calls [Push_front 1, Push_front 2, Push_back 3, Erase 1, Pop_back, Pop_front, Pop_back]
     three_nodes empty_list =
     Some ([Status 0, Status 0, Status 0, Status 0, Node (Some 3), Node (Some 2), Node None], h', l')
     \<and> hbl h' l' []"
  using list_calls_refine [OF three_nodes_empty,
      of "[Push_front 1, Push_front 2, Push_back 3, Erase 1, Pop_back, Pop_front, Pop_back]"]
  by (auto simp: three_nodes_live)

theorem list_fifo_witness:
  "\<exists>h1 l1 h2 l2. push_each push_front [1, 3, 2] three_nodes empty_list = Some (h1, l1)
     \<and> pop_each pop_back 3 h1 l1 = Some ([Some 1, Some 3, Some 2], h2, l2) \<and> hbl h2 l2 []"
  using list_fifo [OF three_nodes_empty, of "[1, 3, 2]"] by (auto simp: three_nodes_live eval_nat_numeral)

definition two_lists :: "nat node_store" where
  "two_lists = [1 \<mapsto> mk_node 10,
     4 \<mapsto> \<lparr>nd_front = None, nd_next = Some 5, nd_data = 40\<rparr>,
     5 \<mapsto> \<lparr>nd_front = Some 4, nd_next = Some 6, nd_data = 50\<rparr>,
     6 \<mapsto> \<lparr>nd_front = Some 5, nd_next = None, nd_data = 60\<rparr>]"

theorem erase_foreign_node_witness:
  "\<exists>h'. erase (Some 5) two_lists \<lparr>m_header = Some 1, m_tail = Some 1\<rparr> =
        Some (0, h', \<lparr>m_header = Some 1, m_tail = Some 1\<rparr>)
     \<and> dll h' \<lparr>m_header = Some 1, m_tail = Some 1\<rparr> [1]
     \<and> dll h' \<lparr>m_header = Some 4, m_tail = Some 6\<rparr> [4, 6]"
  using erase_foreign_node [of two_lists "\<lparr>m_header = Some 1, m_tail = Some 1\<rparr>" "[1]"
      "\<lparr>m_header = Some 4, m_tail = Some 6\<rparr>" "[]" 4 5 6 "[]"]
  by (simp add: two_lists_def dll_def mk_node_def)

end
