(* ===== verification/HeartBeatMgr.thy ===== *)
theory HeartBeatMgr
  imports HeartBeatList
begin

text \<open>
  The element manager \<open>heart_beat_element_mgr_t\<close> of
  mylib/heart\_beat/heart\_beat\_element\_mgr.h: a hash map from elements to list nodes, the
  busy list that keeps the nodes in the order of their last beat (newest at the head), a pool
  of nodes, the expiry loop and the limit on the number of elements.

  What the code calls and does not define is an argument: the clock reading of
  \<open>time(NULL)\<close> (\<open>now\<close>) and the allocation of \<open>boost::object_pool\<close>
  (\<open>construct\<close>, which may fail). The timeout callback is the client's: a call of it is
  recorded in \<open>m_invoked\<close>, with the function and its argument, in the order of the calls.
  Times are the values of a signed 64-bit \<open>time_t\<close>; the one sum of the code that could
  overflow is checked in \<open>due_at\<close>.
\<close>

section \<open>State\<close>

record 'e element_data =
  ed_element :: 'e
  ed_time :: int

record ('e, 'cb) mgr =
  m_elements :: "'e \<rightharpoonup> ptr"
  m_busy_list :: hb_list
  m_node_pool :: "'e element_data node_store"
  m_callback_function :: "'cb option"
  m_element_count :: "64 word"
  m_timeout_flag :: bool
  m_timeout :: "32 word"
  m_max_limit_flag :: bool
  m_max_limit :: "64 word"
  m_invoked :: "('cb \<times> 'e) list"

type_synonym 'e allocator = "'e element_data node_store \<Rightarrow> ptr option"

definition stamped :: "int \<Rightarrow> 'e \<Rightarrow> 'e element_data" where
  "stamped now e = \<lparr>ed_element = e, ed_time = now\<rparr>"

definition init_mgr :: "('e, 'cb) mgr" where
  "init_mgr = \<lparr>m_elements = Map.empty, m_busy_list = empty_list, m_node_pool = Map.empty,
     m_callback_function = None, m_element_count = 0, m_timeout_flag = False, m_timeout = 0,
     m_max_limit_flag = False, m_max_limit = 0, m_invoked = []\<rparr>"

section \<open>Configuration\<close>

definition mgr_set_callback_function :: "'cb option \<Rightarrow> ('e, 'cb) mgr \<Rightarrow> int \<times> ('e, 'cb) mgr" where
  "mgr_set_callback_function f m = (0, m\<lparr>m_callback_function := f\<rparr>)"

definition mgr_set_timeout :: "bool \<Rightarrow> 32 word \<Rightarrow> ('e, 'cb) mgr \<Rightarrow> int \<times> ('e, 'cb) mgr" where
  "mgr_set_timeout flag t m = (0, m\<lparr>m_timeout_flag := flag, m_timeout := t\<rparr>)"

definition mgr_set_max_limit :: "bool \<Rightarrow> 64 word \<Rightarrow> ('e, 'cb) mgr \<Rightarrow> int \<times> ('e, 'cb) mgr" where
  "mgr_set_max_limit flag n m = (0, m\<lparr>m_max_limit_flag := flag, m_max_limit := n\<rparr>)"

section \<open>The calls on the busy list, the pool and the callback\<close>

definition invoke :: "'e \<Rightarrow> ('e, 'cb) mgr \<Rightarrow> ('e, 'cb) mgr" where
  "invoke e m = (case m_callback_function m of None \<Rightarrow> m
     | Some f \<Rightarrow> m\<lparr>m_invoked := m_invoked m @ [(f, e)]\<rparr>)"

definition set_busy :: "'e element_data node_store \<Rightarrow> hb_list \<Rightarrow> ('e, 'cb) mgr \<Rightarrow> ('e, 'cb) mgr" where
  "set_busy h l m = m\<lparr>m_node_pool := h, m_busy_list := l\<rparr>"

definition busy_pop_back :: "('e, 'cb) mgr \<Rightarrow> (ptr option \<times> ('e, 'cb) mgr) option" where
  "busy_pop_back m = do {
     (r, h, l) \<leftarrow> pop_back (m_node_pool m) (m_busy_list m); Some (r, set_busy h l m) }"

definition busy_pop_front :: "('e, 'cb) mgr \<Rightarrow> (ptr option \<times> ('e, 'cb) mgr) option" where
  "busy_pop_front m = do {
     (r, h, l) \<leftarrow> pop_front (m_node_pool m) (m_busy_list m); Some (r, set_busy h l m) }"

definition busy_push_front :: "ptr \<Rightarrow> ('e, 'cb) mgr \<Rightarrow> (int \<times> ('e, 'cb) mgr) option" where
  "busy_push_front p m = do {
     (r, h, l) \<leftarrow> push_front (Some p) (m_node_pool m) (m_busy_list m); Some (r, set_busy h l m) }"

definition busy_erase :: "ptr \<Rightarrow> ('e, 'cb) mgr \<Rightarrow> (int \<times> ('e, 'cb) mgr) option" where
  "busy_erase p m = do {
     (r, h, l) \<leftarrow> erase (Some p) (m_node_pool m) (m_busy_list m); Some (r, set_busy h l m) }"

text \<open>\<open>m_node_pool.destroy(node)\<close>: the node's lifetime ends.\<close>

definition pool_destroy :: "ptr \<Rightarrow> ('e, 'cb) mgr \<Rightarrow> ('e, 'cb) mgr option" where
  "pool_destroy p m = do { _ \<leftarrow> m_node_pool m p; Some (m\<lparr>m_node_pool := (m_node_pool m)(p := None)\<rparr>) }"

text \<open>The three statements that end the expiry of a node and its deletion:
  \<open>m_elements.erase(..)\<close>, \<open>m_node_pool.destroy(node)\<close>, \<open>--m_element_count\<close>.\<close>

definition forget :: "ptr \<Rightarrow> 'e \<Rightarrow> ('e, 'cb) mgr \<Rightarrow> ('e, 'cb) mgr option" where
  "forget p e m = do {
     m \<leftarrow> pool_destroy p (m\<lparr>m_elements := (m_elements m)(e := None)\<rparr>);
     Some (m\<lparr>m_element_count := m_element_count m - 1\<rparr>) }"

section \<open>The operations\<close>

text \<open>\<open>currect_time >= node->data.time + timeout\<close>, undefined when the sum leaves
  \<open>time_t\<close>.\<close>

definition due_at :: "int \<Rightarrow> 32 word \<Rightarrow> int \<Rightarrow> bool option" where
  "due_at now t beat = (if beat + uint t < 2 ^ 63 then Some (beat + uint t \<le> now) else None)"

partial_function (option) expire_loop :: "int \<Rightarrow> 32 word \<Rightarrow> ('e, 'cb) mgr
    \<Rightarrow> (int \<times> ('e, 'cb) mgr) option" where [code]:
  "expire_loop now t m =
     (case list_back (m_busy_list m) of None \<Rightarrow> Some (0, m)
      | Some p \<Rightarrow> do {
          n \<leftarrow> m_node_pool m p;
          due \<leftarrow> due_at now t (ed_time (nd_data n));
          if due then do {
            (r, m) \<leftarrow> busy_pop_back (invoke (ed_element (nd_data n)) m);
            if r = None then Some (-1, m)
            else do {
              m \<leftarrow> forget p (ed_element (nd_data n)) m;
              expire_loop now t m
            }
          }
          else Some (0, m)
        })"

definition mgr_handle_timeout :: "int \<Rightarrow> ('e, 'cb) mgr \<Rightarrow> (int \<times> ('e, 'cb) mgr) option" where
  "mgr_handle_timeout now m =
     (if m_timeout_flag m then expire_loop now (m_timeout m) m else Some (0, m))"

text \<open>The branch of \<open>add_element\<close> for a full manager: the oldest element goes. On an empty
  list \<open>pop_back\<close> returns NULL, which the code dereferences.\<close>

definition evict_oldest :: "('e, 'cb) mgr \<Rightarrow> ('e, 'cb) mgr option" where
  "evict_oldest m = do {
     (node, m) \<leftarrow> busy_pop_back m;
     p \<leftarrow> node;
     n \<leftarrow> m_node_pool m p;
     forget p (ed_element (nd_data n)) (invoke (ed_element (nd_data n)) m) }"

definition mgr_add_element :: "'e allocator \<Rightarrow> int \<Rightarrow> 'e \<Rightarrow> ('e, 'cb) mgr
    \<Rightarrow> (int \<times> ('e, 'cb) mgr) option" where
  "mgr_add_element construct now e m =
     (if m_elements m e \<noteq> None then Some (-1, m)
      else do {
        m \<leftarrow> (if m_max_limit_flag m \<and> m_element_count m + 1 > m_max_limit m
              then evict_oldest m else Some m);
        case construct (m_node_pool m) of
          None \<Rightarrow> Some (-1, m)
        | Some p \<Rightarrow> do {
            (_, m) \<leftarrow> busy_push_front p
              (m\<lparr>m_node_pool := (m_node_pool m)(p \<mapsto> mk_node (stamped now e)),
                 m_elements := (m_elements m)(e \<mapsto> p)\<rparr>);
            Some (0, m\<lparr>m_element_count := m_element_count m + 1\<rparr>)
          }
      })"

definition mgr_update_element :: "int \<Rightarrow> 'e \<Rightarrow> ('e, 'cb) mgr \<Rightarrow> (int \<times> ('e, 'cb) mgr) option" where
  "mgr_update_element now e m =
     (case m_elements m e of None \<Rightarrow> Some (-1, m)
      | Some p \<Rightarrow> do {
          (r, m) \<leftarrow> busy_erase p m;
          if r \<noteq> 0 then Some (-1, m)
          else do {
            n \<leftarrow> m_node_pool m p;
            (_, m) \<leftarrow> busy_push_front p
              (m\<lparr>m_node_pool := (m_node_pool m)(p \<mapsto> n\<lparr>nd_data := (nd_data n)\<lparr>ed_time := now\<rparr>\<rparr>)\<rparr>);
            Some (0, m)
          }
        })"

definition mgr_del_element :: "'e \<Rightarrow> ('e, 'cb) mgr \<Rightarrow> (int \<times> ('e, 'cb) mgr) option" where
  "mgr_del_element e m =
     (case m_elements m e of None \<Rightarrow> Some (-1, m)
      | Some p \<Rightarrow> do {
          (r, m) \<leftarrow> busy_erase p m;
          if r \<noteq> 0 then Some (-1, m)
          else do { m \<leftarrow> forget p e m; Some (0, m) }
        })"

partial_function (option) clear_loop :: "('e, 'cb) mgr \<Rightarrow> ('e, 'cb) mgr option" where [code]:
  "clear_loop m = do {
     (r, m) \<leftarrow> busy_pop_front m;
     case r of None \<Rightarrow> Some m
     | Some p \<Rightarrow> do { m \<leftarrow> pool_destroy p m; clear_loop m } }"

definition mgr_clear_element :: "('e, 'cb) mgr \<Rightarrow> (int \<times> ('e, 'cb) mgr) option" where
  "mgr_clear_element m = do { m \<leftarrow> clear_loop m; Some (0, m\<lparr>m_elements := Map.empty\<rparr>) }"

partial_function (option) collect_loop :: "'e list \<Rightarrow> ('e, 'cb) mgr
    \<Rightarrow> ('e list \<times> ('e, 'cb) mgr) option" where [code]:
  "collect_loop vt m = do {
     (r, m) \<leftarrow> busy_pop_front m;
     case r of None \<Rightarrow> Some (vt, m)
     | Some p \<Rightarrow> do {
         n \<leftarrow> m_node_pool m p;
         m \<leftarrow> pool_destroy p m;
         collect_loop (vt @ [ed_element (nd_data n)]) m } }"

definition mgr_get_all_element_and_clear :: "'e list \<Rightarrow> ('e, 'cb) mgr
    \<Rightarrow> (int \<times> 'e list \<times> ('e, 'cb) mgr) option" where
  "mgr_get_all_element_and_clear vt m = do {
     (vt, m) \<leftarrow> collect_loop vt m; Some (0, vt, m\<lparr>m_elements := Map.empty\<rparr>) }"

partial_function (option) trigger_loop :: "('e, 'cb) mgr \<Rightarrow> ('e, 'cb) mgr option" where [code]:
  "trigger_loop m = do {
     (r, m) \<leftarrow> busy_pop_front m;
     case r of None \<Rightarrow> Some m
     | Some p \<Rightarrow> do {
         n \<leftarrow> m_node_pool m p;
         m \<leftarrow> pool_destroy p (invoke (ed_element (nd_data n)) m);
         trigger_loop m } }"

definition mgr_trigger_all_timeout :: "('e, 'cb) mgr \<Rightarrow> ('e, 'cb) mgr option" where
  "mgr_trigger_all_timeout m = do { m \<leftarrow> trigger_loop m; Some (m\<lparr>m_elements := Map.empty\<rparr>) }"

section \<open>Well-formed managers\<close>

text \<open>
  \<open>indexes c el ps\<close>: the nodes \<open>ps\<close> are the live ones of the contents \<open>c\<close>, and
  the hash map \<open>el\<close> sends an element to the node that holds it. \<open>mgr_wf m ps\<close> adds
  that the busy list is a well-formed list of \<open>ps\<close>; \<open>view m ps\<close> is what these nodes
  hold, newest first; \<open>counted m ps\<close> says that \<open>m_element_count\<close> is their number.
\<close>

definition indexes :: "(ptr \<rightharpoonup> 'e element_data) \<Rightarrow> ('e \<rightharpoonup> ptr) \<Rightarrow> ptr list \<Rightarrow> bool" where
  "indexes c el ps \<longleftrightarrow> dom c = set ps
     \<and> (\<forall>e p. el e = Some p \<longleftrightarrow> (\<exists>d. c p = Some d \<and> ed_element d = e))"

definition mgr_wf :: "('e, 'cb) mgr \<Rightarrow> ptr list \<Rightarrow> bool" where
  "mgr_wf m ps \<longleftrightarrow> hbl (m_node_pool m) (m_busy_list m) ps
     \<and> indexes (contents (m_node_pool m)) (m_elements m) ps"

definition held :: "(ptr \<rightharpoonup> 'e element_data) \<Rightarrow> ptr list \<Rightarrow> 'e element_data list" where
  "held c ps = map (\<lambda>p. the (c p)) ps"

definition view :: "('e, 'cb) mgr \<Rightarrow> ptr list \<Rightarrow> 'e element_data list" where
  "view m ps = held (contents (m_node_pool m)) ps"

definition counted :: "('e, 'cb) mgr \<Rightarrow> ptr list \<Rightarrow> bool" where
  "counted m ps \<longleftrightarrow> unat (m_element_count m) = length ps"

text \<open>What is assumed of the pool: a constructed node is not one of the live ones; and, where
  a statement says so, that a store of finitely many nodes has room for one more.\<close>

definition fresh_allocator :: "'e allocator \<Rightarrow> bool" where
  "fresh_allocator construct \<longleftrightarrow> (\<forall>h p. construct h = Some p \<longrightarrow> h p = None)"

definition never_exhausted :: "'e allocator \<Rightarrow> bool" where
  "never_exhausted construct \<longleftrightarrow> (\<forall>h. finite (dom h) \<longrightarrow> construct h \<noteq> None)"

subsection \<open>The index under the three changes the code makes\<close>

lemma indexesI:
  assumes "dom c = set ps"
    and "\<And>e p. el e = Some p \<Longrightarrow> \<exists>d. c p = Some d \<and> ed_element d = e"
    and "\<And>p d. c p = Some d \<Longrightarrow> el (ed_element d) = Some p"
  shows "indexes c el ps"
  using assms unfolding indexes_def by blast

lemma indexes_dom: "indexes c el ps \<Longrightarrow> dom c = set ps"
  by (simp add: indexes_def)

lemma indexes_lookup: "indexes c el ps \<Longrightarrow> el e = Some p \<Longrightarrow> \<exists>d. c p = Some d \<and> ed_element d = e"
  by (simp add: indexes_def)

lemma indexes_held: "indexes c el ps \<Longrightarrow> c p = Some d \<Longrightarrow> el (ed_element d) = Some p"
  by (auto simp: indexes_def)

lemma indexes_live: "indexes c el ps \<Longrightarrow> p \<in> set ps \<longleftrightarrow> (\<exists>d. c p = Some d)"
  using indexes_dom [of c el ps] by auto

lemma indexes_element:
  assumes "indexes c el ps" and "c p = Some d" and "c q = Some d'" and "ed_element d' = ed_element d"
  shows "q = p"
  using indexes_held [OF assms(1,2)] indexes_held [OF assms(1,3)] assms(4) by simp

lemma indexes_new:
  assumes "indexes c el ps" and "el e = None" and "c p = None"
  shows "indexes (c(p \<mapsto> stamped t e)) (el(e \<mapsto> p)) (p # ps)"
proof (rule indexesI)
  show "dom (c(p \<mapsto> stamped t e)) = set (p # ps)"
    using indexes_dom [OF assms(1)] by simp
  show "\<exists>d. (c(p \<mapsto> stamped t e)) q = Some d \<and> ed_element d = e'"
    if "(el(e \<mapsto> p)) e' = Some q" for e' q
    using that assms(3) indexes_lookup [OF assms(1), of e' q]
    by (auto simp: stamped_def split: if_splits)
  show "(el(e \<mapsto> p)) (ed_element d) = Some q" if "(c(p \<mapsto> stamped t e)) q = Some d" for q d
    using that assms(2) indexes_held [OF assms(1), of q d]
    by (auto simp: stamped_def split: if_splits)
qed

lemma indexes_drop:
  assumes "indexes c el ps" and "distinct ps" and "c p = Some d"
  shows "indexes (c(p := None)) (el(ed_element d := None)) (remove1 p ps)"
proof (rule indexesI)
  show "dom (c(p := None)) = set (remove1 p ps)"
    using indexes_dom [OF assms(1)] assms(2) by simp
  show "\<exists>d'. (c(p := None)) q = Some d' \<and> ed_element d' = e'"
    if "(el(ed_element d := None)) e' = Some q" for e' q
    using that indexes_lookup [OF assms(1), of e' q] assms(3) by (auto split: if_splits)
  show "(el(ed_element d := None)) (ed_element d') = Some q" if "(c(p := None)) q = Some d'" for q d'
    using that indexes_held [OF assms(1), of q d'] indexes_element [OF assms(1,3), of q d']
    by (auto split: if_splits)
qed

lemma indexes_touch:
  assumes "indexes c el ps" and "distinct ps" and "c p = Some d"
  shows "indexes (c(p \<mapsto> d\<lparr>ed_time := t\<rparr>)) el (p # remove1 p ps)"
proof (rule indexesI)
  show "dom (c(p \<mapsto> d\<lparr>ed_time := t\<rparr>)) = set (p # remove1 p ps)"
    using indexes_dom [OF assms(1)] assms(2,3) by auto
  show "\<exists>d'. (c(p \<mapsto> d\<lparr>ed_time := t\<rparr>)) q = Some d' \<and> ed_element d' = e'"
    if "el e' = Some q" for e' q
    using indexes_lookup [OF assms(1) that] assms(3) by auto
  show "el (ed_element d') = Some q" if "(c(p \<mapsto> d\<lparr>ed_time := t\<rparr>)) q = Some d'" for q d'
    using that indexes_held [OF assms(1)] assms(3) by (auto split: if_splits)
qed

lemma held_simps [simp]:
  "held c [] = []" "held c (p # ps) = the (c p) # held c ps" "held c (ps @ qs) = held c ps @ held c qs"
  "length (held c ps) = length ps"
  by (simp_all add: held_def)

lemma held_upd_other [simp]: "p \<notin> set ps \<Longrightarrow> held (c(p := x)) ps = held c ps"
  by (auto simp: held_def)

lemma held_iff: "indexes c el ps \<Longrightarrow> d \<in> set (held c ps) \<longleftrightarrow> (\<exists>p. c p = Some d)"
  using indexes_live [of c el ps] by (force simp: held_def)

lemma indexes_None:
  assumes "indexes c el ps"
  shows "el e = None \<longleftrightarrow> e \<notin> ed_element ` set (held c ps)"
proof
  show "e \<notin> ed_element ` set (held c ps)" if "el e = None"
    using that indexes_held [OF assms] held_iff [OF assms] by fastforce
  show "el e = None" if "e \<notin> ed_element ` set (held c ps)"
    using that indexes_lookup [OF assms, of e] held_iff [OF assms] by (cases "el e") force+
qed

lemma held_remove1:
  assumes "indexes c el ps" and "distinct ps" and "c p = Some d"
  shows "held c (remove1 p ps) = filter (\<lambda>x. ed_element x \<noteq> ed_element d) (held c ps)"
proof -
  have "ed_element (the (c q)) \<noteq> ed_element d \<longleftrightarrow> p \<noteq> q" if "q \<in> set ps" for q
    using that indexes_live [OF assms(1), of q] indexes_element [OF assms(1,3), of q] assms(3)
    by auto
  then have "filter ((\<lambda>x. ed_element x \<noteq> ed_element d) \<circ> (\<lambda>q. the (c q))) ps = filter (\<lambda>q. p \<noteq> q) ps"
    by (intro filter_cong) simp_all
  then show ?thesis
    using assms(2) by (simp add: held_def filter_map distinct_remove1_removeAll removeAll_filter_not_eq)
qed

lemma held_distinct:
  assumes "indexes c el ps" and "distinct ps"
  shows "distinct (map ed_element (held c ps))"
proof -
  have "p = q" if "p \<in> set ps" "q \<in> set ps" "ed_element (the (c p)) = ed_element (the (c q))" for p q
    using that indexes_live [OF assms(1)] indexes_element [OF assms(1), of q _ p] by force
  then show ?thesis
    using assms(2) by (auto simp: held_def distinct_map inj_on_def)
qed

lemma contents_empty [simp]: "contents Map.empty = Map.empty"
  by (simp add: contents_def fun_eq_iff)

lemma mgr_wf_distinct: "mgr_wf m ps \<Longrightarrow> distinct ps"
  using hb.rep_distinct by (auto simp: mgr_wf_def)

lemma mgr_wf_indexes: "mgr_wf m ps \<Longrightarrow> indexes (contents (m_node_pool m)) (m_elements m) ps"
  by (simp add: mgr_wf_def)

lemma mgr_wf_node:
  assumes "mgr_wf m ps" and "p \<in> set ps"
  shows "\<exists>n. m_node_pool m p = Some n \<and> contents (m_node_pool m) p = Some (nd_data n)"
  using assms indexes_live [OF mgr_wf_indexes [OF assms(1)], of p] by (auto simp: contents_def)

lemma mgr_wf_finite:
  assumes "mgr_wf m ps"
  shows "finite (dom (m_node_pool m))"
proof -
  have "dom (m_node_pool m) = dom (contents (m_node_pool m))" by (auto simp: contents_def)
  also have "\<dots> = set ps" by (rule indexes_dom [OF mgr_wf_indexes [OF assms]])
  finally show ?thesis by simp
qed

lemma never_exhaustedD: "never_exhausted construct \<Longrightarrow> mgr_wf m ps \<Longrightarrow> construct (m_node_pool m) \<noteq> None"
  using mgr_wf_finite [of m ps] by (simp add: never_exhausted_def)

lemma mgr_wf_back: "mgr_wf m ps \<Longrightarrow> list_back (m_busy_list m) = last_or None ps"
  using hb.last_of by (auto simp: mgr_wf_def)

lemma mgr_wf_init: "mgr_wf init_mgr []"
  by (simp add: mgr_wf_def init_mgr_def hbl_def unlinked_but_def indexes_def)

lemma mgr_wf_frame [simp, frame_laws]:
  "mgr_wf (m\<lparr>m_element_count := k\<rparr>) ps = mgr_wf m ps"
  "mgr_wf (m\<lparr>m_invoked := iv\<rparr>) ps = mgr_wf m ps"
  "mgr_wf (invoke e m) ps = mgr_wf m ps"
  "view (m\<lparr>m_element_count := k\<rparr>) ps = view m ps"
  "view (m\<lparr>m_elements := el\<rparr>) ps = view m ps"
  "view (invoke e m) ps = view m ps"
  by (simp_all add: mgr_wf_def view_def invoke_def split: option.splits)

lemma invoke_frame [simp, frame_laws]:
  "m_elements (invoke e m) = m_elements m" "m_busy_list (invoke e m) = m_busy_list m"
  "m_node_pool (invoke e m) = m_node_pool m" "m_element_count (invoke e m) = m_element_count m"
  "m_callback_function (invoke e m) = m_callback_function m"
  "m_timeout_flag (invoke e m) = m_timeout_flag m" "m_timeout (invoke e m) = m_timeout m"
  "m_max_limit_flag (invoke e m) = m_max_limit_flag m" "m_max_limit (invoke e m) = m_max_limit m"
  by (simp_all add: invoke_def split: option.splits)

section \<open>The laws of the operations\<close>

text \<open>What no operation but the setters changes, and which callbacks an operation makes.\<close>

definition same_config :: "('e, 'cb) mgr \<Rightarrow> ('e, 'cb) mgr \<Rightarrow> bool" where
  "same_config m m' \<longleftrightarrow> m_callback_function m' = m_callback_function m
     \<and> m_timeout_flag m' = m_timeout_flag m \<and> m_timeout m' = m_timeout m
     \<and> m_max_limit_flag m' = m_max_limit_flag m \<and> m_max_limit m' = m_max_limit m"

definition callbacks :: "('e, 'cb) mgr \<Rightarrow> 'e list \<Rightarrow> ('cb \<times> 'e) list" where
  "callbacks m es = (case m_callback_function m of None \<Rightarrow> [] | Some f \<Rightarrow> map (Pair f) es)"

definition effect :: "('e, 'cb) mgr \<Rightarrow> ('e, 'cb) mgr \<Rightarrow> 'e list \<Rightarrow> bool" where
  "effect m m' es \<longleftrightarrow> same_config m m' \<and> m_invoked m' = m_invoked m @ callbacks m es"

lemma effect_refl [simp]: "effect m m []"
  by (simp add: effect_def same_config_def callbacks_def split: option.splits)

lemma effect_trans: "effect m m1 es \<Longrightarrow> effect m1 m2 es' \<Longrightarrow> effect m m2 (es @ es')"
  by (simp add: effect_def same_config_def callbacks_def split: option.splits)

lemma effect_invoke: "effect m (invoke e m) [e]"
  by (simp add: effect_def same_config_def callbacks_def invoke_def split: option.splits)

lemma effect_upd [simp]:
  "effect m (m'\<lparr>m_elements := el\<rparr>) es = effect m m' es"
  "effect m (m'\<lparr>m_node_pool := h\<rparr>) es = effect m m' es"
  "effect m (m'\<lparr>m_element_count := k\<rparr>) es = effect m m' es"
  "effect m (set_busy h l m') es = effect m m' es"
  by (simp_all add: effect_def same_config_def set_busy_def)

lemma effect_config:
  assumes "effect m m' es"
  shows "m_timeout_flag m' = m_timeout_flag m" "m_timeout m' = m_timeout m"
    "m_max_limit_flag m' = m_max_limit_flag m" "m_max_limit m' = m_max_limit m"
    "m_callback_function m' = m_callback_function m"
  using assms by (simp_all add: effect_def same_config_def)

lemma set_busy_frame [simp, frame_laws]:
  "m_node_pool (set_busy h l m) = h" "m_busy_list (set_busy h l m) = l"
  "m_elements (set_busy h l m) = m_elements m" "m_element_count (set_busy h l m) = m_element_count m"
  "m_invoked (set_busy h l m) = m_invoked m"
  "m_callback_function (set_busy h l m) = m_callback_function m"
  "m_timeout_flag (set_busy h l m) = m_timeout_flag m" "m_timeout (set_busy h l m) = m_timeout m"
  "m_max_limit_flag (set_busy h l m) = m_max_limit_flag m"
  "m_max_limit (set_busy h l m) = m_max_limit m"
  by (simp_all add: set_busy_def)

lemma busy_pop_back:
  assumes "mgr_wf m (ps @ [p])"
  shows "\<exists>h l. busy_pop_back m = Some (Some p, set_busy h l m) \<and> hbl h l ps
           \<and> contents h = contents (m_node_pool m)"
  using hb.pop_b [of "m_node_pool m" "m_busy_list m" ps p] assms
  by (auto simp: mgr_wf_def busy_pop_back_def) blast

lemma busy_pop_front:
  assumes "mgr_wf m (p # ps)"
  shows "\<exists>h l. busy_pop_front m = Some (Some p, set_busy h l m) \<and> hbl h l ps
           \<and> contents h = contents (m_node_pool m)"
  using hb.pop_f [of "m_node_pool m" "m_busy_list m" p ps] assms
  by (auto simp: mgr_wf_def busy_pop_front_def) blast

lemma busy_pop_empty:
  assumes "mgr_wf m []"
  shows "busy_pop_front m = Some (None, m)" "busy_pop_back m = Some (None, m)"
  using hb.pop_none [of "m_node_pool m" "m_busy_list m"] assms
  by (auto simp: mgr_wf_def busy_pop_front_def busy_pop_back_def set_busy_def)

lemma forget_wf:
  assumes "hbl (m_node_pool m) (m_busy_list m) (remove1 p ps)"
    and "indexes (contents (m_node_pool m)) (m_elements m) ps" and "distinct ps"
    and "contents (m_node_pool m) p = Some d"
  shows "\<exists>m'. forget p (ed_element d) m = Some m' \<and> mgr_wf m' (remove1 p ps)
           \<and> view m' (remove1 p ps) = held (contents (m_node_pool m)) (remove1 p ps)
           \<and> effect m m' [] \<and> m_element_count m' = m_element_count m - 1"
proof -
  have live: "m_node_pool m p \<noteq> None" using assms(4) by (auto simp: contents_def)
  have out: "p \<notin> set (remove1 p ps)" using assms(3) by simp
  have c: "contents ((m_node_pool m)(p := None)) = (contents (m_node_pool m))(p := None)"
    by (simp add: contents_def fun_eq_iff)
  show ?thesis
    using live out hb.rep_free [OF assms(1) out] indexes_drop [OF assms(2,3,4)]
    by (auto simp: forget_def pool_destroy_def mgr_wf_def view_def c)
qed

lemma evict_oldest_wf:
  assumes "mgr_wf m (ps @ [p])"
  shows "\<exists>m'. evict_oldest m = Some m' \<and> mgr_wf m' ps \<and> view m' ps = butlast (view m (ps @ [p]))
           \<and> effect m m' [ed_element (last (view m (ps @ [p])))]
           \<and> m_element_count m' = m_element_count m - 1"
proof -
  from busy_pop_back [OF assms] obtain h l where
    pop: "busy_pop_back m = Some (Some p, set_busy h l m)" and hbl: "hbl h l ps"
    and c: "contents h = contents (m_node_pool m)" by blast
  from mgr_wf_node [OF assms, of p] obtain d where d: "contents (m_node_pool m) p = Some d" by auto
  then obtain n where n: "h p = Some n" "nd_data n = d"
    using c by (metis contents_Some)
  let ?m = "invoke (ed_element d) (set_busy h l m)"
  have ps: "remove1 p (ps @ [p]) = ps"
    using mgr_wf_distinct [OF assms] by (simp add: remove1_append)
  have "\<exists>m'. forget p (ed_element d) ?m = Some m' \<and> mgr_wf m' ps
      \<and> view m' ps = held (contents h) ps \<and> effect ?m m' [] \<and> m_element_count m' = m_element_count ?m - 1"
    using forget_wf [of ?m p "ps @ [p]" d] hbl c d mgr_wf_indexes [OF assms] mgr_wf_distinct [OF assms]
    by (simp add: ps)
  moreover have "effect m ?m [ed_element d]"
    using effect_invoke [of "set_busy h l m" "ed_element d"] by (simp add: effect_def same_config_def callbacks_def)
  ultimately show ?thesis
    using pop n d c effect_trans [of m ?m "[ed_element d]"]
    by (fastforce simp: evict_oldest_def view_def)
qed

lemma contents_upd: "contents (h(p \<mapsto> n)) = (contents h)(p \<mapsto> nd_data n)"
  by (simp add: contents_def fun_eq_iff)

lemma insert_wf:
  assumes "mgr_wf m ps" and "m_elements m e = None" and "m_node_pool m p = None"
  shows "\<exists>h l. busy_push_front p
             (m\<lparr>m_node_pool := (m_node_pool m)(p \<mapsto> mk_node (stamped now e)),
                m_elements := (m_elements m)(e \<mapsto> p)\<rparr>)
           = Some (0, set_busy h l (m\<lparr>m_elements := (m_elements m)(e \<mapsto> p)\<rparr>))
         \<and> mgr_wf (set_busy h l (m\<lparr>m_elements := (m_elements m)(e \<mapsto> p)\<rparr>)) (p # ps)
         \<and> held (contents h) (p # ps) = stamped now e # view m ps"
proof -
  let ?h = "(m_node_pool m)(p \<mapsto> mk_node (stamped now e))"
  have dead: "contents (m_node_pool m) p = None" using assms(3) by (simp add: contents_def)
  then have out: "p \<notin> set ps" using indexes_live [OF mgr_wf_indexes [OF assms(1)]] by simp
  have c: "contents ?h = (contents (m_node_pool m))(p \<mapsto> stamped now e)"
    by (simp add: contents_upd mk_node_def)
  have "hbl ?h (m_busy_list m) ps"
    by (rule hb.rep_new [OF _ out]) (use assms(1) in \<open>simp add: mgr_wf_def\<close>)
  with hb.push_f [OF this, of p "stamped now e"] out c obtain h l where
    push: "push_front (Some p) ?h (m_busy_list m) = Some (0, h, l)" and "hbl h l (p # ps)"
    and "contents h = contents ?h" by auto
  moreover have "indexes (contents ?h) ((m_elements m)(e \<mapsto> p)) (p # ps)"
    unfolding c by (rule indexes_new [OF mgr_wf_indexes [OF assms(1)] assms(2) dead])
  ultimately show ?thesis
    using c out
    by (intro exI [of _ h] exI [of _ l])
      (simp add: busy_push_front_def mgr_wf_def view_def set_busy_def)
qed

text \<open>Adding: \<open>add_room\<close> when no element has to go, \<open>add_full\<close> when the oldest goes.\<close>

lemma add_existing:
  assumes "m_elements m e \<noteq> None"
  shows "mgr_add_element construct now e m = Some (-1, m)"
  using assms by (simp add: mgr_add_element_def)

lemma add_room:
  assumes "mgr_wf m ps" and "m_elements m e = None"
    and "\<not> (m_max_limit_flag m \<and> m_element_count m + 1 > m_max_limit m)"
    and "construct (m_node_pool m) = Some p" and "fresh_allocator construct"
  shows "\<exists>m'. mgr_add_element construct now e m = Some (0, m') \<and> mgr_wf m' (p # ps)
           \<and> view m' (p # ps) = stamped now e # view m ps \<and> effect m m' []
           \<and> m_element_count m' = m_element_count m + 1"
proof -
  have "m_node_pool m p = None" using assms(4,5) by (auto simp: fresh_allocator_def)
  from insert_wf [OF assms(1,2) this, of now] assms(2,3,4) show ?thesis
    by (auto simp: mgr_add_element_def view_def)
qed

lemma add_full:
  assumes "mgr_wf m (ps @ [q])" and "m_elements m e = None"
    and "m_max_limit_flag m" and "m_element_count m + 1 > m_max_limit m"
    and "never_exhausted construct" and "fresh_allocator construct"
  shows "\<exists>m' p. mgr_add_element construct now e m = Some (0, m') \<and> mgr_wf m' (p # ps)
           \<and> view m' (p # ps) = stamped now e # butlast (view m (ps @ [q]))
           \<and> effect m m' [ed_element (last (view m (ps @ [q])))]
           \<and> m_element_count m' = m_element_count m"
proof -
  from evict_oldest_wf [OF assms(1)] obtain m1 where m1: "evict_oldest m = Some m1" "mgr_wf m1 ps"
    "view m1 ps = butlast (view m (ps @ [q]))"
    "effect m m1 [ed_element (last (view m (ps @ [q])))]"
    "m_element_count m1 = m_element_count m - 1" by blast
  from never_exhaustedD [OF assms(5) m1(2)] obtain p where p: "construct (m_node_pool m1) = Some p" by auto
  then have "m_node_pool m1 p = None" using assms(6) by (auto simp: fresh_allocator_def)
  moreover have "m_elements m1 e = None"
    using assms(2) m1(3) indexes_None [OF mgr_wf_indexes [OF m1(2)], of e]
      indexes_None [OF mgr_wf_indexes [OF assms(1)], of e]
    by (auto simp: view_def dest: in_set_butlastD)
  ultimately obtain h l where "busy_push_front p
             (m1\<lparr>m_node_pool := (m_node_pool m1)(p \<mapsto> mk_node (stamped now e)),
                m_elements := (m_elements m1)(e \<mapsto> p)\<rparr>)
           = Some (0, set_busy h l (m1\<lparr>m_elements := (m_elements m1)(e \<mapsto> p)\<rparr>))"
    "mgr_wf (set_busy h l (m1\<lparr>m_elements := (m_elements m1)(e \<mapsto> p)\<rparr>)) (p # ps)"
    "held (contents h) (p # ps) = stamped now e # view m1 ps"
    using insert_wf [OF m1(2), of e p now] by blast
  with assms(2,3,4) m1 p show ?thesis
    by (intro exI [of _ "(set_busy h l (m1\<lparr>m_elements := (m_elements m1)(e \<mapsto> p)\<rparr>))
          \<lparr>m_element_count := m_element_count m1 + 1\<rparr>"] exI [of _ p])
      (simp add: mgr_add_element_def view_def)
qed

lemma unlink_wf:
  assumes "mgr_wf m ps" and "m_elements m e = Some p"
  shows "\<exists>h l d. busy_erase p m = Some (0, set_busy h l m) \<and> hbl h l (remove1 p ps)
           \<and> contents h = contents (m_node_pool m) \<and> contents h p = Some d \<and> ed_element d = e
           \<and> p \<notin> set (remove1 p ps)
           \<and> held (contents h) (remove1 p ps) = filter (\<lambda>x. ed_element x \<noteq> e) (view m ps)"
proof -
  from indexes_lookup [OF mgr_wf_indexes [OF assms(1)] assms(2)] obtain d where
    d: "contents (m_node_pool m) p = Some d" "ed_element d = e" by blast
  then have "p \<in> set ps" using indexes_live [OF mgr_wf_indexes [OF assms(1)]] by blast
  with hb.refresh [of "m_node_pool m" "m_busy_list m" ps p] assms(1) obtain h l where
    "erase (Some p) (m_node_pool m) (m_busy_list m) = Some (0, h, l)" "hbl h l (remove1 p ps)"
    "contents h = contents (m_node_pool m)" "p \<notin> set (remove1 p ps)"
    by (auto simp: mgr_wf_def)
  with d held_remove1 [OF mgr_wf_indexes [OF assms(1)] mgr_wf_distinct [OF assms(1)] d(1)]
  show ?thesis
    by (intro exI [of _ h] exI [of _ l] exI [of _ d]) (simp add: busy_erase_def view_def)
qed

lemma update_missing: "m_elements m e = None \<Longrightarrow> mgr_update_element now e m = Some (-1, m)"
  by (simp add: mgr_update_element_def)

lemma update_present:
  assumes "mgr_wf m ps" and "m_elements m e = Some p"
  shows "\<exists>m'. mgr_update_element now e m = Some (0, m') \<and> mgr_wf m' (p # remove1 p ps)
           \<and> view m' (p # remove1 p ps)
              = stamped now e # filter (\<lambda>x. ed_element x \<noteq> e) (view m ps)
           \<and> effect m m' [] \<and> m_element_count m' = m_element_count m"
proof -
  from unlink_wf [OF assms] obtain h l d where
    er: "busy_erase p m = Some (0, set_busy h l m)" and hbl: "hbl h l (remove1 p ps)"
    and c: "contents h = contents (m_node_pool m)" and d: "contents h p = Some d" "ed_element d = e"
    and out: "p \<notin> set (remove1 p ps)"
    and v: "held (contents h) (remove1 p ps) = filter (\<lambda>x. ed_element x \<noteq> e) (view m ps)" by blast
  from d(1) obtain n where n: "h p = Some n" "nd_data n = d" by (auto simp: contents_Some)
  let ?h = "h(p \<mapsto> n\<lparr>nd_data := d\<lparr>ed_time := now\<rparr>\<rparr>)"
  have c': "contents ?h = (contents h)(p \<mapsto> d\<lparr>ed_time := now\<rparr>)"
    by (simp add: contents_upd)
  have t: "d\<lparr>ed_time := now\<rparr> = stamped now e"
    using d(2) by (cases d) (simp add: stamped_def)
  have "hbl ?h l (remove1 p ps)" by (rule hb.rep_data [OF hbl out n(1)])
  from hb.push_f [OF this _ out] c' obtain h' l' where
    push: "push_front (Some p) ?h l = Some (0, h', l')" "hbl h' l' (p # remove1 p ps)"
    and "contents h' = contents ?h" by auto
  moreover have "indexes (contents ?h) (m_elements m) (p # remove1 p ps)"
    unfolding c' c using indexes_touch [OF mgr_wf_indexes [OF assms(1)] mgr_wf_distinct [OF assms(1)]]
      d(1) c by simp
  ultimately show ?thesis
    using assms(2) er n v out c' t
    by (auto simp: mgr_update_element_def busy_push_front_def mgr_wf_def view_def set_busy_def)
      (simp add: effect_def same_config_def callbacks_def split: option.splits)
qed

lemma del_missing: "m_elements m e = None \<Longrightarrow> mgr_del_element e m = Some (-1, m)"
  by (simp add: mgr_del_element_def)

lemma del_present:
  assumes "mgr_wf m ps" and "m_elements m e = Some p"
  shows "\<exists>m'. mgr_del_element e m = Some (0, m') \<and> mgr_wf m' (remove1 p ps)
           \<and> view m' (remove1 p ps) = filter (\<lambda>x. ed_element x \<noteq> e) (view m ps)
           \<and> effect m m' [] \<and> m_element_count m' = m_element_count m - 1"
proof -
  from unlink_wf [OF assms] obtain h l d where
    er: "busy_erase p m = Some (0, set_busy h l m)" and hbl: "hbl h l (remove1 p ps)"
    and c: "contents h = contents (m_node_pool m)" and d: "contents h p = Some d" "ed_element d = e"
    and v: "held (contents h) (remove1 p ps) = filter (\<lambda>x. ed_element x \<noteq> e) (view m ps)" by blast
  from forget_wf [of "set_busy h l m" p ps d] hbl c d mgr_wf_indexes [OF assms(1)]
    mgr_wf_distinct [OF assms(1)] v er assms(2)
  show ?thesis
    by (auto simp: mgr_del_element_def effect_def same_config_def callbacks_def)
qed

subsection \<open>The loops\<close>

definition due :: "int \<Rightarrow> 32 word \<Rightarrow> 'e element_data \<Rightarrow> bool" where
  "due now t d \<longleftrightarrow> ed_time d + uint t \<le> now"

definition time_ok :: "32 word \<Rightarrow> 'e element_data \<Rightarrow> bool" where
  "time_ok t d \<longleftrightarrow> ed_time d + uint t < 2 ^ 63"

lemma due_at_ok: "time_ok t d \<Longrightarrow> due_at now t (ed_time d) = Some (due now t d)"
  by (simp add: due_at_def due_def time_ok_def)

lemma expire_step:
  assumes "mgr_wf m (ps @ [p])" and "contents (m_node_pool m) p = Some d"
    and "due_at now t (ed_time d) = Some True"
  shows "\<exists>m'. expire_loop now t m = expire_loop now t m' \<and> mgr_wf m' ps
           \<and> view m' ps = view m ps \<and> effect m m' [ed_element d]
           \<and> m_element_count m' = m_element_count m - 1"
proof -
  let ?m = "invoke (ed_element d) m"
  from assms(2) obtain n where n: "m_node_pool m p = Some n" "nd_data n = d"
    by (auto simp: contents_Some)
  from busy_pop_back [of ?m ps p] assms(1) obtain h l where
    pop: "busy_pop_back ?m = Some (Some p, set_busy h l ?m)" and hbl: "hbl h l ps"
    and c: "contents h = contents (m_node_pool m)" by auto
  have ps: "remove1 p (ps @ [p]) = ps"
    using mgr_wf_distinct [OF assms(1)] by (simp add: remove1_append)
  have "\<exists>m'. forget p (ed_element d) (set_busy h l ?m) = Some m' \<and> mgr_wf m' ps
      \<and> view m' ps = held (contents h) ps \<and> effect (set_busy h l ?m) m' []
      \<and> m_element_count m' = m_element_count (set_busy h l ?m) - 1"
    using forget_wf [of "set_busy h l ?m" p "ps @ [p]" d] hbl c assms(2)
      mgr_wf_indexes [OF assms(1)] mgr_wf_distinct [OF assms(1)] by (simp add: ps)
  then obtain m' where m': "forget p (ed_element d) (set_busy h l ?m) = Some m'" "mgr_wf m' ps"
    "view m' ps = held (contents h) ps" "effect (set_busy h l ?m) m' []"
    "m_element_count m' = m_element_count m - 1" by auto
  have "expire_loop now t m = expire_loop now t m'"
    using n pop m'(1) assms(3) mgr_wf_back [OF assms(1)]
    by (subst expire_loop.simps) simp
  moreover have "effect m m' [ed_element d]"
    using effect_trans [of m "set_busy h l ?m" "[ed_element d]" m' "[]"] m'(4)
      effect_invoke [of m "ed_element d"] by simp
  ultimately show ?thesis using m' c by (auto simp: view_def)
qed

text \<open>The expiry loop returns, and takes the due elements off the old end.\<close>

lemma expire_loop_wf:
  assumes "mgr_wf m ps" and "\<forall>d \<in> set (view m ps). time_ok t d"
  shows "\<exists>m' ps'. expire_loop now t m = Some (0, m') \<and> mgr_wf m' ps'
           \<and> view m' ps' = rev (dropWhile (due now t) (rev (view m ps)))
           \<and> effect m m' (map ed_element (takeWhile (due now t) (rev (view m ps))))
           \<and> m_element_count m' = m_element_count m
               - of_nat (length (takeWhile (due now t) (rev (view m ps))))"
  using assms
proof (induction ps arbitrary: m rule: rev_induct)
  case Nil
  then show ?case
    using mgr_wf_back [OF Nil(1)]
    by (intro exI [of _ m] exI [of _ "[]"]) (subst expire_loop.simps, simp add: view_def)
next
  case (snoc p ps)
  from mgr_wf_node [OF snoc.prems(1), of p] obtain n where
    n: "m_node_pool m p = Some n" and c: "contents (m_node_pool m) p = Some (nd_data n)" by auto
  have v: "view m (ps @ [p]) = view m ps @ [nd_data n]"
    using c by (simp add: view_def)
  have ok: "time_ok t (nd_data n)" using snoc.prems(2) v by simp
  show ?case
  proof (cases "due now t (nd_data n)")
    case True
    from expire_step [OF snoc.prems(1) c, of now t] due_at_ok [OF ok, of now] True obtain m1 where
      m1: "expire_loop now t m = expire_loop now t m1" "mgr_wf m1 ps" "view m1 ps = view m ps"
      "effect m m1 [ed_element (nd_data n)]" "m_element_count m1 = m_element_count m - 1" by auto
    from snoc.IH [OF m1(2)] snoc.prems(2) v m1(3) obtain m' ps' where
      m': "expire_loop now t m1 = Some (0, m')" "mgr_wf m' ps'"
      "view m' ps' = rev (dropWhile (due now t) (rev (view m ps)))"
      "effect m1 m' (map ed_element (takeWhile (due now t) (rev (view m ps))))"
      "m_element_count m' = m_element_count m1
         - of_nat (length (takeWhile (due now t) (rev (view m ps))))" by auto
    from effect_trans [OF m1(4) m'(4)] m1 m' v True show ?thesis
      by (intro exI [of _ m'] exI [of _ ps']) simp
  next
    case False
    then have "expire_loop now t m = Some (0, m)"
      using n ok mgr_wf_back [OF snoc.prems(1)]
      by (subst expire_loop.simps) (simp add: due_at_ok)
    with snoc.prems(1) v False show ?thesis
      by (intro exI [of _ m] exI [of _ "ps @ [p]"]) simp
  qed
qed

text \<open>The three loops that empty the manager. They pop from the head and leave the hash map
  for later, so only the list and the pool are well-formed while they run.\<close>

definition drainable :: "('e, 'cb) mgr \<Rightarrow> ptr list \<Rightarrow> bool" where
  "drainable m ps \<longleftrightarrow> hbl (m_node_pool m) (m_busy_list m) ps \<and> dom (contents (m_node_pool m)) = set ps"

definition drained :: "('e, 'cb) mgr \<Rightarrow> ('e, 'cb) mgr" where
  "drained m = set_busy Map.empty empty_list m"

lemma mgr_wf_drainable: "mgr_wf m ps \<Longrightarrow> drainable m ps"
  by (simp add: mgr_wf_def drainable_def indexes_def)

lemma contents_dom: "dom (contents h) = dom h"
  by (auto simp: contents_def)

lemma drain_empty:
  assumes "drainable m []"
  shows "busy_pop_front m = Some (None, m)" "drained m = m"
proof -
  show "busy_pop_front m = Some (None, m)"
    using hb.pop_none [of "m_node_pool m" "m_busy_list m"] assms
    by (auto simp: drainable_def busy_pop_front_def set_busy_def)
  have "m_busy_list m = empty_list"
    using assms by (cases "m_busy_list m") (simp add: drainable_def hbl_def dll_def empty_list_def)
  moreover have "m_node_pool m = Map.empty"
    using assms by (simp add: drainable_def contents_dom)
  ultimately show "drained m = m" by (simp add: drained_def set_busy_def)
qed

lemma drain_step:
  assumes "drainable m (p # ps)"
  shows "\<exists>h l n. busy_pop_front m = Some (Some p, set_busy h l m) \<and> h p = Some n
      \<and> Some (nd_data n) = contents (m_node_pool m) p \<and> drainable (set_busy (h(p := None)) l m) ps
      \<and> held (contents (h(p := None))) ps = held (contents (m_node_pool m)) ps"
proof -
  from assms have hbl: "hbl (m_node_pool m) (m_busy_list m) (p # ps)"
    and d: "dom (contents (m_node_pool m)) = set (p # ps)" by (simp_all add: drainable_def)
  from hb.pop_f [OF hbl] obtain h l where
    pop: "pop_front (m_node_pool m) (m_busy_list m) = Some (Some p, h, l)"
    and hbl': "hbl h l ps" and c: "contents h = contents (m_node_pool m)" by blast
  have out: "p \<notin> set ps" using hb.rep_distinct [OF hbl] by simp
  from d have "p \<in> dom (contents h)" by (simp add: c)
  then obtain n where n: "h p = Some n" by (auto simp: contents_def split: option.splits)
  have c': "contents (h(p := None)) = (contents (m_node_pool m))(p := None)"
    unfolding c [symmetric] by (simp add: contents_def fun_eq_iff)
  have "drainable (set_busy (h(p := None)) l m) ps"
    using hb.rep_free [OF hbl' out] d out by (simp add: drainable_def c')
  then show ?thesis
    using pop n c out
    by (intro exI [of _ h] exI [of _ l] exI [of _ n])
      (simp add: busy_pop_front_def c' contents_live [where h = h and p = p, OF n, symmetric])
qed

lemma pool_destroy_set_busy [simp]:
  "h p = Some n \<Longrightarrow> pool_destroy p (set_busy h l m) = Some (set_busy (h(p := None)) l m)"
  by (simp add: pool_destroy_def set_busy_def)

lemma drained_set_busy [simp]: "drained (set_busy h l m) = drained m"
  by (simp add: drained_def set_busy_def)

lemma invoke_set_busy: "invoke e (set_busy h l m) = set_busy h l (invoke e m)"
  by (simp add: invoke_def set_busy_def split: option.splits)

lemma callbacks_frame [simp]:
  "callbacks (set_busy h l m) es = callbacks m es" "callbacks (invoke e m) es = callbacks m es"
  by (simp_all add: callbacks_def split: option.splits)

lemma clear_loop_drained: "drainable m ps \<Longrightarrow> clear_loop m = Some (drained m)"
proof (induction ps arbitrary: m)
  case Nil
  then show ?case by (subst clear_loop.simps) (simp add: drain_empty)
next
  case (Cons p ps)
  from drain_step [OF Cons.prems] obtain h l n where
    s: "busy_pop_front m = Some (Some p, set_busy h l m)" "h p = Some n"
    "drainable (set_busy (h(p := None)) l m) ps" by blast
  from Cons.IH [OF s(3)] s(1,2) show ?case
    by (subst clear_loop.simps) simp
qed

lemma collect_loop_drained:
  "drainable m ps \<Longrightarrow>
     collect_loop vt m = Some (vt @ map ed_element (held (contents (m_node_pool m)) ps), drained m)"
proof (induction ps arbitrary: m vt)
  case Nil
  then show ?case by (subst collect_loop.simps) (simp add: drain_empty)
next
  case (Cons p ps)
  from drain_step [OF Cons.prems] obtain h l n where
    s: "busy_pop_front m = Some (Some p, set_busy h l m)" "h p = Some n"
    "Some (nd_data n) = contents (m_node_pool m) p" "drainable (set_busy (h(p := None)) l m) ps"
    "held (contents (h(p := None))) ps = held (contents (m_node_pool m)) ps" by blast
  have "the (contents (m_node_pool m) p) = nd_data n" using s(3) by (metis option.sel)
  have "collect_loop vt' (set_busy (h(p := None)) l m)
      = Some (vt' @ map ed_element (held (contents (m_node_pool m)) ps), drained m)" for vt'
    using Cons.IH [OF s(4), of vt'] by (simp only: set_busy_frame drained_set_busy s(5))
  with s(1,2) \<open>the _ = _\<close> show ?case
    by (subst collect_loop.simps) simp
qed

lemma trigger_loop_drained:
  "drainable m ps \<Longrightarrow> trigger_loop m = Some (drained (m\<lparr>m_invoked :=
     m_invoked m @ callbacks m (map ed_element (held (contents (m_node_pool m)) ps))\<rparr>))"
proof (induction ps arbitrary: m)
  case Nil
  have "m\<lparr>m_invoked := m_invoked m @ callbacks m []\<rparr> = m"
    by (simp add: callbacks_def split: option.splits)
  then show ?case using drain_empty [OF Nil]
    by (subst trigger_loop.simps) simp
next
  case (Cons p ps)
  from drain_step [OF Cons.prems] obtain h l n where
    s: "busy_pop_front m = Some (Some p, set_busy h l m)" "h p = Some n"
    "Some (nd_data n) = contents (m_node_pool m) p" "drainable (set_busy (h(p := None)) l m) ps"
    "held (contents (h(p := None))) ps = held (contents (m_node_pool m)) ps" by blast
  have e: "the (contents (m_node_pool m) p) = nd_data n" using s(3) by (metis option.sel)
  let ?m = "set_busy (h(p := None)) l (invoke (ed_element (nd_data n)) m)"
  have d: "drainable ?m ps" using s(4) by (simp add: drainable_def)
  have "trigger_loop ?m = Some (drained (?m\<lparr>m_invoked := m_invoked ?m
      @ callbacks ?m (map ed_element (held (contents (m_node_pool m)) ps))\<rparr>))"
    using Cons.IH [OF d] by (simp only: set_busy_frame s(5))
  then have "trigger_loop ?m = Some (drained (m\<lparr>m_invoked :=
     m_invoked m @ callbacks m (map ed_element (held (contents (m_node_pool m)) (p # ps)))\<rparr>))"
    using e by (simp add: drained_def set_busy_def callbacks_def invoke_def split: option.splits)
  with s(1,2) show ?case
    by (subst trigger_loop.simps) (simp add: invoke_set_busy)
qed

lemma mgr_wf_cleared: "mgr_wf ((drained m)\<lparr>m_elements := Map.empty\<rparr>) []"
  by (simp add: mgr_wf_def drained_def hbl_def unlinked_but_def indexes_def)

lemma clear_element_wf:
  "mgr_wf m ps \<Longrightarrow> mgr_clear_element m = Some (0, (drained m)\<lparr>m_elements := Map.empty\<rparr>)"
  by (simp add: mgr_clear_element_def clear_loop_drained [OF mgr_wf_drainable])

section \<open>The manager as a bounded, time-ordered registry\<close>

text \<open>
  The specification: a list of elements with the time of their last beat, newest first. A
  call returns its status, the new list and the elements whose callback it makes, in order.
  The limit and the timeout are options: \<open>None\<close> when the flag is off.
\<close>

datatype 'e mgr_call = Add 'e | Update 'e | Del 'e | Handle_timeout

definition limit_of :: "('e, 'cb) mgr \<Rightarrow> nat option" where
  "limit_of m = (if m_max_limit_flag m then Some (unat (m_max_limit m)) else None)"

definition timeout_of :: "('e, 'cb) mgr \<Rightarrow> 32 word option" where
  "timeout_of m = (if m_timeout_flag m then Some (m_timeout m) else None)"

definition over_limit :: "nat option \<Rightarrow> nat \<Rightarrow> bool" where
  "over_limit lim n \<longleftrightarrow> (case lim of None \<Rightarrow> False | Some k \<Rightarrow> k < n + 1)"

fun spec_mgr_call :: "nat option \<Rightarrow> 32 word option \<Rightarrow> int \<Rightarrow> 'e mgr_call \<Rightarrow> 'e element_data list
    \<Rightarrow> int \<times> 'e element_data list \<times> 'e list" where
  "spec_mgr_call lim tmo now (Add e) xs =
     (if e \<in> ed_element ` set xs then (-1, xs, [])
      else if over_limit lim (length xs)
      then (0, stamped now e # butlast xs, [ed_element (last xs)])
      else (0, stamped now e # xs, []))"
| "spec_mgr_call lim tmo now (Update e) xs =
     (if e \<in> ed_element ` set xs
      then (0, stamped now e # filter (\<lambda>x. ed_element x \<noteq> e) xs, []) else (-1, xs, []))"
| "spec_mgr_call lim tmo now (Del e) xs =
     (if e \<in> ed_element ` set xs then (0, filter (\<lambda>x. ed_element x \<noteq> e) xs, []) else (-1, xs, []))"
| "spec_mgr_call lim tmo now Handle_timeout xs =
     (case tmo of None \<Rightarrow> (0, xs, [])
      | Some t \<Rightarrow> (0, filter (\<lambda>x. \<not> due now t x) xs, rev (map ed_element (filter (due now t) xs))))"

fun run_mgr_call :: "'e allocator \<Rightarrow> int \<Rightarrow> 'e mgr_call \<Rightarrow> ('e, 'cb) mgr
    \<Rightarrow> (int \<times> ('e, 'cb) mgr) option" where
  "run_mgr_call construct now (Add e) m = mgr_add_element construct now e m"
| "run_mgr_call construct now (Update e) m = mgr_update_element now e m"
| "run_mgr_call construct now (Del e) m = mgr_del_element e m"
| "run_mgr_call construct now Handle_timeout m = mgr_handle_timeout now m"

text \<open>Times do not run backwards along the list, and none is later than the clock.\<close>

definition timed :: "int \<Rightarrow> 'e element_data list \<Rightarrow> bool" where
  "timed now xs \<longleftrightarrow> sorted_wrt (\<lambda>a b. ed_time b \<le> ed_time a) xs \<and> (\<forall>d \<in> set xs. ed_time d \<le> now)"

definition clock_ok :: "int \<Rightarrow> bool" where
  "clock_ok now \<longleftrightarrow> now + 2 ^ 32 \<le> 2 ^ 63"

text \<open>The state of a manager in use: what a call needs and keeps.\<close>

definition in_use :: "int \<Rightarrow> ('e, 'cb) mgr \<Rightarrow> 'e element_data list \<Rightarrow> bool" where
  "in_use now m xs \<longleftrightarrow> (\<exists>ps. mgr_wf m ps \<and> counted m ps \<and> view m ps = xs) \<and> timed now xs
     \<and> limit_of m \<noteq> Some 0"

lemma timed_mono: "timed now xs \<Longrightarrow> now \<le> now' \<Longrightarrow> timed now' xs"
  by (auto simp: timed_def)

lemma timed_time_ok: "timed now xs \<Longrightarrow> clock_ok now \<Longrightarrow> d \<in> set xs \<Longrightarrow> time_ok t d"
  using uint_bounded [of t] by (auto simp: timed_def clock_ok_def time_ok_def)

lemma timed_sub: "timed now xs \<Longrightarrow> timed now (filter P xs)"
  by (simp add: timed_def sorted_wrt_filter)

lemma timed_butlast: "timed now xs \<Longrightarrow> timed now (butlast xs)"
  by (cases xs rule: rev_cases) (auto simp: timed_def sorted_wrt_append)

lemma timed_new: "timed now xs \<Longrightarrow> timed now (stamped now e # xs)"
  by (simp add: timed_def stamped_def)

lemma timed_spec:
  "timed now xs \<Longrightarrow> timed now (fst (snd (spec_mgr_call lim tmo now c xs)))"
  by (cases c) (auto simp: timed_new timed_sub timed_butlast split: option.splits)

text \<open>Since the list is in the order of time, the loop that stops at the first element that
  is not due has met every due element.\<close>

lemma drop_due:
  assumes "sorted_wrt (\<lambda>a b. P b \<longrightarrow> P a) ys"
  shows "dropWhile P ys = filter (\<lambda>x. \<not> P x) ys \<and> takeWhile P ys = filter P ys"
  using assms by (induction ys) (auto simp: filter_id_conv filter_empty_conv empty_filter_conv)

lemma timed_due:
  assumes "timed now xs"
  shows "rev (dropWhile (due now' t) (rev xs)) = filter (\<lambda>x. \<not> due now' t x) xs"
    "takeWhile (due now' t) (rev xs) = rev (filter (due now' t) xs)"
proof -
  have "sorted_wrt (\<lambda>a b. due now' t b \<longrightarrow> due now' t a) (rev xs)"
    using assms unfolding sorted_wrt_rev timed_def
    by (auto simp: due_def elim!: sorted_wrt_mono_rel [rotated])
  from drop_due [OF this] show
    "rev (dropWhile (due now' t) (rev xs)) = filter (\<lambda>x. \<not> due now' t x) xs"
    "takeWhile (due now' t) (rev xs) = rev (filter (due now' t) xs)"
    by (simp_all add: rev_filter)
qed

lemma effect_limit: "effect m m' es \<Longrightarrow> limit_of m' = limit_of m \<and> timeout_of m' = timeout_of m"
  by (simp add: limit_of_def timeout_of_def effect_config)

lemma counted_empty: "counted m [] \<longleftrightarrow> m_element_count m = 0"
  by (simp add: counted_def unat_eq_0)

lemma counted_inc:
  assumes "counted m ps" and "length ps + 1 < 2 ^ 64"
  shows "unat (m_element_count m + 1) = length ps + 1"
  using assms unat_add_lem [of "m_element_count m" 1] by (simp add: counted_def)

lemma counted_minus:
  assumes "counted m ps" and "n \<le> length ps"
  shows "unat (m_element_count m - of_nat n) = length ps - n"
proof -
  have "n < 2 ^ 64" using assms unsigned_less [of "m_element_count m", where 'a = nat]
    by (simp add: counted_def)
  then have "unat (of_nat n :: 64 word) = n" by (simp add: unat_of_nat)
  then show ?thesis using assms unat_sub_if' [of "m_element_count m" "of_nat n"]
    by (simp add: counted_def)
qed

lemma counted_over_limit:
  assumes "counted m ps" and "length ps + 1 < 2 ^ 64"
  shows "m_max_limit_flag m \<and> m_element_count m + 1 > m_max_limit m
           \<longleftrightarrow> over_limit (limit_of m) (length ps)"
  using counted_inc [OF assms] by (auto simp: over_limit_def limit_of_def word_less_nat_alt)

lemma view_length: "length (view m ps) = length ps"
  by (simp add: view_def)

lemma add_refines:
  assumes wf: "mgr_wf m ps" and cnt: "counted m ps" and lim: "limit_of m \<noteq> Some 0"
    and len: "length ps + 1 < 2 ^ 64"
    and alloc: "fresh_allocator construct" "never_exhausted construct"
    and spec: "spec_mgr_call (limit_of m) tmo now (Add e) (view m ps) = (r, xs, fired)"
  shows "\<exists>m' ps'. mgr_add_element construct now e m = Some (r, m') \<and> mgr_wf m' ps'
           \<and> counted m' ps' \<and> view m' ps' = xs \<and> effect m m' fired"
proof (cases "m_elements m e")
  case (Some p)
  then show ?thesis
    using spec wf cnt indexes_None [OF mgr_wf_indexes [OF wf], of e] add_existing [of m e construct now]
    by (auto simp: view_def)
next
  case None
  then have new: "e \<notin> ed_element ` set (view m ps)"
    using indexes_None [OF mgr_wf_indexes [OF wf], of e] by (simp add: view_def)
  show ?thesis
  proof (cases "over_limit (limit_of m) (length ps)")
    case True
    then have "ps \<noteq> []" using lim by (auto simp: over_limit_def split: option.splits)
    then obtain qs q where ps: "ps = qs @ [q]" by (cases ps rule: rev_cases) auto
    from True counted_over_limit [OF cnt len]
    have full: "m_max_limit_flag m" "m_element_count m + 1 > m_max_limit m" by blast+
    from add_full [of m qs q e construct now] wf None full alloc ps obtain m' p where
      "mgr_add_element construct now e m = Some (0, m')" "mgr_wf m' (p # qs)"
      "view m' (p # qs) = stamped now e # butlast (view m ps)"
      "effect m m' [ed_element (last (view m ps))]" "m_element_count m' = m_element_count m" by auto
    then show ?thesis
      using spec new True cnt ps by (intro exI [of _ m'] exI [of _ "p # qs"])
        (auto simp: counted_def view_length)
  next
    case False
    obtain p where p: "construct (m_node_pool m) = Some p"
      using never_exhaustedD [OF alloc(2) wf] by auto
    from add_room [OF wf None _ p alloc(1), of now] False counted_over_limit [OF cnt len]
    obtain m' where "mgr_add_element construct now e m = Some (0, m')" "mgr_wf m' (p # ps)"
      "view m' (p # ps) = stamped now e # view m ps" "effect m m' []"
      "m_element_count m' = m_element_count m + 1" by auto
    then show ?thesis
      using spec new False counted_inc [OF cnt len] by (intro exI [of _ m'] exI [of _ "p # ps"])
        (auto simp: counted_def view_length)
  qed
qed

lemma present_iff:
  assumes "mgr_wf m ps"
  shows "e \<in> ed_element ` set (view m ps) \<longleftrightarrow> m_elements m e \<noteq> None"
  using indexes_None [OF mgr_wf_indexes [OF assms], of e] by (simp add: view_def)

lemma index_elements: "mgr_wf m ps \<Longrightarrow> dom (m_elements m) = ed_element ` set (view m ps)"
  using present_iff by fast

lemma present_in: 
  assumes "mgr_wf m ps" and "m_elements m e = Some p"
  shows "p \<in> set ps"
  using indexes_lookup [OF mgr_wf_indexes [OF assms(1)] assms(2)]
    indexes_live [OF mgr_wf_indexes [OF assms(1)], of p] by auto

lemma update_refines:
  assumes "mgr_wf m ps" and "counted m ps"
    and "spec_mgr_call lim tmo now (Update e) (view m ps) = (r, xs, fired)"
  shows "\<exists>m' ps'. mgr_update_element now e m = Some (r, m') \<and> mgr_wf m' ps'
           \<and> counted m' ps' \<and> view m' ps' = xs \<and> effect m m' fired"
proof (cases "m_elements m e")
  case None
  then show ?thesis
    using assms present_iff [OF assms(1), of e] update_missing [OF None] by auto
next
  case (Some p)
  from update_present [OF assms(1) Some, of now] obtain m' where
    "mgr_update_element now e m = Some (0, m')" "mgr_wf m' (p # remove1 p ps)"
    "view m' (p # remove1 p ps) = stamped now e # filter (\<lambda>x. ed_element x \<noteq> e) (view m ps)"
    "effect m m' []" "m_element_count m' = m_element_count m" by blast
  moreover have "length (p # remove1 p ps) = length ps"
    using present_in [OF assms(1) Some] length_pos_if_in_set [of p ps] by (simp add: length_remove1)
  ultimately show ?thesis
    using assms(2,3) present_iff [OF assms(1), of e] Some
    by (intro exI [of _ m'] exI [of _ "p # remove1 p ps"]) (simp add: counted_def)
qed

lemma del_refines:
  assumes "mgr_wf m ps" and "counted m ps"
    and "spec_mgr_call lim tmo now (Del e) (view m ps) = (r, xs, fired)"
  shows "\<exists>m' ps'. mgr_del_element e m = Some (r, m') \<and> mgr_wf m' ps'
           \<and> counted m' ps' \<and> view m' ps' = xs \<and> effect m m' fired"
proof (cases "m_elements m e")
  case None
  then show ?thesis
    using assms present_iff [OF assms(1), of e] del_missing [OF None] by auto
next
  case (Some p)
  from present_in [OF assms(1) Some] have p: "p \<in> set ps" and "1 \<le> length ps" by (cases ps; auto)+
  from del_present [OF assms(1) Some] obtain m' where
    "mgr_del_element e m = Some (0, m')" "mgr_wf m' (remove1 p ps)"
    "view m' (remove1 p ps) = filter (\<lambda>x. ed_element x \<noteq> e) (view m ps)"
    "effect m m' []" "m_element_count m' = m_element_count m - 1" by blast
  with counted_minus [OF assms(2) \<open>1 \<le> length ps\<close>] p show ?thesis
    using assms(3) present_iff [OF assms(1), of e] Some
    by (intro exI [of _ m'] exI [of _ "remove1 p ps"]) (simp add: counted_def length_remove1)
qed

lemma timeout_refines:
  assumes wf: "mgr_wf m ps" and cnt: "counted m ps" and t: "timed now (view m ps)" and ck: "clock_ok now"
    and spec: "spec_mgr_call lim (timeout_of m) now Handle_timeout (view m ps) = (r, xs, fired)"
  shows "\<exists>m' ps'. mgr_handle_timeout now m = Some (r, m') \<and> mgr_wf m' ps'
           \<and> counted m' ps' \<and> view m' ps' = xs \<and> effect m m' fired"
proof (cases "m_timeout_flag m")
  case False
  then show ?thesis using wf cnt spec by (auto simp: mgr_handle_timeout_def timeout_of_def)
next
  case True
  let ?gone = "takeWhile (due now (m_timeout m)) (rev (view m ps))"
  from expire_loop_wf [OF wf, of "m_timeout m" now] timed_time_ok [OF t ck] obtain m' ps' where
    m': "expire_loop now (m_timeout m) m = Some (0, m')" "mgr_wf m' ps'"
    "view m' ps' = rev (dropWhile (due now (m_timeout m)) (rev (view m ps)))"
    "effect m m' (map ed_element ?gone)"
    "m_element_count m' = m_element_count m - of_nat (length ?gone)" by blast
  have len: "length ps' + length ?gone = length ps"
    by (metis add.commute length_append length_rev m'(3) takeWhile_dropWhile_id view_length)
  then have "counted m' ps'"
    using counted_minus [OF cnt, of "length ?gone"] m'(5) by (simp add: counted_def)
  then show ?thesis
    using m' spec True timed_due [OF t, of now "m_timeout m"]
    by (intro exI [of _ m'] exI [of _ ps'])
      (auto simp: mgr_handle_timeout_def timeout_of_def rev_map)
qed

lemma mgr_call_in_use:
  assumes "in_use t m xs" and "t \<le> now" and "clock_ok now" and "length xs + 1 < 2 ^ 64"
    and "fresh_allocator construct" and "never_exhausted construct"
    and "spec_mgr_call (limit_of m) (timeout_of m) now c xs = (r, ys, fired)"
  shows "\<exists>m'. run_mgr_call construct now c m = Some (r, m') \<and> in_use now m' ys \<and> effect m m' fired"
proof -
  from assms(1) obtain ps where wf: "mgr_wf m ps" and cnt: "counted m ps" and v: "view m ps = xs"
    and td: "timed t xs" and lim: "limit_of m \<noteq> Some 0" by (auto simp: in_use_def)
  from timed_mono [OF td assms(2)] have now: "timed now xs" .
  have "\<exists>m' ps'. run_mgr_call construct now c m = Some (r, m') \<and> mgr_wf m' ps'
      \<and> counted m' ps' \<and> view m' ps' = ys \<and> effect m m' fired"
  proof (cases c)
    case (Add e)
    have "length ps + 1 < 2 ^ 64" using assms(4) v view_length [of m ps] by simp
    from add_refines [OF wf cnt lim this assms(5,6), of "timeout_of m" now e] Add assms(7) v
    show ?thesis by simp
  next
    case (Update e)
    with update_refines [OF wf cnt, of "limit_of m" "timeout_of m" now e] assms(7) v
    show ?thesis by simp
  next
    case (Del e)
    with del_refines [OF wf cnt, of "limit_of m" "timeout_of m" now e] assms(7) v
    show ?thesis by simp
  next
    case Handle_timeout
    with timeout_refines [OF wf cnt, of now "limit_of m"] assms(3,7) v now
    show ?thesis by simp
  qed
  then obtain m' ps' where m': "run_mgr_call construct now c m = Some (r, m')" "mgr_wf m' ps'"
    "counted m' ps'" "view m' ps' = ys" "effect m m' fired" by blast
  moreover have "timed now ys"
    using timed_spec [OF now, of "limit_of m" "timeout_of m" c] assms(7) by simp
  ultimately show ?thesis
    using effect_limit [OF m'(5)] lim by (auto simp: in_use_def)
qed

text \<open>Every call of the manager in use refines the specified registry: it returns (no
  pointer is dereferenced wrongly, the expiry loop ends), with the specified status, entries
  and callbacks, and leaves a manager in use: hash map, busy list, pool and counter agree,
  and the entries are in the order of time.\<close>

theorem mgr_call_refines:
  assumes "in_use t m xs" and "t \<le> now" and "clock_ok now" and "length xs + 1 < 2 ^ 64"
    and "fresh_allocator construct" and "never_exhausted construct"
    and "spec_mgr_call (limit_of m) (timeout_of m) now c xs = (r, ys, fired)"
  shows "\<exists>m'. run_mgr_call construct now c m = Some (r, m') \<and> in_use now m' ys \<and> effect m m' fired"
  using assms by (rule mgr_call_in_use)

text \<open>A history: calls with the clock reading at which each is made.\<close>

fun run_history :: "'e allocator \<Rightarrow> (int \<times> 'e mgr_call) list \<Rightarrow> ('e, 'cb) mgr
    \<Rightarrow> (int list \<times> ('e, 'cb) mgr) option" where
  "run_history construct [] m = Some ([], m)"
| "run_history construct ((now, c) # hs) m = do {
     (r, m) \<leftarrow> run_mgr_call construct now c m;
     (rs, m) \<leftarrow> run_history construct hs m;
     Some (r # rs, m)
   }"

fun spec_history :: "nat option \<Rightarrow> 32 word option \<Rightarrow> (int \<times> 'e mgr_call) list
    \<Rightarrow> 'e element_data list \<Rightarrow> int list \<times> 'e element_data list \<times> 'e list" where
  "spec_history lim tmo [] xs = ([], xs, [])"
| "spec_history lim tmo ((now, c) # hs) xs =
     (let (r, xs, fired) = spec_mgr_call lim tmo now c xs;
          (rs, xs, fired') = spec_history lim tmo hs xs
      in (r # rs, xs, fired @ fired'))"

fun clock_runs :: "int \<Rightarrow> (int \<times> 'e mgr_call) list \<Rightarrow> bool" where
  "clock_runs t [] \<longleftrightarrow> True"
| "clock_runs t ((now, c) # hs) \<longleftrightarrow> t \<le> now \<and> clock_ok now \<and> clock_runs now hs"

lemma spec_length: "length (fst (snd (spec_mgr_call lim tmo now c xs))) \<le> length xs + 1"
  by (cases c) (auto simp: le_SucI split: option.splits intro: le_trans [OF length_filter_le])

lemma spec_update_length:
  assumes "e \<in> ed_element ` set xs"
  shows "length (filter (\<lambda>x. ed_element x \<noteq> e) xs) < length xs"
  using assms by (auto intro: length_filter_less)

lemma spec_limit:
  assumes "length xs \<le> k" and "k \<noteq> 0"
  shows "length (fst (snd (spec_mgr_call (Some k) tmo now c xs))) \<le> k"
proof (cases c)
  case (Update e)
  with assms spec_update_length [of e xs] show ?thesis
    by (cases "e \<in> ed_element ` set xs") simp_all
qed (use assms in \<open>auto simp: over_limit_def split: option.splits
      intro: le_trans [OF length_filter_le]\<close>)

lemma mgr_history_in_use:
  assumes "in_use t m xs" and "clock_runs t hs" and "length xs + length hs < 2 ^ 64"
    and "fresh_allocator construct" and "never_exhausted construct"
    and "spec_history (limit_of m) (timeout_of m) hs xs = (rs, ys, fired)"
  shows "\<exists>m' t'. run_history construct hs m = Some (rs, m') \<and> in_use t' m' ys \<and> effect m m' fired"
  using assms
proof (induction hs arbitrary: t m xs rs fired)
  case Nil
  then show ?case by auto
next
  case (Cons h hs)
  obtain now c where h: "h = (now, c)" by (cases h)
  obtain r zs f1 where s1: "spec_mgr_call (limit_of m) (timeout_of m) now c xs = (r, zs, f1)"
    by (cases "spec_mgr_call (limit_of m) (timeout_of m) now c xs")
  obtain rs' f2 where s2: "spec_history (limit_of m) (timeout_of m) hs zs = (rs', ys, f2)"
    and rs: "rs = r # rs'" "fired = f1 @ f2"
    using Cons.prems(6) s1 h by (auto split: prod.splits)
  from mgr_call_in_use [OF Cons.prems(1) _ _ _ Cons.prems(4,5) s1] Cons.prems(2,3) h
  obtain m1 where m1: "run_mgr_call construct now c m = Some (r, m1)" "in_use now m1 zs"
    "effect m m1 f1" by auto
  have "length zs + length hs < 2 ^ 64"
    using spec_length [of "limit_of m" "timeout_of m" now c xs] s1 Cons.prems(3) by simp
  from Cons.IH [OF m1(2) _ this Cons.prems(4,5)] s2 effect_limit [OF m1(3)] Cons.prems(2) h
  obtain m' t' where "run_history construct hs m1 = Some (rs', m')" "in_use t' m' ys"
    "effect m1 m' f2" by auto
  with m1(1) effect_trans [OF m1(3)] rs h show ?case by auto
qed

text \<open>A whole history of calls at the readings of a clock that does not run backwards
  behaves as the specified registry: every call returns its specified status and the
  callbacks made are the specified ones, in order.\<close>

theorem mgr_history_refines:
  assumes "in_use t m xs" and "clock_runs t hs" and "length xs + length hs < 2 ^ 64"
    and "fresh_allocator construct" and "never_exhausted construct"
    and "spec_history (limit_of m) (timeout_of m) hs xs = (rs, ys, fired)"
  shows "\<exists>m' t'. run_history construct hs m = Some (rs, m') \<and> in_use t' m' ys \<and> effect m m' fired"
  using assms by (rule mgr_history_in_use)

lemma spec_history_limit:
  assumes "length xs \<le> k" and "k \<noteq> 0"
  shows "length (fst (snd (spec_history (Some k) tmo hs xs))) \<le> k"
  using assms
proof (induction hs arbitrary: xs)
  case (Cons h hs)
  obtain now c where h: "h = (now, c)" by (cases h)
  show ?case
    using Cons.IH [OF spec_limit [OF Cons.prems, of tmo now c] Cons.prems(2)] h
    by (auto simp: Let_def case_prod_beta)
qed simp

text \<open>C21: The limit holds: with a non-zero maximum set and not exceeded at the start, no
  history of calls makes the manager hold more elements than the maximum.\<close>

theorem max_limit_respected:
  assumes "in_use t m xs" and "clock_runs t hs" and "length xs + length hs < 2 ^ 64"
    and "fresh_allocator construct" and "never_exhausted construct"
    and "m_max_limit_flag m" and "length xs \<le> unat (m_max_limit m)"
  shows "\<exists>rs m' t' ys. run_history construct hs m = Some (rs, m') \<and> in_use t' m' ys
           \<and> length ys \<le> unat (m_max_limit m)"
proof -
  obtain rs ys fired where s: "spec_history (limit_of m) (timeout_of m) hs xs = (rs, ys, fired)"
    by (cases "spec_history (limit_of m) (timeout_of m) hs xs")
  have k: "limit_of m = Some (unat (m_max_limit m))" using assms(6) by (simp add: limit_of_def)
  moreover have "unat (m_max_limit m) \<noteq> 0" using assms(1) k by (auto simp: in_use_def)
  ultimately have "length ys \<le> unat (m_max_limit m)"
    using spec_history_limit [OF assms(7), of "timeout_of m" hs] s by simp
  with mgr_history_in_use [OF assms(1-5) s] show ?thesis by blast
qed

text \<open>C20: Expiry is exact: after a pass of \<open>handle_timeout\<close> with the timeout enabled no
  element is left whose time is up, every element whose time is not up is left, and each
  expired one has had its callback exactly once, the longest silent first.\<close>

theorem handle_timeout_exact:
  assumes "in_use t m xs" and "t \<le> now" and "clock_ok now" and "m_timeout_flag m"
    and "m_callback_function m = Some f"
  shows "\<exists>m'. mgr_handle_timeout now m = Some (0, m')
           \<and> in_use now m' (filter (\<lambda>x. \<not> due now (m_timeout m) x) xs)
           \<and> m_invoked m' = m_invoked m
               @ rev (map (\<lambda>x. (f, ed_element x)) (filter (due now (m_timeout m)) xs))"
proof -
  from assms(1) obtain ps where wf: "mgr_wf m ps" and cnt: "counted m ps" and v: "view m ps = xs"
    and td: "timed t xs" and lim: "limit_of m \<noteq> Some 0" by (auto simp: in_use_def)
  let ?xs = "filter (\<lambda>x. \<not> due now (m_timeout m) x) xs"
  let ?fired = "rev (map ed_element (filter (due now (m_timeout m)) xs))"
  have "spec_mgr_call None (timeout_of m) now Handle_timeout (view m ps) = (0, ?xs, ?fired)"
    using assms(4) v by (simp add: timeout_of_def)
  from timeout_refines [OF wf cnt _ assms(3) this] timed_mono [OF td assms(2)] v
  obtain m' ps' where m': "mgr_handle_timeout now m = Some (0, m')" "mgr_wf m' ps'" "counted m' ps'"
    "view m' ps' = ?xs" "effect m m' ?fired" by auto
  moreover have "in_use now m' ?xs"
    using m' effect_limit [OF m'(5)] lim timed_sub [OF timed_mono [OF td assms(2)]]
    by (auto simp: in_use_def)
  ultimately show ?thesis
    using assms(5) by (simp add: effect_def callbacks_def rev_map)
qed

text \<open>\<open>get_all_element_and_clear\<close> appends every element to the caller's vector, the
  latest beat first, and empties the manager without making a callback.\<close>

theorem get_all_collects:
  assumes "mgr_wf m ps"
  shows "\<exists>m'. mgr_get_all_element_and_clear vt m = Some (0, vt @ map ed_element (view m ps), m')
           \<and> mgr_wf m' [] \<and> m_invoked m' = m_invoked m"
  using mgr_wf_cleared [of m] collect_loop_drained [OF mgr_wf_drainable [OF assms], of vt]
  by (simp add: mgr_get_all_element_and_clear_def view_def drained_def)

text \<open>\<open>trigger_all_timeout\<close> makes the callback of every element exactly once, the latest
  beat first, and empties the manager.\<close>

theorem trigger_all_fires:
  assumes "mgr_wf m ps" and "m_callback_function m = Some f"
  shows "\<exists>m'. mgr_trigger_all_timeout m = Some m' \<and> mgr_wf m' []
           \<and> m_invoked m' = m_invoked m @ map (\<lambda>x. (f, ed_element x)) (view m ps)"
  using mgr_wf_cleared [of "m\<lparr>m_invoked := m_invoked m @ callbacks m (map ed_element (view m ps))\<rparr>"]
    trigger_loop_drained [OF mgr_wf_drainable [OF assms(1)]] assms(2)
  by (simp add: mgr_trigger_all_timeout_def view_def drained_def callbacks_def comp_def)

text \<open>\<open>clear_element\<close> empties the manager but keeps its element count. A manager that
  was full when it was cleared therefore takes the branch of a full manager at the next new
  element, pops an empty list and dereferences the null pointer it gets.\<close>

theorem add_after_clear_crashes:
  assumes "mgr_wf m ps" and "m_max_limit_flag m" and "m_element_count m + 1 > m_max_limit m"
  shows "\<exists>m'. mgr_clear_element m = Some (0, m') \<and> mgr_wf m' []
           \<and> m_element_count m' = m_element_count m
           \<and> (\<forall>construct now e. mgr_add_element construct now e m' = None)"
proof -
  let ?m = "(drained m)\<lparr>m_elements := Map.empty\<rparr>"
  have "mgr_add_element construct now e ?m = None" for construct now e
    using assms(2,3) busy_pop_empty(2) [OF mgr_wf_cleared [of m]]
    by (simp add: mgr_add_element_def evict_oldest_def) (simp add: drained_def)
  then show ?thesis
    using clear_element_wf [OF assms(1)] mgr_wf_cleared [of m]
    by (intro exI [of _ ?m]) (simp add: drained_def)
qed

text \<open>A full manager whose pool is exhausted loses its oldest element for nothing: the
  call makes that element's callback and drops it, and then fails.\<close>

theorem failed_add_evicts:
  assumes "mgr_wf m (ps @ [q])" and "m_elements m e = None" and "m_max_limit_flag m"
    and "m_element_count m + 1 > m_max_limit m" and "\<forall>h. construct h = None"
  shows "\<exists>m'. mgr_add_element construct now e m = Some (-1, m') \<and> mgr_wf m' ps
           \<and> view m' ps = butlast (view m (ps @ [q]))
           \<and> effect m m' [ed_element (last (view m (ps @ [q])))]"
  using evict_oldest_wf [OF assms(1)] assms(2-5) by (auto simp: mgr_add_element_def)

section \<open>Instances\<close>

text \<open>An allocator that takes the lowest free address: fresh, and never exhausted.\<close>

partial_function (option) free_from :: "ptr \<Rightarrow> (ptr \<rightharpoonup> 'n) \<Rightarrow> ptr option" where [code]:
  "free_from p h = (if h p = None then Some p else free_from (Suc p) h)"

definition lowest_free :: "'e allocator" where
  "lowest_free h = free_from 0 h"

lemma free_from_free: "free_from p h = Some q \<Longrightarrow> h q = None"
  by (rule free_from.raw_induct [where P = "\<lambda>p h q. h q = None"]) (auto split: if_splits)

lemma free_from_returns: "\<forall>q \<ge> p + k. h q = None \<Longrightarrow> \<exists>q. free_from p h = Some q"
proof (induction k arbitrary: p)
  case 0
  then show ?case by (subst free_from.simps) simp
next
  case (Suc k)
  have "\<exists>q. free_from (Suc p) h = Some q" using Suc.prems by (intro Suc.IH) simp
  then show ?case by (subst free_from.simps) simp
qed

lemma lowest_free_fresh: "fresh_allocator lowest_free"
  by (auto simp: fresh_allocator_def lowest_free_def dest: free_from_free)

lemma lowest_free_total: "never_exhausted lowest_free"
  unfolding never_exhausted_def
proof (intro allI impI)
  fix h :: "'e element_data node_store"
  assume "finite (dom h)"
  then obtain k where "\<forall>q \<in> dom h. q < k" by (auto simp: finite_nat_set_iff_bounded)
  then have "\<forall>q \<ge> 0 + k. h q = None" by (metis add_0 domIff leD)
  from free_from_returns [OF this] show "lowest_free h \<noteq> None" by (auto simp: lowest_free_def)
qed

lemmas lowest_free_ok = lowest_free_fresh lowest_free_total

text \<open>A manager for at most two elements that expire after 25 seconds, empty and full.\<close>

definition small_mgr :: "(nat, unit) mgr" where
  "small_mgr = init_mgr\<lparr>m_callback_function := Some (), m_timeout_flag := True, m_timeout := 25,
     m_max_limit_flag := True, m_max_limit := 2\<rparr>"

definition full_mgr :: "(nat, unit) mgr" where
  "full_mgr = small_mgr\<lparr>m_elements := [7 \<mapsto> 0, 8 \<mapsto> 1],
     m_busy_list := \<lparr>m_header = Some 1, m_tail = Some 0\<rparr>, m_element_count := 2,
     m_node_pool := [0 \<mapsto> \<lparr>nd_front = Some 1, nd_next = None, nd_data = stamped 100 7\<rparr>,
                     1 \<mapsto> \<lparr>nd_front = None, nd_next = Some 0, nd_data = stamped 110 8\<rparr>]\<rparr>"

lemma small_mgr_config [simp]:
  "m_callback_function small_mgr = Some ()" "m_timeout_flag small_mgr" "m_timeout small_mgr = 25"
  "m_max_limit_flag small_mgr" "m_max_limit small_mgr = 2" "m_invoked small_mgr = []"
  "limit_of small_mgr = Some 2" "timeout_of small_mgr = Some 25"
  by (simp_all add: small_mgr_def init_mgr_def limit_of_def timeout_of_def)

lemma full_mgr_config [simp]:
  "m_callback_function full_mgr = Some ()" "m_timeout_flag full_mgr" "m_timeout full_mgr = 25"
  "m_max_limit_flag full_mgr" "m_max_limit full_mgr = 2" "m_invoked full_mgr = []"
  "m_element_count full_mgr = 2" "limit_of full_mgr = Some 2"
  by (simp_all add: full_mgr_def limit_of_def)

lemma small_mgr_in_use: "in_use 0 small_mgr []"
  by (auto simp: in_use_def timed_def small_mgr_def init_mgr_def mgr_wf_def hbl_def unlinked_but_def
      indexes_def counted_def view_def limit_of_def)

lemma full_mgr_wf: "mgr_wf full_mgr [1, 0]"
  by (auto simp: full_mgr_def mgr_wf_def hbl_def dll_def unlinked_but_def indexes_def contents_def
      stamped_def split: if_splits)

lemma full_mgr_view: "view full_mgr [1, 0] = [stamped 110 8, stamped 100 7]"
  by (simp add: full_mgr_def view_def contents_def)

lemma full_mgr_in_use: "in_use 110 full_mgr [stamped 110 8, stamped 100 7]"
  using full_mgr_wf full_mgr_view
  by (auto simp: in_use_def timed_def counted_def stamped_def)

theorem mgr_call_refines_witness:
  "\<exists>m'. run_mgr_call lowest_free 130 (Add 9) full_mgr = Some (0, m')
     \<and> in_use 130 m' [stamped 130 9, stamped 110 8] \<and> effect full_mgr m' [7]"
  by (rule mgr_call_refines [OF full_mgr_in_use])
    (simp_all add: clock_ok_def lowest_free_ok over_limit_def stamped_def)

theorem mgr_history_refines_witness:
  "\<exists>m' t'. run_history lowest_free
       [(100, Add 1), (110, Add 2), (120, Update 1), (121, Del 5), (121, Add 1), (140, Handle_timeout)]
       small_mgr = Some ([0, 0, 0, -1, -1, 0], m')
     \<and> in_use t' m' [stamped 120 1] \<and> effect small_mgr m' [2]"
  by (rule mgr_history_refines [OF small_mgr_in_use])
    (simp_all add: clock_ok_def lowest_free_ok over_limit_def stamped_def due_def)

theorem max_limit_respected_witness:
  "\<exists>rs m' t' ys. run_history lowest_free [(100, Add 1), (110, Add 2), (120, Add 3)] small_mgr
       = Some (rs, m') \<and> in_use t' m' ys \<and> length ys \<le> 2"
  using max_limit_respected [OF small_mgr_in_use,
      of "[(100, Add 1), (110, Add 2), (120, Add 3)]" lowest_free]
  by (simp add: clock_ok_def lowest_free_ok)

theorem handle_timeout_exact_witness:
  "\<exists>m'. mgr_handle_timeout 130 full_mgr = Some (0, m') \<and> in_use 130 m' [stamped 110 8]
     \<and> m_invoked m' = [((), 7)]"
  using handle_timeout_exact [OF full_mgr_in_use, of 130 "()"]
  by (simp add: clock_ok_def due_def stamped_def)

theorem get_all_collects_witness:
  "\<exists>m'. mgr_get_all_element_and_clear [3] full_mgr = Some (0, [3, 8, 7], m')
     \<and> mgr_wf m' [] \<and> m_invoked m' = []"
  using get_all_collects [OF full_mgr_wf, of "[3]"] unfolding full_mgr_view
  by (simp add: stamped_def)

theorem trigger_all_fires_witness:
  "\<exists>m'. mgr_trigger_all_timeout full_mgr = Some m' \<and> mgr_wf m' []
     \<and> m_invoked m' = [((), 8), ((), 7)]"
  using trigger_all_fires [OF full_mgr_wf, of "()"] unfolding full_mgr_view
  by (simp add: stamped_def)

theorem add_after_clear_crashes_witness:
  "\<exists>m'. mgr_clear_element full_mgr = Some (0, m') \<and> mgr_wf m' [] \<and> m_element_count m' = 2
     \<and> mgr_add_element lowest_free 130 9 m' = None"
  using add_after_clear_crashes [OF full_mgr_wf] by auto

theorem failed_add_evicts_witness:
  "\<exists>m'. mgr_add_element (\<lambda>h. None) 130 9 full_mgr = Some (-1, m') \<and> mgr_wf m' [1]
     \<and> view m' [1] = [stamped 110 8] \<and> effect full_mgr m' [7]"
  using failed_add_evicts [of full_mgr "[1]" 0 9 "\<lambda>h. None" 130] full_mgr_wf full_mgr_view
  by (auto simp: full_mgr_def stamped_def)

end
