(* ===== verification/HeartBeatService.thy ===== *)
theory HeartBeatService
  imports HeartBeatMgr
begin

text \<open>
  The heart beat service \<open>heart_beat_service_t\<close> of mylib/heart\_beat/heart\_beat\_service.h:
  an element manager that only its own thread touches, an io service with the queue of the tasks
  that other threads post, and a timer that asks for an expiry pass every \<open>HEART_BEAT_TICKS\<close>
  seconds.

  The state has the members of the class and, of asio, what the code relies on: the tasks posted
  and not yet run, in order; whether the io service has been stopped (nothing in the code resets
  it); whether its thread runs; and the timer's expiry time with the number of waits on it. The
  memory of the vectors that clients pass is \<open>s_vectors\<close>. An operation returns its status and
  the new state. A call that blocks is cut in two: the part before it blocks, and the part after it
  with the condition for which it waits.
\<close>

definition HEART_BEAT_TICKS :: int where
  "HEART_BEAT_TICKS = 10"

section \<open>State\<close>

datatype 'e svc_task =
    Task_add 'e
  | Task_update 'e
  | Task_del 'e
  | Task_get_all ptr
  | Task_trigger
  | Task_stop_service
  | Task_timeout bool

record ('e, 'cb) service =
  s_started :: bool
  s_tasks :: "'e svc_task list"
  s_io_stopped :: bool
  s_thread_runs :: bool
  s_expires_at :: int
  s_waits :: nat
  s_manager :: "('e, 'cb) mgr"
  s_get_element_flag :: bool
  s_vectors :: "ptr \<Rightarrow> 'e list"

definition init_service :: "(ptr \<Rightarrow> 'e list) \<Rightarrow> bool \<Rightarrow> ('e, 'cb) service" where
  "init_service vectors garbage = \<lparr>s_started = False, s_tasks = [], s_io_stopped = False, s_thread_runs = False,
     s_expires_at = 0, s_waits = 0, s_manager = init_mgr, s_get_element_flag = garbage,
     s_vectors = vectors\<rparr>"

definition post :: "'e svc_task \<Rightarrow> ('e, 'cb) service \<Rightarrow> ('e, 'cb) service" where
  "post t s = s\<lparr>s_tasks := s_tasks s @ [t]\<rparr>"

section \<open>Configuration\<close>

definition svc_set_callback_function :: "'cb option \<Rightarrow> ('e, 'cb) service \<Rightarrow> int \<times> ('e, 'cb) service" where
  "svc_set_callback_function f s =
     (if s_started s then (-1, s)
      else let (r, m) = mgr_set_callback_function f (s_manager s)
           in (if r \<noteq> 0 then -1 else 0, s\<lparr>s_manager := m\<rparr>))"

definition svc_set_timeout :: "bool \<Rightarrow> 32 word \<Rightarrow> ('e, 'cb) service \<Rightarrow> int \<times> ('e, 'cb) service" where
  "svc_set_timeout flag t s =
     (if s_started s then (-1, s)
      else let (r, m) = mgr_set_timeout flag t (s_manager s)
           in (if r \<noteq> 0 then -1 else 0, s\<lparr>s_manager := m\<rparr>))"

definition svc_set_max_limit :: "bool \<Rightarrow> 64 word \<Rightarrow> ('e, 'cb) service \<Rightarrow> int \<times> ('e, 'cb) service" where
  "svc_set_max_limit flag n s =
     (if s_started s then (-1, s)
      else let (r, m) = mgr_set_max_limit flag n (s_manager s)
           in (if r \<noteq> 0 then -1 else 0, s\<lparr>s_manager := m\<rparr>))"

section \<open>Starting and stopping\<close>

text \<open>Setting the expiry time cancels the waits on the timer: their handlers are posted with an
  error.\<close>

definition set_expiry :: "int \<Rightarrow> ('e, 'cb) service \<Rightarrow> ('e, 'cb) service" where
  "set_expiry t s = s\<lparr>s_tasks := s_tasks s @ replicate (s_waits s) (Task_timeout True),
     s_waits := 0, s_expires_at := t\<rparr>"

definition async_wait :: "('e, 'cb) service \<Rightarrow> ('e, 'cb) service" where
  "async_wait s = s\<lparr>s_waits := Suc (s_waits s)\<rparr>"

text \<open>The new thread calls \<open>run\<close>, which returns at once when the io service is stopped.\<close>

definition svc_start :: "int \<Rightarrow> ('e, 'cb) service \<Rightarrow> int \<times> ('e, 'cb) service" where
  "svc_start now s =
     (if s_started s then (0, s)
      else let s = async_wait (set_expiry (now + HEART_BEAT_TICKS) s);
               s = s\<lparr>s_thread_runs := \<not> s_io_stopped s\<rparr>
           in (0, s\<lparr>s_started := True\<rparr>))"

text \<open>\<open>stop\<close> up to the join, and after it.\<close>

definition svc_stop_begin :: "('e, 'cb) service \<Rightarrow> ('e, 'cb) service" where
  "svc_stop_begin s = (if \<not> s_started s then s else post Task_stop_service s)"

definition svc_stop_end :: "('e, 'cb) service \<Rightarrow> ('e, 'cb) service option" where
  "svc_stop_end s = (if \<not> s_started s then Some s
     else if s_thread_runs s then None else Some (s\<lparr>s_started := False\<rparr>))"

definition svc_stop_service :: "('e, 'cb) service \<Rightarrow> ('e, 'cb) service option" where
  "svc_stop_service s = do {
     (_, m) \<leftarrow> mgr_clear_element (s_manager s);
     Some (s\<lparr>s_manager := m, s_io_stopped := True\<rparr>)
   }"

section \<open>Operations for other threads\<close>

definition async_add_element :: "'e \<Rightarrow> ('e, 'cb) service \<Rightarrow> ('e, 'cb) service" where
  "async_add_element e s = post (Task_add e) s"

definition async_update_element :: "'e \<Rightarrow> ('e, 'cb) service \<Rightarrow> ('e, 'cb) service" where
  "async_update_element e s = post (Task_update e) s"

definition async_del_element :: "'e \<Rightarrow> ('e, 'cb) service \<Rightarrow> ('e, 'cb) service" where
  "async_del_element e s = post (Task_del e) s"

text \<open>\<open>get_all_element_and_clear\<close> up to the loop that waits for the flag, and after it.\<close>

definition svc_get_all_begin :: "ptr \<Rightarrow> ('e, 'cb) service \<Rightarrow> ('e, 'cb) service" where
  "svc_get_all_begin vt s = post (Task_get_all vt) (s\<lparr>s_get_element_flag := False\<rparr>)"

definition svc_get_all_end :: "('e, 'cb) service \<Rightarrow> ('e, 'cb) service option" where
  "svc_get_all_end s = (if s_get_element_flag s then Some s else None)"

definition svc_trigger_all_timeout :: "('e, 'cb) service \<Rightarrow> ('e, 'cb) service" where
  "svc_trigger_all_timeout s = post Task_trigger s"

section \<open>The tasks of the service thread\<close>

definition via_manager :: "(('e, 'cb) mgr \<Rightarrow> (int \<times> ('e, 'cb) mgr) option) \<Rightarrow> ('e, 'cb) service
    \<Rightarrow> (int \<times> ('e, 'cb) service) option" where
  "via_manager f s = do {
     (r, m) \<leftarrow> f (s_manager s);
     Some (if r \<noteq> 0 then -1 else 0, s\<lparr>s_manager := m\<rparr>)
   }"

definition svc_handle_timeout :: "int \<Rightarrow> bool \<Rightarrow> ('e, 'cb) service \<Rightarrow> (int \<times> ('e, 'cb) service) option" where
  "svc_handle_timeout now err s =
     via_manager (mgr_handle_timeout now) (async_wait (set_expiry (s_expires_at s + HEART_BEAT_TICKS) s))"

definition svc_get_all_i :: "ptr \<Rightarrow> ('e, 'cb) service \<Rightarrow> (int \<times> ('e, 'cb) service) option" where
  "svc_get_all_i vt s = do {
     (_, xs, m) \<leftarrow> mgr_get_all_element_and_clear (s_vectors s vt) (s_manager s);
     Some (0, s\<lparr>s_manager := m, s_vectors := (s_vectors s)(vt := xs), s_get_element_flag := True\<rparr>)
   }"

definition svc_trigger_i :: "('e, 'cb) service \<Rightarrow> ('e, 'cb) service option" where
  "svc_trigger_i s = do { m \<leftarrow> mgr_trigger_all_timeout (s_manager s); Some (s\<lparr>s_manager := m\<rparr>) }"

fun run_task :: "'e allocator \<Rightarrow> int \<Rightarrow> 'e svc_task \<Rightarrow> ('e, 'cb) service \<Rightarrow> ('e, 'cb) service option" where
  "run_task construct now (Task_add e) s = map_option snd (via_manager (mgr_add_element construct now e) s)"
| "run_task construct now (Task_update e) s = map_option snd (via_manager (mgr_update_element now e) s)"
| "run_task construct now (Task_del e) s = map_option snd (via_manager (mgr_del_element e) s)"
| "run_task construct now (Task_get_all vt) s = map_option snd (svc_get_all_i vt s)"
| "run_task construct now Task_trigger s = svc_trigger_i s"
| "run_task construct now Task_stop_service s = svc_stop_service s"
| "run_task construct now (Task_timeout err) s = map_option snd (svc_handle_timeout now err s)"

text \<open>One turn of the thread: the oldest task, and the end of the thread when the io service has
  been stopped.\<close>

definition thread_turn :: "'e allocator \<Rightarrow> int \<Rightarrow> ('e, 'cb) service \<Rightarrow> ('e, 'cb) service option" where
  "thread_turn construct now s =
     (if \<not> s_thread_runs s then None
      else case s_tasks s of [] \<Rightarrow> None
      | t # ts \<Rightarrow> do {
          s \<leftarrow> run_task construct now t (s\<lparr>s_tasks := ts\<rparr>);
          Some (s\<lparr>s_thread_runs := \<not> s_io_stopped s\<rparr>)
        })"

text \<open>A wait on the timer ends: its handler is posted.\<close>

definition timer_turn :: "int \<Rightarrow> ('e, 'cb) service \<Rightarrow> ('e, 'cb) service option" where
  "timer_turn now s =
     (if s_waits s = 0 \<or> now < s_expires_at s then None
      else Some (post (Task_timeout False) (s\<lparr>s_waits := s_waits s - 1\<rparr>)))"

section \<open>Runs of the service\<close>

datatype ('e, 'cb) svc_event =
    Set_callback_function "'cb option"
  | Set_timeout bool "32 word"
  | Set_max_limit bool "64 word"
  | Start
  | Stop_begin
  | Stop_end
  | Async_add 'e
  | Async_update 'e
  | Async_del 'e
  | Get_all_begin ptr
  | Get_all_end
  | Trigger_all
  | Thread_turn
  | Timer_turn

fun svc_do :: "'e allocator \<Rightarrow> int \<Rightarrow> ('e, 'cb) svc_event \<Rightarrow> ('e, 'cb) service
    \<Rightarrow> ('e, 'cb) service option" where
  "svc_do construct now (Set_callback_function f) s = Some (snd (svc_set_callback_function f s))"
| "svc_do construct now (Set_timeout flag t) s = Some (snd (svc_set_timeout flag t s))"
| "svc_do construct now (Set_max_limit flag n) s = Some (snd (svc_set_max_limit flag n s))"
| "svc_do construct now Start s = Some (snd (svc_start now s))"
| "svc_do construct now Stop_begin s = Some (svc_stop_begin s)"
| "svc_do construct now Stop_end s = svc_stop_end s"
| "svc_do construct now (Async_add e) s = Some (async_add_element e s)"
| "svc_do construct now (Async_update e) s = Some (async_update_element e s)"
| "svc_do construct now (Async_del e) s = Some (async_del_element e s)"
| "svc_do construct now (Get_all_begin vt) s = Some (svc_get_all_begin vt s)"
| "svc_do construct now Get_all_end s = svc_get_all_end s"
| "svc_do construct now Trigger_all s = Some (svc_trigger_all_timeout s)"
| "svc_do construct now Thread_turn s = thread_turn construct now s"
| "svc_do construct now Timer_turn s = timer_turn now s"

text \<open>Events with the clock reading at which each happens.\<close>

fun svc_run :: "'e allocator \<Rightarrow> (int \<times> ('e, 'cb) svc_event) list \<Rightarrow> ('e, 'cb) service
    \<Rightarrow> ('e, 'cb) service option" where
  "svc_run construct [] s = Some s"
| "svc_run construct ((now, ev) # evs) s = do { s \<leftarrow> svc_do construct now ev s; svc_run construct evs s }"

inductive svc_step :: "'e allocator \<Rightarrow> ('e, 'cb) service \<Rightarrow> ('e, 'cb) service \<Rightarrow> bool" for construct where
  svc_step: "svc_do construct now ev s = Some t \<Longrightarrow> svc_step construct s t"

inductive_cases svc_stepE: "svc_step construct s t"

section \<open>The control state\<close>

text \<open>Expiry passes under way: waits on the timer, and handlers posted.\<close>

fun is_timeout :: "'e svc_task \<Rightarrow> bool" where
  "is_timeout (Task_timeout err) \<longleftrightarrow> True"
| "is_timeout _ \<longleftrightarrow> False"

definition passes :: "('e, 'cb) service \<Rightarrow> nat" where
  "passes s = s_waits s + length (filter is_timeout (s_tasks s))"

text \<open>The thread runs exactly while the service is started and its io service not stopped; then
  there is exactly one expiry pass to come, and before the first start there is none.\<close>

definition svc_ok :: "('e, 'cb) service \<Rightarrow> bool" where
  "svc_ok s \<longleftrightarrow> (s_thread_runs s \<longleftrightarrow> s_started s \<and> \<not> s_io_stopped s)
     \<and> (s_thread_runs s \<longrightarrow> passes s = 1)
     \<and> (\<not> s_started s \<and> \<not> s_io_stopped s \<longrightarrow> passes s = 0)"

text \<open>The parts of the state that decide what the service does next.\<close>

definition control :: "('e, 'cb) service \<Rightarrow> bool \<times> bool \<times> bool \<times> nat \<times> 'e svc_task list \<times> int" where
  "control s = (s_started s, s_io_stopped s, s_thread_runs s, s_waits s, s_tasks s, s_expires_at s)"

lemma svc_ok_control: "control s = control t \<Longrightarrow> svc_ok s = svc_ok t"
  by (simp add: control_def svc_ok_def passes_def)

lemma control_updates [simp]:
  "control (s\<lparr>s_manager := m\<rparr>) = control s" "control (s\<lparr>s_get_element_flag := b\<rparr>) = control s"
  "control (s\<lparr>s_vectors := v\<rparr>) = control s"
  by (simp_all add: control_def)

lemma via_manager_control: "via_manager f s = Some (r, t) \<Longrightarrow> control t = control s"
  by (auto simp: via_manager_def bind_eq_Some_conv)

lemma task_control:
  assumes "run_task construct now t s = Some u"
  shows "control u = control (case t of Task_stop_service \<Rightarrow> s\<lparr>s_io_stopped := True\<rparr>
    | Task_timeout err \<Rightarrow> async_wait (set_expiry (s_expires_at s + HEART_BEAT_TICKS) s) | _ \<Rightarrow> s)"
  using assms
  by (cases t) (auto simp: svc_get_all_i_def svc_trigger_i_def svc_stop_service_def svc_handle_timeout_def
      bind_eq_Some_conv dest!: via_manager_control, simp add: control_def)

lemma thread_turn_ok:
  assumes "svc_ok s" and "thread_turn construct now s = Some u"
  shows "svc_ok u"
proof -
  obtain t ts v where t: "s_tasks s = t # ts" "s_thread_runs s"
    "run_task construct now t (s\<lparr>s_tasks := ts\<rparr>) = Some v" "u = v\<lparr>s_thread_runs := \<not> s_io_stopped v\<rparr>"
    using assms(2) by (auto simp: thread_turn_def bind_eq_Some_conv split: if_splits list.splits)
  from task_control [OF t(3)] assms(1) t(1,2,4) show ?thesis
    by (cases t) (auto simp: control_def svc_ok_def passes_def async_wait_def set_expiry_def)
qed

lemma set_config_control:
  "control (snd (svc_set_callback_function f s)) = control s"
  "control (snd (svc_set_timeout flag t s)) = control s"
  "control (snd (svc_set_max_limit flag n s)) = control s"
  by (simp_all add: svc_set_callback_function_def svc_set_timeout_def svc_set_max_limit_def split_beta)

lemmas post_ops = svc_stop_begin_def async_add_element_def async_update_element_def async_del_element_def
  svc_get_all_begin_def svc_trigger_all_timeout_def post_def

lemma post_ok [simp]: "svc_ok s \<Longrightarrow> \<not> is_timeout t \<Longrightarrow> svc_ok (post t s)"
  by (simp add: svc_ok_def passes_def post_def)

lemma svc_ok_flag [simp]: "svc_ok (s\<lparr>s_get_element_flag := b\<rparr>) = svc_ok s"
  by (rule svc_ok_control) simp

lemma svc_do_ok:
  assumes "svc_ok s" and "svc_do construct now ev s = Some u"
  shows "svc_ok u"
proof (cases ev)
  case Thread_turn
  with assms show ?thesis by (auto intro: thread_turn_ok)
next
  case Start
  show ?thesis
  proof (cases "s_started s")
    case True
    with Start assms show ?thesis by (simp add: svc_start_def)
  next
    case False
    with assms(1) have "\<not> s_io_stopped s \<Longrightarrow> s_waits s = 0 \<and> filter is_timeout (s_tasks s) = []"
      by (simp add: svc_ok_def passes_def)
    moreover have "s_started u" "s_io_stopped u = s_io_stopped s" "s_thread_runs u = (\<not> s_io_stopped s)"
      "s_waits u = 1" "s_tasks u = s_tasks s @ replicate (s_waits s) (Task_timeout True)"
      using Start assms(2) False by (auto simp: svc_start_def async_wait_def set_expiry_def Let_def)
    ultimately show ?thesis by (cases "s_io_stopped s") (simp_all add: svc_ok_def passes_def)
  qed
next
  case (Set_callback_function f)
  with assms show ?thesis using svc_ok_control [OF set_config_control(1)] by auto
next
  case (Set_timeout flag t)
  with assms show ?thesis using svc_ok_control [OF set_config_control(2)] by auto
next
  case (Set_max_limit flag n)
  with assms show ?thesis using svc_ok_control [OF set_config_control(3)] by auto
next
  case Stop_end
  with assms show ?thesis
    by (auto simp: svc_stop_end_def svc_ok_def passes_def split: if_splits)
next
  case Timer_turn
  with assms(2) have u: "u = post (Task_timeout False) (s\<lparr>s_waits := s_waits s - 1\<rparr>)" "s_waits s \<noteq> 0"
    by (auto simp: timer_turn_def split: if_splits)
  then have "passes u = passes s" by (simp add: passes_def post_def)
  with u assms(1) show ?thesis by (simp add: svc_ok_def post_def)
qed (use assms in \<open>auto simp: svc_stop_begin_def async_add_element_def
  async_update_element_def async_del_element_def svc_get_all_begin_def svc_trigger_all_timeout_def
  svc_get_all_end_def split: if_splits\<close>)

interpretation sv: inductive_invariant "\<lambda>s. \<exists>vts g. s = init_service vts g" "svc_step construct" svc_ok
  for construct
proof
  show "svc_ok t" if "svc_step construct s t" "svc_ok s" for s t
    using that by (auto elim!: svc_stepE intro: svc_do_ok)
qed (auto simp: svc_ok_def passes_def init_service_def)

section \<open>The manager belongs to one thread at a time\<close>

text \<open>While the service thread runs, only its own turns touch the element manager: no call of a
  client or of the timer changes it, the setters are refused with -1. While it does not run,
  there is no turn of the thread. So the manager is never used by two threads at once.\<close>

theorem manager_confined:
  assumes "reach (\<lambda>s. \<exists>vts g. s = init_service vts g) (svc_step construct) s"
    and "svc_do construct now ev s = Some u"
  shows "(s_thread_runs s \<and> ev \<noteq> Thread_turn \<longrightarrow> s_manager u = s_manager s)
    \<and> (\<not> s_thread_runs s \<longrightarrow> ev \<noteq> Thread_turn)
    \<and> (s_thread_runs s \<longrightarrow> fst (svc_set_callback_function f s) = -1
         \<and> fst (svc_set_timeout flag t s) = -1 \<and> fst (svc_set_max_limit flag' n s) = -1)"
proof -
  have "s_thread_runs s \<Longrightarrow> s_started s" using sv.inv_reach [OF assms(1)] by (simp add: svc_ok_def)
  with assms(2) show ?thesis
    by (cases ev) (auto simp: svc_set_callback_function_def svc_set_timeout_def svc_set_max_limit_def
        svc_start_def post_ops svc_stop_end_def svc_get_all_end_def timer_turn_def thread_turn_def
        split: if_splits)
qed

section \<open>The service runs the history of its calls\<close>

text \<open>The manager call of a task, and of the task that an event posts.\<close>

fun task_call :: "'e svc_task \<Rightarrow> 'e mgr_call option" where
  "task_call (Task_add e) = Some (Add e)"
| "task_call (Task_update e) = Some (Update e)"
| "task_call (Task_del e) = Some (Del e)"
| "task_call (Task_timeout err) = Some Handle_timeout"
| "task_call _ = None"

definition plain_tasks :: "('e, 'cb) service \<Rightarrow> bool" where
  "plain_tasks s \<longleftrightarrow> (\<forall>t \<in> set (s_tasks s). task_call t \<noteq> None)"

definition queued_calls :: "('e, 'cb) service \<Rightarrow> 'e mgr_call list" where
  "queued_calls s = map (\<lambda>t. the (task_call t)) (s_tasks s)"

fun event_calls :: "('e, 'cb) svc_event \<Rightarrow> 'e mgr_call list" where
  "event_calls (Async_add e) = [Add e]"
| "event_calls (Async_update e) = [Update e]"
| "event_calls (Async_del e) = [Del e]"
| "event_calls Timer_turn = [Handle_timeout]"
| "event_calls _ = []"

fun plain_event :: "('e, 'cb) svc_event \<Rightarrow> bool" where
  "plain_event Stop_begin \<longleftrightarrow> False"
| "plain_event (Get_all_begin vt) \<longleftrightarrow> False"
| "plain_event Trigger_all \<longleftrightarrow> False"
| "plain_event _ \<longleftrightarrow> True"

definition turn_times :: "(int \<times> ('e, 'cb) svc_event) list \<Rightarrow> int list" where
  "turn_times evs = map fst (filter (\<lambda>(now, ev). ev = Thread_turn) evs)"

definition all_calls :: "(int \<times> ('e, 'cb) svc_event) list \<Rightarrow> ('e, 'cb) service \<Rightarrow> 'e mgr_call list" where
  "all_calls evs s = queued_calls s @ concat (map (\<lambda>(now, ev). event_calls ev) evs)"

lemma run_task_plain:
  assumes "run_task construct now t s = Some u" and "task_call t = Some c"
    and "is_timeout t \<Longrightarrow> s_waits s = 0"
  shows "\<exists>r. run_mgr_call construct now c (s_manager s) = Some (r, s_manager u)"
    "s_tasks u = s_tasks s" "s_io_stopped u = s_io_stopped s"
    "s_expires_at u = s_expires_at s + (if c = Handle_timeout then HEART_BEAT_TICKS else 0)"
  using assms
  by (cases t; auto simp: via_manager_def svc_handle_timeout_def set_expiry_def async_wait_def
      bind_eq_Some_conv)+

lemma plain_turn:
  assumes "svc_ok s" and "plain_tasks s" and "thread_turn construct now s = Some u"
  shows "\<exists>c r. queued_calls s = c # queued_calls u \<and> plain_tasks u \<and> s_thread_runs u
    \<and> run_mgr_call construct now c (s_manager s) = Some (r, s_manager u)
    \<and> s_expires_at u = s_expires_at s + (if c = Handle_timeout then HEART_BEAT_TICKS else 0)"
proof -
  obtain t ts v where t: "s_tasks s = t # ts" "s_thread_runs s"
    "run_task construct now t (s\<lparr>s_tasks := ts\<rparr>) = Some v" "u = v\<lparr>s_thread_runs := \<not> s_io_stopped v\<rparr>"
    using assms(3) by (auto simp: thread_turn_def bind_eq_Some_conv split: if_splits list.splits)
  obtain c where c: "task_call t = Some c" using assms(2) t(1) by (auto simp: plain_tasks_def)
  have "is_timeout t \<Longrightarrow> s_waits s = 0" using assms(1) t(1,2) by (simp add: svc_ok_def passes_def)
  with run_task_plain [OF t(3) c] have v: "\<exists>r. run_mgr_call construct now c (s_manager s) = Some (r, s_manager v)"
    "s_tasks v = ts" "s_io_stopped v = s_io_stopped s"
    "s_expires_at v = s_expires_at s + (if c = Handle_timeout then HEART_BEAT_TICKS else 0)" by simp_all
  moreover have "\<not> s_io_stopped s" using assms(1) t(2) by (simp add: svc_ok_def)
  ultimately show ?thesis using t(1,4) c assms(2) by (auto simp: queued_calls_def plain_tasks_def)
qed

lemma plain_other:
  assumes "svc_ok s" and "s_thread_runs s" and "plain_tasks s" and "plain_event ev" and "ev \<noteq> Thread_turn"
    and "svc_do construct now ev s = Some u"
  shows "queued_calls u = queued_calls s @ event_calls ev \<and> plain_tasks u \<and> s_thread_runs u
    \<and> s_manager u = s_manager s \<and> s_expires_at u = s_expires_at s"
proof -
  have "s_started s" using assms(1,2) by (simp add: svc_ok_def)
  with assms(2-6) show ?thesis
    by (cases ev) (auto simp: svc_set_callback_function_def svc_set_timeout_def svc_set_max_limit_def
        svc_start_def post_ops svc_stop_end_def svc_get_all_end_def timer_turn_def queued_calls_def
        plain_tasks_def split: if_splits)
qed

lemma svc_run_history:
  assumes "svc_ok s" and "s_thread_runs s" and "plain_tasks s"
    and "\<forall>(now, ev) \<in> set evs. plain_event ev" and "svc_run construct evs s = Some u"
  shows "\<exists>rs. run_history construct (zip (turn_times evs) (all_calls evs s)) (s_manager s) = Some (rs, s_manager u)
    \<and> queued_calls u = drop (length (turn_times evs)) (all_calls evs s)
    \<and> length (turn_times evs) \<le> length (all_calls evs s)
    \<and> s_expires_at u = s_expires_at s + HEART_BEAT_TICKS
        * int (length (filter (\<lambda>c. c = Handle_timeout) (take (length (turn_times evs)) (all_calls evs s))))
    \<and> s_thread_runs u \<and> plain_tasks u \<and> svc_ok u"
  using assms
proof (induction evs arbitrary: s)
  case Nil
  then show ?case by (simp add: turn_times_def all_calls_def)
next
  case (Cons e evs)
  obtain now ev where e: "e = (now, ev)" by (cases e)
  obtain v where v: "svc_do construct now ev s = Some v" "svc_run construct evs v = Some u"
    using Cons.prems(5) e by (auto simp: bind_eq_Some_conv)
  note ok = svc_do_ok [OF Cons.prems(1) v(1)]
  show ?case
  proof (cases "ev = Thread_turn")
    case True
    with v(1) have "thread_turn construct now s = Some v" by simp
    from plain_turn [OF Cons.prems(1,3) this] obtain c r where
      c: "queued_calls s = c # queued_calls v" "plain_tasks v" "s_thread_runs v"
        "run_mgr_call construct now c (s_manager s) = Some (r, s_manager v)"
        "s_expires_at v = s_expires_at s + (if c = Handle_timeout then HEART_BEAT_TICKS else 0)" by blast
    have "turn_times (e # evs) = now # turn_times evs" "all_calls (e # evs) s = c # all_calls evs v"
      using True e c(1) by (simp_all add: turn_times_def all_calls_def)
    with Cons.IH [OF ok c(3,2) _ v(2)] Cons.prems(4) c(4,5) show ?thesis
      by (auto simp: algebra_simps)
  next
    case False
    from plain_other [OF Cons.prems(1-3) _ False v(1)] Cons.prems(4) e
    have o: "queued_calls v = queued_calls s @ event_calls ev" "plain_tasks v" "s_thread_runs v"
      "s_manager v = s_manager s" "s_expires_at v = s_expires_at s" by auto
    have "turn_times (e # evs) = turn_times evs" "all_calls (e # evs) s = all_calls evs v"
      using False e o(1) by (simp_all add: turn_times_def all_calls_def)
    with Cons.IH [OF ok o(3,2) _ v(2)] Cons.prems(4) o(4,5) show ?thesis by auto
  qed
qed

text \<open>In every state the service can reach, its thread runs exactly while the service is
  started and its io service not stopped, and then exactly one expiry pass is to come: one wait
  on the timer, or one posted handler, whether waits end well or with an error.\<close>

theorem service_control:
  assumes "reach (\<lambda>s. \<exists>vts g. s = init_service vts g) (svc_step construct) s"
  shows "(s_thread_runs s \<longleftrightarrow> s_started s \<and> \<not> s_io_stopped s) \<and> 
    (s_thread_runs s \<longrightarrow> s_waits s + length (filter is_timeout (s_tasks s)) = 1)"
  using sv.inv_reach [OF assms] by (simp add: svc_ok_def passes_def)


text \<open>Expiry passes are scheduled at a fixed rate: each handler that runs moves the expiry time of the
  timer by exactly \<open>HEART_BEAT_TICKS\<close> seconds from its previous value, however late it runs and
  whatever else is run.\<close>

theorem expiry_fixed_rate:
  assumes "reach (\<lambda>s. \<exists>vts g. s = init_service vts g) (svc_step construct) s"
    and "s_thread_runs s" and "plain_tasks s" and "\<forall>(now, ev) \<in> set evs. plain_event ev"
    and "svc_run construct evs s = Some u"
  shows "s_expires_at u = s_expires_at s + HEART_BEAT_TICKS
    * int (length (filter (\<lambda>c. c = Handle_timeout) (take (length (turn_times evs)) (all_calls evs s))))"
  using svc_run_history [OF sv.inv_reach [OF assms(1)] assms(2-5)] by blast

section \<open>Calls that wait for the thread\<close>

lemma run_task_returns:
  assumes "task_call t = Some c" and "run_mgr_call construct now c (s_manager s) = Some (r, m)"
  shows "\<exists>u. run_task construct now t s = Some u \<and> s_vectors u = s_vectors s"
  using assms
  by (cases t) (auto simp: via_manager_def svc_handle_timeout_def set_expiry_def async_wait_def)

lemma head_turn:
  assumes "svc_ok s" and "s_thread_runs s" and "s_tasks s = t # ts" and "task_call t = Some c"
    and "in_use t0 (s_manager s) xs" and "t0 \<le> now" and "clock_ok now" and "length xs + 1 < 2 ^ 64"
    and "fresh_allocator construct" and "never_exhausted construct"
    and "spec_mgr_call (limit_of (s_manager s)) (timeout_of (s_manager s)) now c xs = (r, ys, fired)"
  shows "\<exists>u. thread_turn construct now s = Some u \<and> svc_ok u \<and> s_thread_runs u \<and> s_tasks u = ts
    \<and> in_use now (s_manager u) ys \<and> effect (s_manager s) (s_manager u) fired \<and> s_vectors u = s_vectors s"
proof -
  let ?s = "s\<lparr>s_tasks := ts\<rparr>"
  obtain m where m: "run_mgr_call construct now c (s_manager s) = Some (r, m)" "in_use now m ys"
    "effect (s_manager s) m fired" using mgr_call_in_use [OF assms(5-11)] by blast
  obtain v where v: "run_task construct now t ?s = Some v" "s_vectors v = s_vectors s"
    using run_task_returns [OF assms(4), of construct now ?s r m] m(1) by auto
  have "is_timeout t \<Longrightarrow> s_waits ?s = 0" using assms(1-3) by (simp add: svc_ok_def passes_def)
  note run = run_task_plain [OF v(1) assms(4) this]
  have live: "\<not> s_io_stopped s" using assms(1,2) by (simp add: svc_ok_def)
  let ?u = "v\<lparr>s_thread_runs := \<not> s_io_stopped v\<rparr>"
  have turn: "thread_turn construct now s = Some ?u" using assms(2,3) v(1) by (simp add: thread_turn_def)
  from thread_turn_ok [OF assms(1) turn] turn run m v(2) live show ?thesis by simp
qed

definition turns :: "nat \<Rightarrow> int \<Rightarrow> (int \<times> ('e, 'cb) svc_event) list" where
  "turns n now = replicate n (now, Thread_turn)"

definition at_once :: "int \<Rightarrow> 'e svc_task list \<Rightarrow> (int \<times> 'e mgr_call) list" where
  "at_once now ts = map (\<lambda>t. (now, the (task_call t))) ts"

lemma plain_turns:
  assumes "svc_ok s" and "s_thread_runs s" and "s_tasks s = ts @ rest" and "\<forall>t \<in> set ts. task_call t \<noteq> None"
    and "in_use t0 (s_manager s) xs" and "t0 \<le> now" and "clock_ok now" and "length xs + length ts < 2 ^ 64"
    and "fresh_allocator construct" and "never_exhausted construct"
    and "spec_history (limit_of (s_manager s)) (timeout_of (s_manager s)) (at_once now ts) xs = (rs, ys, fired)"
  shows "\<exists>u. svc_run construct (turns (length ts) now) s = Some u \<and> svc_ok u \<and> s_thread_runs u
    \<and> s_tasks u = rest \<and> (\<exists>t'. in_use t' (s_manager u) ys) \<and> effect (s_manager s) (s_manager u) fired
    \<and> s_vectors u = s_vectors s"
  using assms
proof (induction ts arbitrary: s t0 xs rs fired)
  case Nil
  then show ?case by (auto simp: turns_def at_once_def)
next
  case (Cons t ts)
  obtain c where c: "task_call t = Some c" using Cons.prems(4) by auto
  let ?lim = "limit_of (s_manager s)" and ?tmo = "timeout_of (s_manager s)"
  obtain r zs f1 where s1: "spec_mgr_call ?lim ?tmo now c xs = (r, zs, f1)"
    by (cases "spec_mgr_call ?lim ?tmo now c xs")
  obtain rs' f2 where s2: "spec_history ?lim ?tmo (at_once now ts) zs = (rs', ys, f2)" "fired = f1 @ f2"
    using Cons.prems(11) s1 c by (auto simp: at_once_def split: prod.splits)
  obtain v where v: "thread_turn construct now s = Some v" "svc_ok v" "s_thread_runs v"
    "s_tasks v = ts @ rest" "in_use now (s_manager v) zs" "effect (s_manager s) (s_manager v) f1"
    "s_vectors v = s_vectors s"
    using head_turn [OF Cons.prems(1,2) _ c Cons.prems(5,6,7) _ Cons.prems(9,10) s1] Cons.prems(3,8)
    by auto
  have "length zs + length ts < 2 ^ 64"
    using spec_length [of ?lim ?tmo now c xs] s1 Cons.prems(8) by simp
  moreover have "\<forall>t \<in> set ts. task_call t \<noteq> None" using Cons.prems(4) by simp
  ultimately obtain u where "svc_run construct (turns (length ts) now) v = Some u" "svc_ok u"
    "s_thread_runs u" "s_tasks u = rest" "\<exists>t'. in_use t' (s_manager u) ys"
    "effect (s_manager v) (s_manager u) f2" "s_vectors u = s_vectors v"
    using Cons.IH [OF v(2,3,4) _ v(5) order_refl Cons.prems(7) _ Cons.prems(9,10)] s2(1)
      effect_limit [OF v(6)] by auto
  with v(1,6,7) effect_trans [OF v(6)] s2(2) show ?case by (auto simp: turns_def)
qed

lemma svc_run_append:
  "svc_run construct (xs @ ys) s = Option.bind (svc_run construct xs s) (svc_run construct ys)"
  by (induction construct xs s rule: svc_run.induct) (auto split: Option.bind_splits)

lemma turns_Suc: "turns (Suc n) now = turns n now @ [(now, Thread_turn)]"
  by (simp add: turns_def replicate_append_same)

text \<open>On a running service \<open>get_all_element_and_clear\<close> returns: once the thread has run
  the tasks queued before it and the one it posted, the flag it waits for is set, the caller's vector
  has got all elements that the queued calls have left, and the manager is empty.\<close>

theorem get_all_returns:
  assumes "reach (\<lambda>s. \<exists>vts g. s = init_service vts g) (svc_step construct) s"
    and "s_thread_runs s" and "plain_tasks s"
    and "in_use t (s_manager s) xs" and "t \<le> now" and "clock_ok now" and "length xs + length (s_tasks s) < 2 ^ 64"
    and "fresh_allocator construct" and "never_exhausted construct"
    and "spec_history (limit_of (s_manager s)) (timeout_of (s_manager s)) (at_once now (s_tasks s)) xs
      = (rs, ys, fired)"
  shows "\<exists>u. svc_run construct ((now, Get_all_begin vt) # turns (Suc (length (s_tasks s))) now) s = Some u
    \<and> svc_get_all_end u = Some u \<and> s_vectors u vt = s_vectors s vt @ map ed_element ys
    \<and> mgr_wf (s_manager u) [] \<and> s_thread_runs u"
proof -
  have ok: "svc_ok s" by (rule sv.inv_reach [OF assms(1)])
  let ?s = "svc_get_all_begin vt s"
  have s': "svc_ok ?s" "s_thread_runs ?s" "s_tasks ?s = s_tasks s @ [Task_get_all vt]"
    "s_manager ?s = s_manager s" "s_vectors ?s = s_vectors s"
    using ok assms(2) by (simp add: svc_get_all_begin_def) (use assms(2) in \<open>simp_all add: svc_get_all_begin_def post_def\<close>)
  obtain v t' where v: "svc_run construct (turns (length (s_tasks s)) now) ?s = Some v" "svc_ok v"
    "s_thread_runs v" "s_tasks v = [Task_get_all vt]" "in_use t' (s_manager v) ys" "s_vectors v = s_vectors s"
    using plain_turns [OF s'(1-3) _ _ assms(5,6,7,8,9)] assms(3,4,10) s'(4,5) by (auto simp: plain_tasks_def)
  from v(5) obtain ps where ps: "mgr_wf (s_manager v) ps" "view (s_manager v) ps = ys"
    by (auto simp: in_use_def)
  have live: "\<not> s_io_stopped v" using v(2,3) by (simp add: svc_ok_def)
  let ?m = "(drained (s_manager v))\<lparr>m_elements := Map.empty\<rparr>"
  have "mgr_get_all_element_and_clear (s_vectors s vt) (s_manager v)
      = Some (0, s_vectors s vt @ map ed_element ys, ?m)"
    using collect_loop_drained [OF mgr_wf_drainable [OF ps(1)], of "s_vectors s vt"] ps(2)
    by (simp add: mgr_get_all_element_and_clear_def view_def)
  then have "thread_turn construct now v = Some (v\<lparr>s_tasks := [], s_manager := ?m,
      s_vectors := (s_vectors s)(vt := s_vectors s vt @ map ed_element ys), s_get_element_flag := True\<rparr>)"
    using v(3,4,6) live by (simp add: thread_turn_def svc_get_all_i_def)
  with v(1,3) show ?thesis
    by (auto simp: turns_Suc svc_run_append svc_get_all_end_def mgr_wf_cleared)
qed


section \<open>After a stop\<close>

lemma stopped_step:
  assumes "svc_do construct now ev s = Some u" and "\<not> s_thread_runs s" and "s_io_stopped s \<or> ev \<noteq> Start"
  shows "\<not> s_thread_runs u \<and> s_io_stopped u = s_io_stopped s
    \<and> m_elements (s_manager u) = m_elements (s_manager s) \<and> m_invoked (s_manager u) = m_invoked (s_manager s)
    \<and> s_vectors u = s_vectors s \<and> (s_get_element_flag u \<longrightarrow> s_get_element_flag s)"
  using assms
  by (cases ev) (auto simp: svc_set_callback_function_def svc_set_timeout_def svc_set_max_limit_def
      mgr_set_callback_function_def mgr_set_timeout_def mgr_set_max_limit_def set_expiry_def async_wait_def
      svc_start_def post_ops svc_stop_end_def svc_get_all_end_def timer_turn_def thread_turn_def Let_def
      split: if_splits)

lemma stopped_run:
  assumes "svc_run construct evs s = Some u" and "\<not> s_thread_runs s"
    and "s_io_stopped s \<or> (\<forall>(now, ev) \<in> set evs. ev \<noteq> Start)"
  shows "\<not> s_thread_runs u \<and> m_elements (s_manager u) = m_elements (s_manager s)
    \<and> m_invoked (s_manager u) = m_invoked (s_manager s) \<and> s_vectors u = s_vectors s
    \<and> (s_get_element_flag u \<longrightarrow> s_get_element_flag s)"
  using assms
proof (induction evs arbitrary: s)
  case (Cons e evs)
  obtain now ev where e: "e = (now, ev)" by (cases e)
  obtain v where v: "svc_do construct now ev s = Some v" "svc_run construct evs v = Some u"
    using Cons.prems(1) e by (auto simp: bind_eq_Some_conv)
  have "s_io_stopped s \<or> ev \<noteq> Start" using Cons.prems(3) e by auto
  note st = stopped_step [OF v(1) Cons.prems(2) this]
  then have "s_io_stopped v \<or> (\<forall>(now, ev) \<in> set evs. ev \<noteq> Start)" using Cons.prems(3) by auto
  with Cons.IH [OF v(2)] st show ?case by auto
qed simp

text \<open>A service that has been stopped cannot be started again: \<open>start\<close> returns 0, but whatever is
  called afterwards, its thread never runs, no element is ever added or removed, no callback is made
  and no vector filled.\<close>

theorem restart_is_dead:
  assumes "reach (\<lambda>s. \<exists>vts g. s = init_service vts g) (svc_step construct) s" and "s_io_stopped s"
    and "svc_run construct evs (snd (svc_start now s)) = Some u"
  shows "fst (svc_start now s) = 0 \<and> \<not> s_thread_runs u
    \<and> m_elements (s_manager u) = m_elements (s_manager s)
    \<and> m_invoked (s_manager u) = m_invoked (s_manager s) \<and> s_vectors u = s_vectors s"
proof -
  have "\<not> s_thread_runs s" using sv.inv_reach [OF assms(1)] assms(2) by (simp add: svc_ok_def)
  moreover have "svc_run construct ((now, Start) # evs) s = Some u" using assms(3) by simp
  ultimately show ?thesis using stopped_run [of construct "(now, Start) # evs" s u] assms(2)
    by (simp add: svc_start_def Let_def)
qed

text \<open>\<open>get_all_element_and_clear\<close> on a service whose thread does not run spins forever: whatever
  other threads do, as long as they do not start a service that was never stopped, the flag it waits for
  stays unset.\<close>

theorem get_all_hangs:
  assumes "\<not> s_thread_runs s" and "s_io_stopped s \<or> (\<forall>(now, ev) \<in> set evs. ev \<noteq> Start)"
    and "svc_run construct evs (svc_get_all_begin vt s) = Some u"
  shows "svc_get_all_end u = None"
  using stopped_run [OF assms(3)] assms(1,2)
  by (simp add: svc_get_all_end_def svc_get_all_begin_def post_def)

section \<open>Instances\<close>

text \<open>A configured service that has been started at time 0, with one element posted.\<close>

definition configured :: "(int \<times> (nat, unit) svc_event) list" where
  "configured = [(0, Set_callback_function (Some ())), (0, Set_timeout True 25), (0, Set_max_limit True 2),
     (0, Start), (0, Async_add 7)]"

definition busy_service :: "(nat, unit) service" where
  "busy_service = \<lparr>s_started = True, s_tasks = [Task_add 7], s_io_stopped = False, s_thread_runs = True,
     s_expires_at = 10, s_waits = 1, s_manager = small_mgr, s_get_element_flag = False, s_vectors = (\<lambda>_. [])\<rparr>"

lemma configured_run: "svc_run lowest_free configured (init_service (\<lambda>_. []) False) = Some busy_service"
  by (simp add: configured_def busy_service_def init_service_def svc_set_callback_function_def
      svc_set_timeout_def svc_set_max_limit_def mgr_set_callback_function_def mgr_set_timeout_def
      mgr_set_max_limit_def svc_start_def set_expiry_def async_wait_def HEART_BEAT_TICKS_def
      async_add_element_def post_def small_mgr_def init_mgr_def)

lemma run_reach:
  assumes "svc_run construct evs s = Some u"
    and "reach (\<lambda>s. \<exists>vts g. s = init_service vts g) (svc_step construct) s"
  shows "reach (\<lambda>s. \<exists>vts g. s = init_service vts g) (svc_step construct) u"
  using assms
proof (induction evs arbitrary: s)
  case (Cons e evs)
  obtain now ev v where v: "e = (now, ev)" "svc_do construct now ev s = Some v" "svc_run construct evs v = Some u"
    using Cons.prems(1) by (cases e) (auto simp: bind_eq_Some_conv)
  have "reach (\<lambda>s. \<exists>vts g. s = init_service vts g) (svc_step construct) v"
    by (rule reach_step [OF Cons.prems(2) svc_step [OF v(2)]])
  with Cons.IH [OF v(3)] show ?case by simp
qed simp

lemma busy_reach:
  "reach (\<lambda>s. \<exists>vts g. s = init_service vts g) (svc_step lowest_free) busy_service"
  by (rule run_reach [OF configured_run]) (auto intro: reach_init)

lemma busy_facts [simp]:
  "s_thread_runs busy_service" "s_started busy_service" "\<not> s_io_stopped busy_service"
  "s_tasks busy_service = [Task_add 7]" "s_manager busy_service = small_mgr" "s_waits busy_service = 1"
  "s_expires_at busy_service = 10" "s_vectors busy_service vt = []" "plain_tasks busy_service"
  "queued_calls busy_service = [Add 7]"
  by (simp_all add: busy_service_def plain_tasks_def queued_calls_def)

theorem service_control_witness:
  "s_thread_runs busy_service \<and> s_waits busy_service + length (filter is_timeout (s_tasks busy_service)) = 1"
  using service_control [OF busy_reach] by simp

theorem manager_confined_witness:
  "\<exists>u. svc_do lowest_free 3 (Set_timeout False 0) busy_service = Some u \<and> s_manager u = small_mgr"
proof -
  obtain u where u: "svc_do lowest_free 3 (Set_timeout False 0) busy_service = Some u" by simp
  from manager_confined [OF busy_reach u] u show ?thesis by simp
qed

text \<open>Two updates and an expiry pass 30 seconds later.\<close>

definition half_minute :: "(int \<times> (nat, unit) svc_event) list" where
  "half_minute = [(5, Thread_turn), (6, Async_add 8), (7, Thread_turn), (31, Timer_turn), (31, Thread_turn)]"

definition later_service :: "(nat, unit) service" where
  "later_service = the (svc_run lowest_free half_minute busy_service)"

lemma half_minute_run:
  "\<exists>u. svc_run lowest_free half_minute busy_service = Some u"
proof -
  have alloc: "fresh_allocator lowest_free" "never_exhausted lowest_free" by (rule lowest_free_ok)+
  have ok: "svc_ok busy_service" by (rule sv.inv_reach [OF busy_reach])
  have clock: "clock_ok n" if "n < 100" for n using that by (simp add: clock_ok_def)
  obtain u1 where u1: "thread_turn lowest_free 5 busy_service = Some u1" "svc_ok u1" "s_thread_runs u1"
    "s_tasks u1 = []" "in_use 5 (s_manager u1) [stamped 5 7]" "effect small_mgr (s_manager u1) []"
    using head_turn [OF ok _ _ _ _ _ clock _ alloc, of "Task_add 7" "[]" "Add 7" 0 "[]" 5] small_mgr_in_use
    by (auto simp: over_limit_def)
  let ?v = "post (Task_add 8) u1"
  have v: "svc_ok ?v" "s_thread_runs ?v" "s_tasks ?v = [Task_add 8]" "s_manager ?v = s_manager u1"
    using u1 by simp (use u1 in \<open>simp_all add: post_def\<close>)
  obtain u2 where u2: "thread_turn lowest_free 7 ?v = Some u2" "svc_ok u2" "s_thread_runs u2" "s_tasks u2 = []"
    "in_use 7 (s_manager u2) [stamped 7 8, stamped 5 7]" "effect (s_manager u1) (s_manager u2) []"
    using head_turn [OF v(1-3) _ _ _ clock _ alloc, of "Add 8" 5 "[stamped 5 7]" 7] u1(5,6) v(4)
      effect_limit [OF u1(6)]
    by (auto simp: over_limit_def stamped_def)
  have "s_waits u2 = 1" using u2(2,3,4) by (simp add: svc_ok_def passes_def)
  moreover have "s_expires_at u2 \<le> 31"
  proof -
    have "svc_run lowest_free [(5, Thread_turn), (6, Async_add 8), (7, Thread_turn)] busy_service = Some u2"
      using u1(1) u2(1) by (simp add: async_add_element_def)
    from svc_run_history [OF ok _ _ _ this] show ?thesis
      by (auto simp: turn_times_def all_calls_def)
  qed
  ultimately obtain w where w: "timer_turn 31 u2 = Some w" "w = post (Task_timeout False) (u2\<lparr>s_waits := 0\<rparr>)"
    by (auto simp: timer_turn_def)
  have "svc_ok w" using svc_do_ok [OF u2(2), of lowest_free 31 Timer_turn w] w(1) by simp
  moreover obtain r ys fired where "spec_mgr_call (limit_of (s_manager w)) (timeout_of (s_manager w)) 31
      Handle_timeout [stamped 7 8, stamped 5 (7 :: nat)] = (r, ys, fired)"
    by (cases "spec_mgr_call (limit_of (s_manager w)) (timeout_of (s_manager w)) 31
      Handle_timeout [stamped 7 8, stamped 5 (7 :: nat)]")
  ultimately obtain u where "thread_turn lowest_free 31 w = Some u"
    using head_turn [of w "Task_timeout False" "[]" Handle_timeout 7 "[stamped 7 8, stamped 5 7]" 31 lowest_free]
      w(2) u2 clock [of 31] alloc
    by (auto simp: post_def)
  then show ?thesis
    using u1(1) u2(1) w(1) by (simp add: half_minute_def async_add_element_def)
qed

lemma later_run: "svc_run lowest_free half_minute busy_service = Some later_service"
  using half_minute_run by (auto simp: later_service_def)


theorem expiry_fixed_rate_witness: "s_expires_at later_service = 20"
  using expiry_fixed_rate [OF busy_reach _ _ _ later_run]
  by (simp add: turn_times_def half_minute_def all_calls_def HEART_BEAT_TICKS_def)

theorem get_all_returns_witness:
  "\<exists>u. svc_run lowest_free ((5, Get_all_begin 0) # turns (Suc 1) 5) busy_service = Some u
    \<and> svc_get_all_end u = Some u \<and> s_vectors u 0 = [7]"
  using get_all_returns [OF busy_reach _ _ _ _ _ _ lowest_free_ok, of 0 "[]" 5] small_mgr_in_use
  by (auto simp: at_once_def clock_ok_def over_limit_def stamped_def)


text \<open>A service that is stopped as soon as it has been started.\<close>

definition stopped_service :: "(nat, unit) service" where
  "stopped_service = \<lparr>s_started = False, s_tasks = [], s_io_stopped = True, s_thread_runs = False,
     s_expires_at = 10, s_waits = 1, s_manager = (drained small_mgr)\<lparr>m_elements := Map.empty\<rparr>,
     s_get_element_flag = False, s_vectors = (\<lambda>_. [])\<rparr>"

lemma stopped_steps:
  "svc_run lowest_free (butlast configured @ [(0, Stop_begin), (0, Thread_turn), (0, Stop_end)])
     (init_service (\<lambda>_. []) False) = Some stopped_service"
proof -
  have "mgr_wf small_mgr []" using small_mgr_in_use by (auto simp: in_use_def view_def held_def)
  note clear = clear_element_wf [OF this]
  have mgr: "small_mgr = \<lparr>m_elements = Map.empty, m_busy_list = empty_list, m_node_pool = Map.empty,
     m_callback_function = Some (), m_element_count = 0, m_timeout_flag = True, m_timeout = 25,
     m_max_limit_flag = True, m_max_limit = 2, m_invoked = []\<rparr>"
    by (simp add: small_mgr_def init_mgr_def)
  show ?thesis
    using clear unfolding stopped_service_def mgr
    by (simp add: configured_def init_service_def svc_set_callback_function_def init_mgr_def
      svc_set_timeout_def svc_set_max_limit_def mgr_set_callback_function_def mgr_set_timeout_def
      mgr_set_max_limit_def svc_start_def set_expiry_def async_wait_def HEART_BEAT_TICKS_def
      svc_stop_begin_def post_def thread_turn_def svc_stop_service_def svc_stop_end_def)
qed

theorem restart_is_dead_witness:
  "\<exists>u. svc_run lowest_free [(21, Async_add 9), (30, Timer_turn)] (snd (svc_start 20 stopped_service)) = Some u
    \<and> m_elements (s_manager u) = Map.empty \<and> \<not> s_thread_runs u"
proof -
  obtain u where u: "svc_run lowest_free [(21, Async_add 9), (30, Timer_turn)]
      (snd (svc_start 20 stopped_service)) = Some u"
    by (simp add: svc_start_def stopped_service_def set_expiry_def async_wait_def HEART_BEAT_TICKS_def
        async_add_element_def post_def timer_turn_def)
  have "reach (\<lambda>s. \<exists>vts g. s = init_service vts g) (svc_step lowest_free) stopped_service"
    by (rule run_reach [OF stopped_steps]) (auto intro: reach_init)
  from restart_is_dead [OF this _ u] u show ?thesis by (simp add: stopped_service_def)
qed

theorem get_all_hangs_witness:
  "\<exists>u. svc_run lowest_free [(1, Async_add 9)] (svc_get_all_begin 0 (init_service (\<lambda>_. []) True :: (nat, unit) service))
      = Some u \<and> svc_get_all_end u = None"
proof -
  let ?s = "init_service (\<lambda>_. []) True :: (nat, unit) service"
  obtain u where u: "svc_run lowest_free [(1, Async_add 9)] (svc_get_all_begin 0 ?s) = Some u" by simp
  from get_all_hangs [OF _ _ u] u show ?thesis by (simp add: init_service_def)
qed

end
