(* ===== verification/HeartBeatRegistry.thy ===== *)
theory HeartBeatRegistry
  imports HeartBeatMgr
begin

text \<open>
  The whole contract of the element manager of mylib/heart\_beat/heart\_beat\_element\_mgr.h, without any
  assumption on how it is used: an abstract registry with the same operations, the setters and the three
  operations that empty the manager included, and a simulation in which the manager and the registry
  fail together.

  The registry keeps its elements in a list, the latest beat first, and beside it the counter
  \<open>m_element_count\<close>, which the code does not keep equal to the length of the list.
\<close>

section \<open>The calls of the manager\<close>

datatype ('e, 'cb) reg_call =
    Reg_add 'e
  | Reg_update 'e
  | Reg_del 'e
  | Reg_timeout
  | Reg_clear
  | Reg_get_all "'e list"
  | Reg_trigger
  | Reg_set_callback "'cb option"
  | Reg_set_timeout bool "32 word"
  | Reg_set_max_limit bool "64 word"

text \<open>A call returns its status, and the vector it fills when it has one.\<close>

definition no_vector :: "(int \<times> 's) option \<Rightarrow> (int \<times> 'e list \<times> 's) option" where
  "no_vector = map_option (\<lambda>(r, s). (r, [], s))"

fun mgr_do :: "'e allocator \<Rightarrow> int \<Rightarrow> ('e, 'cb) reg_call \<Rightarrow> ('e, 'cb) mgr
    \<Rightarrow> (int \<times> 'e list \<times> ('e, 'cb) mgr) option" where
  "mgr_do construct now (Reg_add e) m = no_vector (mgr_add_element construct now e m)"
| "mgr_do construct now (Reg_update e) m = no_vector (mgr_update_element now e m)"
| "mgr_do construct now (Reg_del e) m = no_vector (mgr_del_element e m)"
| "mgr_do construct now Reg_timeout m = no_vector (mgr_handle_timeout now m)"
| "mgr_do construct now Reg_clear m = no_vector (mgr_clear_element m)"
| "mgr_do construct now (Reg_get_all vt) m = mgr_get_all_element_and_clear vt m"
| "mgr_do construct now Reg_trigger m = no_vector (map_option (Pair 0) (mgr_trigger_all_timeout m))"
| "mgr_do construct now (Reg_set_callback f) m = no_vector (Some (mgr_set_callback_function f m))"
| "mgr_do construct now (Reg_set_timeout flag t) m = no_vector (Some (mgr_set_timeout flag t m))"
| "mgr_do construct now (Reg_set_max_limit flag n) m = no_vector (Some (mgr_set_max_limit flag n m))"

section \<open>The registry\<close>

record ('e, 'cb) registry =
  g_entries :: "'e element_data list"
  g_count :: "64 word"
  g_callback :: "'cb option"
  g_timeout_flag :: bool
  g_timeout :: "32 word"
  g_max_limit_flag :: bool
  g_max_limit :: "64 word"
  g_invoked :: "('cb \<times> 'e) list"

definition init_registry :: "('e, 'cb) registry" where
  "init_registry = \<lparr>g_entries = [], g_count = 0, g_callback = None, g_timeout_flag = False, g_timeout = 0,
     g_max_limit_flag = False, g_max_limit = 0, g_invoked = []\<rparr>"

definition reg_fire :: "'e list \<Rightarrow> ('e, 'cb) registry \<Rightarrow> ('e, 'cb) registry" where
  "reg_fire es g = g\<lparr>g_invoked := g_invoked g @ (case g_callback g of None \<Rightarrow> [] | Some f \<Rightarrow> map (Pair f) es)\<rparr>"

definition reg_full :: "('e, 'cb) registry \<Rightarrow> bool" where
  "reg_full g \<longleftrightarrow> g_max_limit_flag g \<and> g_count g + 1 > g_max_limit g"

definition reg_has :: "'e \<Rightarrow> ('e, 'cb) registry \<Rightarrow> bool" where
  "reg_has e g \<longleftrightarrow> e \<in> ed_element ` set (g_entries g)"

definition reg_without :: "'e \<Rightarrow> ('e, 'cb) registry \<Rightarrow> 'e element_data list" where
  "reg_without e g = filter (\<lambda>d. ed_element d \<noteq> e) (g_entries g)"

text \<open>Eviction of the oldest entry; there is none in a full registry whose list is empty.\<close>

definition reg_evict :: "('e, 'cb) registry \<Rightarrow> ('e, 'cb) registry option" where
  "reg_evict g = (if g_entries g = [] then None
     else Some (reg_fire [ed_element (last (g_entries g))]
       (g\<lparr>g_entries := butlast (g_entries g), g_count := g_count g - 1\<rparr>)))"

text \<open>The expired entries, oldest first, up to the first one that is not due, and what is left; undefined when
  a time overflows.\<close>

fun expire_old :: "int \<Rightarrow> 32 word \<Rightarrow> 'e element_data list \<Rightarrow> ('e list \<times> 'e element_data list) option" where
  "expire_old now t [] = Some ([], [])"
| "expire_old now t (d # ds) = do {
     due \<leftarrow> due_at now t (ed_time d);
     if due then do { (es, rest) \<leftarrow> expire_old now t ds; Some (ed_element d # es, rest) }
     else Some ([], d # ds)
   }"

text \<open>\<open>fails\<close> says that the pool has no memory for a new node.\<close>

fun reg_do :: "bool \<Rightarrow> int \<Rightarrow> ('e, 'cb) reg_call \<Rightarrow> ('e, 'cb) registry
    \<Rightarrow> (int \<times> 'e list \<times> ('e, 'cb) registry) option" where
  "reg_do fails now (Reg_add e) g =
     (if reg_has e g then Some (-1, [], g)
      else do {
        g \<leftarrow> (if reg_full g then reg_evict g else Some g);
        Some (if fails then (-1, [], g)
          else (0, [], g\<lparr>g_entries := stamped now e # g_entries g, g_count := g_count g + 1\<rparr>))
      })"
| "reg_do fails now (Reg_update e) g =
     Some (if reg_has e g then (0, [], g\<lparr>g_entries := stamped now e # reg_without e g\<rparr>) else (-1, [], g))"
| "reg_do fails now (Reg_del e) g =
     Some (if reg_has e g then (0, [], g\<lparr>g_entries := reg_without e g, g_count := g_count g - 1\<rparr>) else (-1, [], g))"
| "reg_do fails now Reg_timeout g =
     (if \<not> g_timeout_flag g then Some (0, [], g)
      else do {
        (es, rest) \<leftarrow> expire_old now (g_timeout g) (rev (g_entries g));
        Some (0, [], reg_fire es (g\<lparr>g_entries := rev rest, g_count := g_count g - of_nat (length es)\<rparr>))
      })"
| "reg_do fails now Reg_clear g = Some (0, [], g\<lparr>g_entries := []\<rparr>)"
| "reg_do fails now (Reg_get_all vt) g = Some (0, vt @ map ed_element (g_entries g), g\<lparr>g_entries := []\<rparr>)"
| "reg_do fails now Reg_trigger g = Some (0, [], reg_fire (map ed_element (g_entries g)) (g\<lparr>g_entries := []\<rparr>))"
| "reg_do fails now (Reg_set_callback f) g = Some (0, [], g\<lparr>g_callback := f\<rparr>)"
| "reg_do fails now (Reg_set_timeout flag t) g = Some (0, [], g\<lparr>g_timeout_flag := flag, g_timeout := t\<rparr>)"
| "reg_do fails now (Reg_set_max_limit flag n) g = Some (0, [], g\<lparr>g_max_limit_flag := flag, g_max_limit := n\<rparr>)"

section \<open>The simulation\<close>

definition registry_of :: "('e, 'cb) mgr \<Rightarrow> ptr list \<Rightarrow> ('e, 'cb) registry" where
  "registry_of m ps = \<lparr>g_entries = view m ps, g_count = m_element_count m, g_callback = m_callback_function m,
     g_timeout_flag = m_timeout_flag m, g_timeout = m_timeout m, g_max_limit_flag = m_max_limit_flag m,
     g_max_limit = m_max_limit m, g_invoked = m_invoked m\<rparr>"

definition represents :: "('e, 'cb) mgr \<Rightarrow> ('e, 'cb) registry \<Rightarrow> bool" where
  "represents m g \<longleftrightarrow> (\<exists>ps. mgr_wf m ps \<and> g = registry_of m ps)"

text \<open>Both fail, or both return the same and represent each other again.\<close>

definition same_result :: "(int \<times> 'e list \<times> ('e, 'cb) mgr) option
    \<Rightarrow> (int \<times> 'e list \<times> ('e, 'cb) registry) option \<Rightarrow> bool" where
  "same_result = rel_option (\<lambda>(r, xs, m) (r', xs', g). r = r' \<and> xs = xs' \<and> represents m g)"

lemma same_resultI:
  "x = Some (r, xs, m) \<Longrightarrow> mgr_wf m ps \<Longrightarrow> y = Some (r, xs, registry_of m ps) \<Longrightarrow> same_result x y"
  by (auto simp: same_result_def represents_def)

lemma registry_of_sel [simp]:
  "g_entries (registry_of m ps) = view m ps" "g_count (registry_of m ps) = m_element_count m"
  "g_callback (registry_of m ps) = m_callback_function m" "g_timeout_flag (registry_of m ps) = m_timeout_flag m"
  "g_timeout (registry_of m ps) = m_timeout m" "g_max_limit_flag (registry_of m ps) = m_max_limit_flag m"
  "g_max_limit (registry_of m ps) = m_max_limit m" "g_invoked (registry_of m ps) = m_invoked m"
  by (simp_all add: registry_of_def)

text \<open>What an operation with its callbacks is in the registry.\<close>

lemma registry_of_effect:
  assumes "effect m m' es"
  shows "registry_of m' ps' = reg_fire es (registry_of m ps\<lparr>g_entries := view m' ps', g_count := m_element_count m'\<rparr>)"
  using assms by (simp add: registry_of_def reg_fire_def effect_def same_config_def callbacks_def)

lemma reg_fire_none [simp]: "reg_fire [] g = g"
  by (simp add: reg_fire_def split: option.split)

lemma view_empty: "mgr_wf m ps \<Longrightarrow> view m ps = [] \<longleftrightarrow> m_header (m_busy_list m) = None"
  by (simp add: view_def held_def mgr_wf_def hbl_def dll_def)

lemma reg_has_iff: "mgr_wf m ps \<Longrightarrow> reg_has e (registry_of m ps) \<longleftrightarrow> m_elements m e \<noteq> None"
  by (simp add: reg_has_def present_iff)

lemma reg_full_iff: "reg_full (registry_of m ps) \<longleftrightarrow> m_max_limit_flag m \<and> m_element_count m + 1 > m_max_limit m"
  by (simp add: reg_full_def)

lemma sim_evict:
  assumes "mgr_wf m ps"
  shows "rel_option represents (evict_oldest m) (reg_evict (registry_of m ps))
    \<and> (\<forall>m' e. evict_oldest m = Some m' \<longrightarrow> m_elements m e = None \<longrightarrow> m_elements m' e = None)"
proof (cases ps rule: rev_cases)
  case Nil
  then show ?thesis using busy_pop_empty [of m] assms
    by (simp add: evict_oldest_def reg_evict_def view_def)
next
  case (snoc qs q)
  with evict_oldest_wf [of m qs q] assms obtain m' where
    m': "evict_oldest m = Some m'" "mgr_wf m' qs" "view m' qs = butlast (view m ps)"
    "effect m m' [ed_element (last (view m ps))]" "m_element_count m' = m_element_count m - 1" by blast
  have "view m ps \<noteq> []" using snoc by (simp add: view_def)
  then have "reg_evict (registry_of m ps) = Some (registry_of m' qs)"
    using m'(3,5) registry_of_effect [OF m'(4), of qs ps] by (simp add: reg_evict_def)
  moreover have "m_elements m' e = None" if "m_elements m e = None" for e
    using that m'(3) present_iff [OF m'(2), of e] present_iff [OF assms, of e] by (auto dest: in_set_butlastD)
  ultimately show ?thesis using m'(1,2) by (auto simp: represents_def)
qed

text \<open>What follows the eviction when an element is added.\<close>

lemma sim_insert:
  assumes "mgr_wf m ps" and "m_elements m e = None" and "m_node_pool m p = None"
  shows "\<exists>h l. busy_push_front p (m\<lparr>m_node_pool := (m_node_pool m)(p \<mapsto> mk_node (stamped now e)),
        m_elements := (m_elements m)(e \<mapsto> p)\<rparr>)
      = Some (0, set_busy h l (m\<lparr>m_elements := (m_elements m)(e \<mapsto> p)\<rparr>))
    \<and> represents ((set_busy h l (m\<lparr>m_elements := (m_elements m)(e \<mapsto> p)\<rparr>))\<lparr>m_element_count := m_element_count m + 1\<rparr>)
        (registry_of m ps\<lparr>g_entries := stamped now e # view m ps, g_count := m_element_count m + 1\<rparr>)"
proof -
  from insert_wf [OF assms, of now] obtain h l where hl:
    "busy_push_front p (m\<lparr>m_node_pool := (m_node_pool m)(p \<mapsto> mk_node (stamped now e)),
        m_elements := (m_elements m)(e \<mapsto> p)\<rparr>) = Some (0, set_busy h l (m\<lparr>m_elements := (m_elements m)(e \<mapsto> p)\<rparr>))"
    "mgr_wf (set_busy h l (m\<lparr>m_elements := (m_elements m)(e \<mapsto> p)\<rparr>)) (p # ps)"
    "held (contents h) (p # ps) = stamped now e # view m ps" by blast
  let ?m = "(set_busy h l (m\<lparr>m_elements := (m_elements m)(e \<mapsto> p)\<rparr>))\<lparr>m_element_count := m_element_count m + 1\<rparr>"
  have "mgr_wf ?m (p # ps)" using hl(2) by simp
  moreover have "registry_of ?m (p # ps)
      = registry_of m ps\<lparr>g_entries := stamped now e # view m ps, g_count := m_element_count m + 1\<rparr>"
    using hl(3) by (simp add: registry_of_def view_def)
  ultimately show ?thesis using hl(1) unfolding represents_def by metis
qed

lemma sim_add:
  assumes "mgr_wf m ps" and "fresh_allocator construct"
  shows "\<exists>fails. same_result (mgr_do construct now (Reg_add e) m) (reg_do fails now (Reg_add e) (registry_of m ps))
    \<and> (never_exhausted construct \<longrightarrow> \<not> fails)"
proof (cases "m_elements m e")
  case (Some p)
  then show ?thesis using assms(1)
    by (intro exI [of _ False]) (auto simp: add_existing reg_has_iff no_vector_def same_result_def represents_def)
next
  case None
  let ?g = "registry_of m ps"
  define m1 where "m1 = (if reg_full ?g then evict_oldest m else Some m)"
  define g1 where "g1 = (if reg_full ?g then reg_evict ?g else Some ?g)"
  have rep: "rel_option represents m1 g1" "\<And>m'. m1 = Some m' \<Longrightarrow> m_elements m' e = None"
    using sim_evict [OF assms(1)] assms(1) None
    by (auto simp: m1_def g1_def represents_def split: if_splits)
  have add: "mgr_add_element construct now e m = do { m \<leftarrow> m1; case construct (m_node_pool m) of None \<Rightarrow> Some (-1, m)
      | Some p \<Rightarrow> do { (_, m) \<leftarrow> busy_push_front p (m\<lparr>m_node_pool := (m_node_pool m)(p \<mapsto> mk_node (stamped now e)),
           m_elements := (m_elements m)(e \<mapsto> p)\<rparr>);
         Some (0, m\<lparr>m_element_count := m_element_count m + 1\<rparr>) } }"
    using None by (simp add: mgr_add_element_def m1_def reg_full_iff)
  have reg: "reg_do fails now (Reg_add e) ?g = do { g \<leftarrow> g1; Some (if fails then (-1, [], g)
      else (0, [], g\<lparr>g_entries := stamped now e # g_entries g, g_count := g_count g + 1\<rparr>)) }" for fails
    using None assms(1) by (simp add: reg_has_iff g1_def)
  show ?thesis
  proof (cases m1)
    case None
    with rep(1) show ?thesis unfolding mgr_do.simps add reg
      by (intro exI [of _ False]) (simp add: no_vector_def same_result_def)
  next
    case (Some m')
    with rep(1) obtain qs where g: "g1 = Some (registry_of m' qs)" "mgr_wf m' qs"
      by (auto simp: represents_def option_rel_Some1)
    show ?thesis
    proof (cases "construct (m_node_pool m')")
      case None
      with Some g never_exhaustedD [OF _ g(2), of construct] show ?thesis unfolding mgr_do.simps add reg
        by (intro exI [of _ True]) (auto simp: no_vector_def same_result_def represents_def)
    next
      case (Some p)
      then have "m_node_pool m' p = None" using assms(2) by (auto simp: fresh_allocator_def)
      with sim_insert [OF g(2) rep(2) [OF \<open>m1 = Some m'\<close>], of p now] Some \<open>m1 = Some m'\<close> g(1)
      show ?thesis unfolding mgr_do.simps add reg
        by (intro exI [of _ False]) (auto simp: no_vector_def same_result_def)
    qed
  qed
qed

lemma sim_update:
  assumes "mgr_wf m ps"
  shows "same_result (mgr_do construct now (Reg_update e) m) (reg_do fails now (Reg_update e) (registry_of m ps))"
proof (cases "m_elements m e")
  case None
  then show ?thesis using assms
    by (auto simp: update_missing reg_has_iff no_vector_def same_result_def represents_def)
next
  case (Some p)
  from update_present [OF assms Some, of now] obtain m' where
    m': "mgr_update_element now e m = Some (0, m')" "mgr_wf m' (p # remove1 p ps)"
    "view m' (p # remove1 p ps) = stamped now e # reg_without e (registry_of m ps)"
    "effect m m' []" "m_element_count m' = m_element_count m" by (auto simp: reg_without_def)
  have "registry_of m' (p # remove1 p ps) = registry_of m ps\<lparr>g_entries := stamped now e # reg_without e (registry_of m ps)\<rparr>"
    using registry_of_effect [OF m'(4), of "p # remove1 p ps" ps] m'(3,5) by (simp add: registry_of_def)
  with m'(1) Some assms show ?thesis
    by (intro same_resultI [OF _ m'(2), of _ 0 "[]"]) (simp_all add: no_vector_def reg_has_iff)
qed

lemma sim_del:
  assumes "mgr_wf m ps"
  shows "same_result (mgr_do construct now (Reg_del e) m) (reg_do fails now (Reg_del e) (registry_of m ps))"
proof (cases "m_elements m e")
  case None
  then show ?thesis using assms
    by (auto simp: del_missing reg_has_iff no_vector_def same_result_def represents_def)
next
  case (Some p)
  from del_present [OF assms Some] obtain m' where
    m': "mgr_del_element e m = Some (0, m')" "mgr_wf m' (remove1 p ps)"
    "view m' (remove1 p ps) = reg_without e (registry_of m ps)"
    "effect m m' []" "m_element_count m' = m_element_count m - 1" by (auto simp: reg_without_def)
  show ?thesis
    by (rule same_resultI [OF _ m'(2)])
      (use m'(1,3,5) registry_of_effect [OF m'(4), of "remove1 p ps" ps] Some assms in
        \<open>simp_all add: no_vector_def reg_has_iff\<close>)
qed

text \<open>The loop of \<open>handle_timeout\<close> at any times: it stops where the registry stops, and overflows where it does.\<close>

lemma sim_expire:
  assumes "mgr_wf m ps"
  shows "rel_option (\<lambda>(r, m') (es, rest). r = 0 \<and> effect m m' es \<and> m_element_count m' = m_element_count m - of_nat (length es)
      \<and> (\<exists>ps'. mgr_wf m' ps' \<and> view m' ps' = rev rest))
    (expire_loop now t m) (expire_old now t (rev (view m ps)))"
  using assms
proof (induction ps arbitrary: m rule: rev_induct)
  case Nil
  then show ?case using mgr_wf_back [OF Nil]
    by (subst expire_loop.simps) (auto simp: view_def intro: exI [of _ "[]"])
next
  case (snoc p ps)
  from mgr_wf_node [OF snoc.prems, of p] obtain n where
    n: "m_node_pool m p = Some n" and c: "contents (m_node_pool m) p = Some (nd_data n)" by auto
  have v: "view m (ps @ [p]) = view m ps @ [nd_data n]"
    using c by (simp add: view_def)
  consider "due_at now t (ed_time (nd_data n)) = None" | "due_at now t (ed_time (nd_data n)) = Some False"
    | "due_at now t (ed_time (nd_data n)) = Some True" by (cases "due_at now t (ed_time (nd_data n))") auto
  then show ?case
  proof cases
    case 1
    then show ?thesis using n mgr_wf_back [OF snoc.prems] v by (subst expire_loop.simps) simp
  next
    case 2
    with n mgr_wf_back [OF snoc.prems] v snoc.prems show ?thesis
      by (subst expire_loop.simps) (auto intro: exI [of _ "ps @ [p]"])
  next
    case 3
    from expire_step [OF snoc.prems c 3] obtain m1 where
      m1: "expire_loop now t m = expire_loop now t m1" "mgr_wf m1 ps" "view m1 ps = view m ps"
      "effect m m1 [ed_element (nd_data n)]" "m_element_count m1 = m_element_count m - 1" by blast
    show ?thesis using snoc.IH [OF m1(2)] unfolding m1(1,3) v using 3 m1(5) effect_trans [OF m1(4)]
      by (cases "expire_loop now t m1"; cases "expire_old now t (rev (view m ps))")
        (auto simp: algebra_simps)
  qed
qed

lemma sim_timeout:
  assumes "mgr_wf m ps"
  shows "same_result (mgr_do construct now Reg_timeout m) (reg_do fails now Reg_timeout (registry_of m ps))"
proof (cases "m_timeout_flag m")
  case True
  show ?thesis
  proof (cases "expire_loop now (m_timeout m) m")
    case None
    with sim_expire [OF assms, of now "m_timeout m"] True show ?thesis
      by (simp add: mgr_handle_timeout_def no_vector_def same_result_def)
  next
    case (Some rm)
    then obtain m' es rest ps' where m': "expire_loop now (m_timeout m) m = Some (0, m')" "effect m m' es"
      "m_element_count m' = m_element_count m - of_nat (length es)" "mgr_wf m' ps'" "view m' ps' = rev rest"
      "expire_old now (m_timeout m) (rev (view m ps)) = Some (es, rest)"
      using sim_expire [OF assms, of now "m_timeout m"] by (cases rm) (auto simp: option_rel_Some1)
    show ?thesis
      by (rule same_resultI [OF _ m'(4)])
        (use m'(1,3,5,6) registry_of_effect [OF m'(2), of ps' ps] True in
          \<open>simp_all add: mgr_handle_timeout_def no_vector_def\<close>)
  qed
qed (use assms in \<open>auto simp: mgr_handle_timeout_def no_vector_def same_result_def represents_def\<close>)

lemma sim_empty:
  assumes "mgr_wf m ps" and "es = [] \<or> es = map ed_element (view m ps)"
  shows "represents ((drained (m\<lparr>m_invoked := m_invoked m @ callbacks m es\<rparr>))\<lparr>m_elements := Map.empty\<rparr>)
    (reg_fire es (registry_of m ps\<lparr>g_entries := []\<rparr>))"
  unfolding represents_def
  by (intro exI [of _ "[]"] conjI mgr_wf_cleared)
    (simp add: registry_of_def reg_fire_def drained_def callbacks_def view_def)

lemma no_callbacks: "m\<lparr>m_invoked := m_invoked m @ callbacks m []\<rparr> = m"
  by (simp add: callbacks_def split: option.split)

lemma sim_emptying:
  assumes "mgr_wf m ps" and "c = Reg_clear \<or> c = Reg_get_all vt \<or> c = Reg_trigger"
  shows "same_result (mgr_do construct now c m) (reg_do fails now c (registry_of m ps))"
  using assms(2) sim_empty [OF assms(1), of "[]"] sim_empty [OF assms(1), of "map ed_element (view m ps)"]
    clear_element_wf [OF assms(1)] collect_loop_drained [OF mgr_wf_drainable [OF assms(1)], of vt]
    trigger_loop_drained [OF mgr_wf_drainable [OF assms(1)]]
  by (auto simp: no_vector_def same_result_def no_callbacks mgr_get_all_element_and_clear_def
      mgr_trigger_all_timeout_def view_def)

lemma sim_setting:
  assumes "mgr_wf m ps" and "c = Reg_set_callback f \<or> c = Reg_set_timeout flag t \<or> c = Reg_set_max_limit flag n"
  shows "same_result (mgr_do construct now c m) (reg_do fails now c (registry_of m ps))"
  using assms
  by (auto simp: no_vector_def same_result_def represents_def mgr_set_callback_function_def mgr_set_timeout_def
      mgr_set_max_limit_def registry_of_def mgr_wf_def view_def intro!: exI [of _ ps])

lemma sim_call:
  assumes "represents m g" and "fresh_allocator construct"
  shows "\<exists>fails. same_result (mgr_do construct now c m) (reg_do fails now c g)
    \<and> (never_exhausted construct \<longrightarrow> \<not> fails)"
proof -
  obtain ps where ps: "mgr_wf m ps" "g = registry_of m ps" using assms(1) by (auto simp: represents_def)
  show ?thesis unfolding ps(2)
    using sim_add [OF ps(1) assms(2), of now] sim_update [OF ps(1), of construct now _ False]
      sim_del [OF ps(1), of construct now _ False] sim_timeout [OF ps(1), of construct now False]
      sim_emptying [OF ps(1), of c _ construct now False] sim_setting [OF ps(1), of c _ _ _ _ construct now False]
    by (cases c; blast)
qed

section \<open>Histories\<close>

text \<open>A sequence of calls with the clock readings at which they are made: statuses, vectors and the last state.\<close>

fun run_mgr :: "'e allocator \<Rightarrow> (int \<times> ('e, 'cb) reg_call) list \<Rightarrow> ('e, 'cb) mgr
    \<Rightarrow> ((int \<times> 'e list) list \<times> ('e, 'cb) mgr) option" where
  "run_mgr construct [] m = Some ([], m)"
| "run_mgr construct ((now, c) # cs) m = do {
     (r, xs, m) \<leftarrow> mgr_do construct now c m;
     (rs, m) \<leftarrow> run_mgr construct cs m;
     Some ((r, xs) # rs, m)
   }"

text \<open>The registry also takes, for every call, whether the pool fails.\<close>

fun run_registry :: "(bool \<times> int \<times> ('e, 'cb) reg_call) list \<Rightarrow> ('e, 'cb) registry
    \<Rightarrow> ((int \<times> 'e list) list \<times> ('e, 'cb) registry) option" where
  "run_registry [] g = Some ([], g)"
| "run_registry ((fails, now, c) # cs) g = do {
     (r, xs, g) \<leftarrow> reg_do fails now c g;
     (rs, g) \<leftarrow> run_registry cs g;
     Some ((r, xs) # rs, g)
   }"

definition no_failure :: "(int \<times> ('e, 'cb) reg_call) list \<Rightarrow> (bool \<times> int \<times> ('e, 'cb) reg_call) list" where
  "no_failure = map (Pair False)"

lemma sim_history:
  assumes "represents m g" and "fresh_allocator construct"
  shows "\<exists>fs. map snd fs = cs \<and> rel_option (\<lambda>(rs, m) (rs', g). rs = rs' \<and> represents m g)
      (run_mgr construct cs m) (run_registry fs g)
    \<and> (never_exhausted construct \<longrightarrow> fs = no_failure cs)"
  using assms(1)
proof (induction cs arbitrary: m g)
  case Nil
  then show ?case by (intro exI [of _ "[]"]) (simp add: no_failure_def)
next
  case (Cons c cs)
  obtain now k where c: "c = (now, k)" by (cases c)
  obtain fails where f: "same_result (mgr_do construct now k m) (reg_do fails now k g)"
    "never_exhausted construct \<longrightarrow> \<not> fails" using sim_call [OF Cons.prems assms(2)] by blast
  show ?case
  proof (cases "mgr_do construct now k m")
    case None
    with f c show ?thesis
      by (intro exI [of _ "(fails, now, k) # no_failure cs"])
        (auto simp: same_result_def no_failure_def comp_def)
  next
    case (Some x)
    then obtain r xs m' g' where x: "mgr_do construct now k m = Some (r, xs, m')"
      "reg_do fails now k g = Some (r, xs, g')" "represents m' g'"
      using f(1) by (cases x) (auto simp: same_result_def option_rel_Some1)
    obtain fs where fs: "map snd fs = cs" "rel_option (\<lambda>(rs, m) (rs', g). rs = rs' \<and> represents m g)
      (run_mgr construct cs m') (run_registry fs g')" "never_exhausted construct \<longrightarrow> fs = no_failure cs"
      using Cons.IH [OF x(3)] by blast
    show ?thesis using c x(1,2) f(2) fs
      by (intro exI [of _ "(fails, now, k) # fs"], cases "run_mgr construct cs m'"; cases "run_registry fs g'")
        (auto simp: no_failure_def)
  qed
qed

lemma init_represents: "represents init_mgr init_registry"
  unfolding represents_def
  by (intro exI [of _ "[]"] conjI mgr_wf_init)
    (simp add: registry_of_def init_registry_def init_mgr_def view_def)

text \<open>C8: The manager is the registry. Any sequence of its calls whatever, the setters and the calls that empty
  it included, under any clock and any settings, gives the same statuses and vectors, the same callbacks
  in the same order and the same entries as the registry; and where one of the two is undefined, the other is.\<close>

theorem manager_is_registry:
  assumes "fresh_allocator construct" and "never_exhausted construct"
  shows "rel_option (\<lambda>(rs, m) (rs', g). rs = rs' \<and> represents m g)
    (run_mgr construct cs init_mgr) (run_registry (no_failure cs) init_registry)"
  using sim_history [OF init_represents assms(1), of cs] assms(2) by auto

text \<open>C23: The representation of every manager that any calls have built, also with a pool that runs out: the busy
  list is a doubly linked list of distinct nodes, these are the nodes alive in the pool, each stands in the hash
  map under the element it holds, and the hash map has no other entry.\<close>

theorem manager_representation:
  assumes "fresh_allocator construct" and "run_mgr construct cs init_mgr = Some (rs, m)"
  shows "\<exists>ps. dll (m_node_pool m) (m_busy_list m) ps \<and> dom (m_node_pool m) = set ps
    \<and> (\<forall>e p. m_elements m e = Some p \<longleftrightarrow> (\<exists>n. m_node_pool m p = Some n \<and> ed_element (nd_data n) = e))"
proof -
  obtain g where "represents m g"
    using sim_history [OF init_represents assms(1), of cs] assms(2) by (auto simp: option_rel_Some1)
  then obtain ps where ps: "mgr_wf m ps" by (auto simp: represents_def)
  then show ?thesis
    by (intro exI [of _ ps]) (auto simp: mgr_wf_def hbl_def indexes_def contents_Some contents_dom [symmetric])
qed

text \<open>C28: The only undefined call of a manager, the overflow of a time in \<open>handle_timeout\<close> apart: adding a new element when
  the counter is at the limit and the busy list is empty.\<close>

theorem undefined_calls:
  assumes "fresh_allocator construct" and "run_mgr construct cs init_mgr = Some (rs, m)" and "c \<noteq> Reg_timeout"
  shows "mgr_do construct now c m = None \<longleftrightarrow> (\<exists>e. c = Reg_add e \<and> m_elements m e = None
    \<and> m_max_limit_flag m \<and> m_element_count m + 1 > m_max_limit m \<and> m_header (m_busy_list m) = None)"
proof -
  obtain g where "represents m g"
    using sim_history [OF init_represents assms(1), of cs] assms(2) by (auto simp: option_rel_Some1)
  then obtain ps where ps: "mgr_wf m ps" "g = registry_of m ps" by (auto simp: represents_def)
  have empty: "g_entries g = [] \<longleftrightarrow> m_header (m_busy_list m) = None"
    using ps by (simp add: view_empty)
  have "mgr_do construct now c m = None \<longleftrightarrow> reg_do fails now c g = None"
    if "same_result (mgr_do construct now c m) (reg_do fails now c g)" for fails
    using that by (auto simp: same_result_def)
  then obtain fails where "mgr_do construct now c m = None \<longleftrightarrow> reg_do fails now c g = None"
    using sim_call [OF \<open>represents m g\<close> assms(1)] by blast
  then show ?thesis using assms(3) empty ps
    by (cases c) (auto simp: reg_has_iff reg_full_iff reg_evict_def)
qed

section \<open>Instances\<close>

text \<open>A manager for one element: an add, an eviction, a pass, a clearing and the add that crashes.\<close>

definition some_calls :: "(int \<times> (nat, unit) reg_call) list" where
  "some_calls = [(0, Reg_set_callback (Some ())), (0, Reg_set_max_limit True 1), (0, Reg_set_timeout True 5),
     (1, Reg_add 7), (2, Reg_add 8), (3, Reg_timeout), (4, Reg_get_all [])]"

lemma some_calls_registry:
  "run_registry (no_failure some_calls) init_registry
    = Some ([(0, []), (0, []), (0, []), (0, []), (0, []), (0, []), (0, [8])],
        \<lparr>g_entries = [], g_count = 1, g_callback = Some (), g_timeout_flag = True, g_timeout = 5,
          g_max_limit_flag = True, g_max_limit = 1, g_invoked = [((), 7)]\<rparr>)"
  by (simp add: some_calls_def no_failure_def init_registry_def reg_has_def reg_full_def reg_evict_def reg_fire_def
      stamped_def due_at_def)

theorem manager_is_registry_witness:
  "\<exists>rs m. run_mgr lowest_free some_calls init_mgr = Some (rs, m) \<and> last rs = (0, [8]) \<and> m_invoked m = [((), 7)]"
  using manager_is_registry [OF lowest_free_ok, of some_calls]
  by (auto simp: some_calls_registry option_rel_Some2 represents_def registry_of_def)

lemma some_calls_manager: "\<exists>rs m. run_mgr lowest_free some_calls init_mgr = Some (rs, m) \<and> m_elements m = Map.empty
  \<and> m_max_limit_flag m \<and> m_max_limit m = 1 \<and> m_element_count m = 1 \<and> m_header (m_busy_list m) = None"
proof -
  obtain fs where "rel_option (\<lambda>(rs, m) (rs', g). rs = rs' \<and> represents m g)
      (run_mgr lowest_free some_calls init_mgr) (run_registry (no_failure some_calls) init_registry)"
    using sim_history [OF init_represents lowest_free_ok(1), of some_calls] lowest_free_ok(2) by auto
  then obtain rs m ps where m: "run_mgr lowest_free some_calls init_mgr = Some (rs, m)" "mgr_wf m ps"
    "view m ps = []" "m_max_limit_flag m" "m_max_limit m = 1" "m_element_count m = 1"
    by (auto simp: some_calls_registry option_rel_Some2 represents_def registry_of_def)
  have "m_elements m e = None" for e using present_iff [OF m(2), of e] m(3) by simp
  moreover have "m_header (m_busy_list m) = None" using m(2,3) by (simp add: view_empty)
  ultimately show ?thesis using m(1,4-6) by (auto simp: fun_eq_iff)
qed

theorem manager_representation_witness:
  "\<exists>rs m. run_mgr lowest_free some_calls init_mgr = Some (rs, m) \<and> m_node_pool m = Map.empty"
proof -
  obtain rs m where m: "run_mgr lowest_free some_calls init_mgr = Some (rs, m)" "m_elements m = Map.empty"
    using some_calls_manager by blast
  from manager_representation [OF lowest_free_ok(1) m(1)] m(2) have "m_node_pool m p = None" for p
    by (cases "m_node_pool m p") auto
  with m(1) show ?thesis by (auto simp: fun_eq_iff)
qed

theorem undefined_calls_witness:
  "\<exists>rs m. run_mgr lowest_free some_calls init_mgr = Some (rs, m) \<and> mgr_do lowest_free 9 (Reg_add 9) m = None"
proof -
  obtain rs m where m: "run_mgr lowest_free some_calls init_mgr = Some (rs, m)" "m_elements m = Map.empty"
    "m_max_limit_flag m" "m_max_limit m = 1" "m_element_count m = 1" "m_header (m_busy_list m) = None"
    using some_calls_manager by blast
  from undefined_calls [OF lowest_free_ok(1) m(1), of "Reg_add 9" 9] m show ?thesis by auto
qed


end
