(* ===== verification/HeartBeatServiceRegistry.thy ===== *)
theory HeartBeatServiceRegistry
  imports HeartBeatService HeartBeatRegistry
begin

text \<open>
  What the heart beat service of mylib/heart\_beat/heart\_beat\_service.h promises, as a machine of its own: a \<open>desk\<close> at
  which requests are queued, with a registry, a phase and an alarm. The service refines it, under any interleaving
  of any of its operations, from the first configuration to the last stop, undefined behaviour included.
\<close>

section \<open>The specification\<close>

text \<open>What can be asked for at the desk. A pass is asked for by the alarm.\<close>

datatype 'e request =
    Wants_in 'e
  | Beats 'e
  | Wants_out 'e
  | Wants_all ptr
  | Wants_fired
  | Wants_end
  | Pass_due

text \<open>\<open>Fresh\<close>: not started yet. \<open>Alive\<close>: requests are served. \<open>Ended\<close>: a request to end has been served, and nothing
  is served any more. \<open>Joined\<close>: \<open>stop\<close> has returned.\<close>

datatype phase = Fresh | Alive | Ended | Joined

record ('e, 'cb) desk =
  d_phase :: phase
  d_requests :: "'e request list"
  d_registry :: "('e, 'cb) registry"
  d_alarm :: bool
  d_due :: int
  d_flag :: bool
  d_vectors :: "ptr \<Rightarrow> 'e list"

definition new_desk :: "(ptr \<Rightarrow> 'e list) \<Rightarrow> bool \<Rightarrow> ('e, 'cb) desk" where
  "new_desk vectors garbage = \<lparr>d_phase = Fresh, d_requests = [], d_registry = init_registry, d_alarm = False, d_due = 0,
     d_flag = garbage, d_vectors = vectors\<rparr>"

definition ask :: "'e request \<Rightarrow> ('e, 'cb) desk \<Rightarrow> ('e, 'cb) desk" where
  "ask r d = d\<lparr>d_requests := d_requests d @ [r]\<rparr>"

text \<open>The configuration can be changed until the start, and between a stop and the next start.\<close>

definition configure :: "(('e, 'cb) registry \<Rightarrow> ('e, 'cb) registry) \<Rightarrow> ('e, 'cb) desk \<Rightarrow> ('e, 'cb) desk" where
  "configure f d = (if d_phase d = Fresh \<or> d_phase d = Joined then d\<lparr>d_registry := f (d_registry d)\<rparr> else d)"

text \<open>A start sets the alarm ten seconds from now. A second one, after a stop, calls off an alarm that is still set, which
  counts as one that has gone off, and serves nothing.\<close>

definition open_desk :: "int \<Rightarrow> ('e, 'cb) desk \<Rightarrow> ('e, 'cb) desk" where
  "open_desk now d = (case d_phase d of
      Fresh \<Rightarrow> d\<lparr>d_phase := Alive, d_alarm := True, d_due := now + 10\<rparr>
    | Joined \<Rightarrow> (if d_alarm d then ask Pass_due d else d)\<lparr>d_phase := Ended, d_alarm := True, d_due := now + 10\<rparr>
    | _ \<Rightarrow> d)"

text \<open>The registry of the manager's contract is asked; \<open>None\<close>: undefined.\<close>

definition consult :: "int \<Rightarrow> ('e, 'cb) reg_call \<Rightarrow> ('e, 'cb) desk \<Rightarrow> ('e, 'cb) desk option" where
  "consult now c d = do { (_, _, g) \<leftarrow> reg_do False now c (d_registry d); Some (d\<lparr>d_registry := g\<rparr>) }"

definition emptied :: "('e, 'cb) desk \<Rightarrow> ('e, 'cb) desk" where
  "emptied d = d\<lparr>d_registry := (d_registry d)\<lparr>g_entries := []\<rparr>\<rparr>"

fun serve :: "int \<Rightarrow> 'e request \<Rightarrow> ('e, 'cb) desk \<Rightarrow> ('e, 'cb) desk option" where
  "serve now (Wants_in e) d = consult now (Reg_add e) d"
| "serve now (Beats e) d = consult now (Reg_update e) d"
| "serve now (Wants_out e) d = consult now (Reg_del e) d"
| "serve now Wants_fired d = consult now Reg_trigger d"
| "serve now Pass_due d = consult now Reg_timeout (d\<lparr>d_alarm := True, d_due := d_due d + 10\<rparr>)"
| "serve now (Wants_all vt) d = Some (emptied (d\<lparr>d_flag := True,
     d_vectors := (d_vectors d)(vt := d_vectors d vt @ map ed_element (g_entries (d_registry d)))\<rparr>))"
| "serve now Wants_end d = Some (emptied (d\<lparr>d_phase := Ended\<rparr>))"

fun desk_do :: "int \<Rightarrow> ('e, 'cb) svc_event \<Rightarrow> ('e, 'cb) desk \<Rightarrow> ('e, 'cb) desk option" where
  "desk_do now (Set_callback_function f) d = Some (configure (\<lambda>g. g\<lparr>g_callback := f\<rparr>) d)"
| "desk_do now (Set_timeout flag t) d = Some (configure (\<lambda>g. g\<lparr>g_timeout_flag := flag, g_timeout := t\<rparr>) d)"
| "desk_do now (Set_max_limit flag n) d = Some (configure (\<lambda>g. g\<lparr>g_max_limit_flag := flag, g_max_limit := n\<rparr>) d)"
| "desk_do now Start d = Some (open_desk now d)"
| "desk_do now Stop_begin d = Some (if d_phase d = Alive \<or> d_phase d = Ended then ask Wants_end d else d)"
| "desk_do now Stop_end d = (if d_phase d = Alive then None
     else Some (if d_phase d = Ended then d\<lparr>d_phase := Joined\<rparr> else d))"
| "desk_do now (Async_add e) d = Some (ask (Wants_in e) d)"
| "desk_do now (Async_update e) d = Some (ask (Beats e) d)"
| "desk_do now (Async_del e) d = Some (ask (Wants_out e) d)"
| "desk_do now (Get_all_begin vt) d = Some (ask (Wants_all vt) (d\<lparr>d_flag := False\<rparr>))"
| "desk_do now Get_all_end d = (if d_flag d then Some d else None)"
| "desk_do now Trigger_all d = Some (ask Wants_fired d)"
| "desk_do now Thread_turn d = (case d_requests d of [] \<Rightarrow> None
     | r # rs \<Rightarrow> if d_phase d = Alive then serve now r (d\<lparr>d_requests := rs\<rparr>) else None)"
| "desk_do now Timer_turn d = (if d_alarm d \<and> d_due d \<le> now then Some (ask Pass_due (d\<lparr>d_alarm := False\<rparr>)) else None)"

fun desk_run :: "(int \<times> ('e, 'cb) svc_event) list \<Rightarrow> ('e, 'cb) desk \<Rightarrow> ('e, 'cb) desk option" where
  "desk_run [] d = Some d"
| "desk_run ((now, ev) # evs) d = do { d \<leftarrow> desk_do now ev d; desk_run evs d }"

section \<open>A task is a call of the manager and a change of the control part\<close>

fun task_reg_call :: "'e svc_task \<Rightarrow> ('e, 'cb) service \<Rightarrow> ('e, 'cb) reg_call" where
  "task_reg_call (Task_add e) s = Reg_add e"
| "task_reg_call (Task_update e) s = Reg_update e"
| "task_reg_call (Task_del e) s = Reg_del e"
| "task_reg_call (Task_get_all vt) s = Reg_get_all (s_vectors s vt)"
| "task_reg_call Task_trigger s = Reg_trigger"
| "task_reg_call Task_stop_service s = Reg_clear"
| "task_reg_call (Task_timeout err) s = Reg_timeout"

fun task_control_part :: "'e svc_task \<Rightarrow> 'e list \<Rightarrow> ('e, 'cb) service \<Rightarrow> ('e, 'cb) service" where
  "task_control_part (Task_get_all vt) xs s = s\<lparr>s_vectors := (s_vectors s)(vt := xs), s_get_element_flag := True\<rparr>"
| "task_control_part Task_stop_service xs s = s\<lparr>s_io_stopped := True\<rparr>"
| "task_control_part (Task_timeout err) xs s = async_wait (set_expiry (s_expires_at s + HEART_BEAT_TICKS) s)"
| "task_control_part t xs s = s"

lemma run_task_parts:
  "run_task construct now t s = do {
     (_, xs, m) \<leftarrow> mgr_do construct now (task_reg_call t s) (s_manager s);
     Some ((task_control_part t xs s)\<lparr>s_manager := m\<rparr>)
   }"
  by (cases t) (simp_all add: via_manager_def svc_get_all_i_def svc_trigger_i_def svc_stop_service_def
      svc_handle_timeout_def no_vector_def map_option_bind map_option_case set_expiry_def async_wait_def
      split: option.split Option.bind_split)

lemma thread_turn_parts:
  assumes "s_thread_runs s" and "s_tasks s = t # ts"
  shows "thread_turn construct now s = do {
     (_, xs, m) \<leftarrow> mgr_do construct now (task_reg_call t s) (s_manager s);
     let u = task_control_part t xs (s\<lparr>s_tasks := ts\<rparr>);
     Some (u\<lparr>s_manager := m, s_thread_runs := \<not> s_io_stopped u\<rparr>)
   }"
proof -
  have "task_reg_call t (s\<lparr>s_tasks := ts\<rparr>) = task_reg_call t s" by (cases t) simp_all
  then show ?thesis using assms
    by (cases "mgr_do construct now (task_reg_call t s) (s_manager s)") (auto simp: thread_turn_def run_task_parts Let_def)
qed

section \<open>The simulation\<close>

fun request_of :: "'e svc_task \<Rightarrow> 'e request" where
  "request_of (Task_add e) = Wants_in e"
| "request_of (Task_update e) = Beats e"
| "request_of (Task_del e) = Wants_out e"
| "request_of (Task_get_all vt) = Wants_all vt"
| "request_of Task_trigger = Wants_fired"
| "request_of Task_stop_service = Wants_end"
| "request_of (Task_timeout err) = Pass_due"

definition phase_of :: "('e, 'cb) service \<Rightarrow> phase" where
  "phase_of s = (if s_started s then if s_io_stopped s then Ended else Alive
     else if s_io_stopped s then Joined else Fresh)"

definition desk_of :: "('e, 'cb) service \<Rightarrow> ('e, 'cb) registry \<Rightarrow> ('e, 'cb) desk" where
  "desk_of s g = \<lparr>d_phase = phase_of s, d_requests = map request_of (s_tasks s), d_registry = g,
     d_alarm = (s_waits s = 1), d_due = s_expires_at s, d_flag = s_get_element_flag s, d_vectors = s_vectors s\<rparr>"

definition at_desk :: "('e, 'cb) service \<Rightarrow> ('e, 'cb) desk \<Rightarrow> bool" where
  "at_desk s d \<longleftrightarrow> (\<exists>g. represents (s_manager s) g \<and> d = desk_of s g) \<and> svc_ok s \<and> s_waits s \<le> 1"

lemma desk_of_sel [simp]:
  "d_phase (desk_of s g) = phase_of s" "d_requests (desk_of s g) = map request_of (s_tasks s)"
  "d_registry (desk_of s g) = g" "d_alarm (desk_of s g) = (s_waits s = 1)" "d_due (desk_of s g) = s_expires_at s"
  "d_flag (desk_of s g) = s_get_element_flag s" "d_vectors (desk_of s g) = s_vectors s"
  by (simp_all add: desk_of_def)

lemma phase_of_iff [simp]:
  "phase_of s = Alive \<longleftrightarrow> s_started s \<and> \<not> s_io_stopped s" "phase_of s = Ended \<longleftrightarrow> s_started s \<and> s_io_stopped s"
  "phase_of s = Fresh \<longleftrightarrow> \<not> s_started s \<and> \<not> s_io_stopped s" "phase_of s = Joined \<longleftrightarrow> \<not> s_started s \<and> s_io_stopped s"
  by (simp_all add: phase_of_def)

text \<open>At most one wait on the timer is outstanding.\<close>

lemma one_wait:
  assumes "svc_do construct now ev s = Some u" and "s_waits s \<le> 1"
  shows "s_waits u \<le> 1"
proof (cases ev)
  case Thread_turn
  with assms(1) obtain t ts v where t: "run_task construct now t (s\<lparr>s_tasks := ts\<rparr>) = Some v"
    "u = v\<lparr>s_thread_runs := \<not> s_io_stopped v\<rparr>"
    by (auto simp: thread_turn_def bind_eq_Some_conv split: if_splits list.splits)
  from task_control [OF t(1)] assms(2) t(2) show ?thesis
    by (cases t) (auto simp: control_def async_wait_def set_expiry_def)
next
  case (Set_callback_function f)
  with assms show ?thesis using set_config_control(1) [of f s] by (auto simp: control_def)
next
  case (Set_timeout flag t)
  with assms show ?thesis using set_config_control(2) [of flag t s] by (auto simp: control_def)
next
  case (Set_max_limit flag n)
  with assms show ?thesis using set_config_control(3) [of flag n s] by (auto simp: control_def)
qed (use assms in \<open>auto simp: svc_start_def post_ops svc_stop_end_def svc_get_all_end_def timer_turn_def set_expiry_def
  async_wait_def Let_def split: if_splits\<close>)

definition desk_sim :: "('e, 'cb) service option \<Rightarrow> ('e, 'cb) desk option \<Rightarrow> bool" where
  "desk_sim = rel_option (\<lambda>s d. \<exists>g. represents (s_manager s) g \<and> d = desk_of s g)"

lemma desk_sim_simps [simp]:
  "desk_sim None None" "desk_sim (Some s) (Some d) \<longleftrightarrow> (\<exists>g. represents (s_manager s) g \<and> d = desk_of s g)"
  by (simp_all add: desk_sim_def)

text \<open>A call of the manager against the registry.\<close>

lemma desk_call:
  assumes "represents (s_manager s) g" and "fresh_allocator construct" and "never_exhausted construct"
  obtains "mgr_do construct now c (s_manager s) = None" "reg_do False now c g = None"
  | r xs m h where "mgr_do construct now c (s_manager s) = Some (r, xs, m)" "reg_do False now c g = Some (r, xs, h)"
      "represents m h"
proof -
  from sim_call [OF assms(1,2), of now c] assms(3)
  have "same_result (mgr_do construct now c (s_manager s)) (reg_do False now c g)" by auto
  with that show thesis
    by (cases "mgr_do construct now c (s_manager s)"; cases "reg_do False now c g") (auto simp: same_result_def)
qed

lemma sim_turn:
  assumes "represents (s_manager s) g" and "svc_ok s" and "fresh_allocator construct" and "never_exhausted construct"
  shows "desk_sim (thread_turn construct now s) (desk_do now Thread_turn (desk_of s g))"
proof (cases "s_thread_runs s \<and> s_tasks s \<noteq> []")
  case True
  then have alive: "s_started s" "\<not> s_io_stopped s" "s_thread_runs s" using assms(2) by (simp_all add: svc_ok_def)
  from True obtain t ts where t: "s_tasks s = t # ts" by (cases "s_tasks s") auto
  have waits: "s_waits s = 0" if "t = Task_timeout err" for err
    using assms(2) alive(3) t that by (simp add: svc_ok_def passes_def)
  have desk: "desk_do now Thread_turn (desk_of s g) = serve now (request_of t) ((desk_of s g)\<lparr>d_requests := map request_of ts\<rparr>)"
    using t alive by simp
  show ?thesis unfolding desk thread_turn_parts [OF alive(3) t]
    by (cases rule: desk_call [OF assms(1,3,4), where now = now and c = "task_reg_call t s"]; cases t)
      (use alive waits in \<open>auto simp: consult_def desk_of_def phase_of_def emptied_def Let_def async_wait_def set_expiry_def
        HEART_BEAT_TICKS_def\<close>)
next
  case False
  then show ?thesis using assms(2) by (auto simp: thread_turn_def svc_ok_def split: list.split)
qed

lemma sim_event:
  assumes "at_desk s d" and "fresh_allocator construct" and "never_exhausted construct"
  shows "rel_option at_desk (svc_do construct now ev s) (desk_do now ev d)"
proof -
  obtain g where g: "represents (s_manager s) g" "d = desk_of s g" "svc_ok s" "s_waits s \<le> 1"
    using assms(1) by (auto simp: at_desk_def)
  have waits: "s_waits s = 0 \<or> s_waits s = 1" using g(4) by linarith
  note call = desk_call [OF g(1) assms(2,3), where now = now]
  have "desk_sim (svc_do construct now ev s) (desk_do now ev d)"
  proof (cases ev)
    case Thread_turn
    with sim_turn [OF g(1,3) assms(2,3), of now] g(2) show ?thesis by simp
  next
    case (Set_callback_function f)
    show ?thesis
      by (cases rule: call [where c = "Reg_set_callback f"])
        (use Set_callback_function g(1,2) in \<open>auto simp: svc_set_callback_function_def no_vector_def
          mgr_set_callback_function_def configure_def desk_of_def phase_of_def\<close>)
  next
    case (Set_timeout flag t)
    show ?thesis
      by (cases rule: call [where c = "Reg_set_timeout flag t"])
        (use Set_timeout g(1,2) in \<open>auto simp: svc_set_timeout_def no_vector_def mgr_set_timeout_def configure_def desk_of_def
          phase_of_def\<close>)
  next
    case (Set_max_limit flag n)
    show ?thesis
      by (cases rule: call [where c = "Reg_set_max_limit flag n"])
        (use Set_max_limit g(1,2) in \<open>auto simp: svc_set_max_limit_def no_vector_def mgr_set_max_limit_def configure_def
          desk_of_def phase_of_def\<close>)
  next
    case Start
    have "\<not> s_started s \<Longrightarrow> \<not> s_io_stopped s \<Longrightarrow> s_waits s = 0" using g(3) by (simp add: svc_ok_def passes_def)
    with Start g(1,2) waits show ?thesis
      by (auto simp: svc_start_def open_desk_def ask_def desk_of_def phase_of_def async_wait_def set_expiry_def Let_def
          HEART_BEAT_TICKS_def)
  next
    case Stop_end
    with g show ?thesis by (auto simp: svc_stop_end_def desk_of_def phase_of_def svc_ok_def)
  next
    case Timer_turn
    with g(1,2) waits show ?thesis by (auto simp: timer_turn_def ask_def desk_of_def phase_of_def post_def)
  qed (use g(1,2) in \<open>auto simp: post_ops ask_def desk_of_def phase_of_def svc_get_all_end_def\<close>)
  moreover have "svc_ok u \<and> s_waits u \<le> 1" if "svc_do construct now ev s = Some u" for u
    using svc_do_ok [OF g(3) that] one_wait [OF that g(4)] by blast
  ultimately show ?thesis
    by (cases "svc_do construct now ev s"; cases "desk_do now ev d") (auto simp: at_desk_def desk_sim_def)
qed

lemma sim_run:
  assumes "at_desk s d" and "fresh_allocator construct" and "never_exhausted construct"
  shows "rel_option at_desk (svc_run construct evs s) (desk_run evs d)"
  using assms(1)
proof (induction evs arbitrary: s d)
  case (Cons e evs)
  obtain now ev where e: "e = (now, ev)" by (cases e)
  from sim_event [OF Cons.prems assms(2,3), of now ev] show ?case
    by (cases "svc_do construct now ev s"; cases "desk_do now ev d") (auto simp: e Cons.IH)
qed simp

lemma init_at_desk: "at_desk (init_service vts b) (new_desk vts b)"
proof -
  have "new_desk vts b = desk_of (init_service vts b) init_registry"
    by (simp add: new_desk_def desk_of_def init_service_def phase_of_def)
  moreover have "svc_ok (init_service vts b)" by (simp add: svc_ok_def init_service_def passes_def)
  ultimately show ?thesis unfolding at_desk_def
    by (intro conjI exI [of _ init_registry]) (simp_all add: init_service_def init_represents)
qed

text \<open>C12: The service is the desk: from a new service on, under any interleaving of any operations of its clients, turns
  of its thread and ends of its timer, at any clock readings, the service and the desk are undefined (or block)
  together, or both defined, and then the service's tasks are the desk's requests, its flags the desk's phase,
  its thread runs while that is \<open>Alive\<close>, its timer the alarm, its vectors the desk's, and its manager represents the desk's registry.\<close>

theorem service_is_registry:
  assumes "fresh_allocator construct" and "never_exhausted construct"
  shows "rel_option (\<lambda>s d. \<exists>g. represents (s_manager s) g \<and> d = desk_of s g \<and> (s_thread_runs s \<longleftrightarrow> d_phase d = Alive))
    (svc_run construct evs (init_service vts b)) (desk_run evs (new_desk vts b))"
  by (rule option.rel_mono_strong [OF sim_run [OF init_at_desk assms]]) (auto simp: at_desk_def svc_ok_def)

section \<open>Services without a limit\<close>

text \<open>Registries in which no call is undefined: no limit, and times that do not overflow.\<close>

definition registry_safe :: "('e, 'cb) registry \<Rightarrow> bool" where
  "registry_safe g \<longleftrightarrow> \<not> g_max_limit_flag g \<and> (\<forall>d \<in> set (g_entries g). clock_ok (ed_time d))"

lemma expire_old_safe:
  assumes "\<forall>d \<in> set ds. clock_ok (ed_time d)"
  shows "\<exists>es rest. expire_old now t ds = Some (es, rest) \<and> set rest \<subseteq> set ds"
  using assms
proof (induction ds)
  case (Cons d ds)
  have "due_at now t (ed_time d) \<noteq> None"
    using Cons.prems uint_bounded [of t] by (auto simp: due_at_def clock_ok_def)
  with Cons show ?case by (cases "due_at now t (ed_time d)") auto
qed simp

lemma reg_do_safe:
  assumes "registry_safe g" and "clock_ok now" and "\<And>n. c \<noteq> Reg_set_max_limit True n"
  shows "\<exists>r xs g'. reg_do False now c g = Some (r, xs, g') \<and> registry_safe g'"
proof (cases c)
  case Reg_timeout
  obtain es rest where "expire_old now (g_timeout g) (rev (g_entries g)) = Some (es, rest)" "set rest \<subseteq> set (g_entries g)"
    using expire_old_safe [of "rev (g_entries g)" now "g_timeout g"] assms(1) by (auto simp: registry_safe_def)
  with Reg_timeout assms(1) show ?thesis by (auto simp: registry_safe_def reg_fire_def)
next
  case (Reg_set_max_limit flag n)
  with assms show ?thesis by (cases flag) (auto simp: registry_safe_def)
qed (use assms in \<open>auto simp: registry_safe_def reg_full_def reg_without_def reg_fire_def stamped_def\<close>)

text \<open>No client task sets a limit.\<close>

lemma task_reg_call_no_limit: "task_reg_call t s \<noteq> Reg_set_max_limit b n"
  by (cases t) simp_all

text \<open>Services whose manager represents such a registry: every turn that their thread has to take is
  defined, and every event keeps them such, unless it sets a limit.\<close>

definition safe_service :: "('e, 'cb) service \<Rightarrow> bool" where
  "safe_service s \<longleftrightarrow> (\<exists>g. represents (s_manager s) g \<and> registry_safe g)"

lemma safe_service_upd [simp]:
  "safe_service (s\<lparr>s_tasks := ts\<rparr>) = safe_service s" "safe_service (s\<lparr>s_get_element_flag := b\<rparr>) = safe_service s"
  "safe_service (post t s) = safe_service s"
  by (simp_all add: safe_service_def post_def)

lemma safe_init: "safe_service (init_service vts b)"
proof -
  have "registry_safe init_registry" by (simp add: registry_safe_def init_registry_def)
  then show ?thesis unfolding safe_service_def init_service_def using init_represents by auto
qed

text \<open>What a safe manager does is defined, and safe again.\<close>

lemma safe_call:
  assumes "represents m g" and "registry_safe g" and "fresh_allocator construct" and "never_exhausted construct"
    and "clock_ok now" and "\<And>n. c \<noteq> Reg_set_max_limit True n"
  obtains r xs m' g' where "mgr_do construct now c m = Some (r, xs, m')" "represents m' g'" "registry_safe g'"
proof -
  obtain r xs g' where g': "reg_do False now c g = Some (r, xs, g')" "registry_safe g'"
    using reg_do_safe [OF assms(2,5,6)] by blast
  from sim_call [OF assms(1,3), of now c] assms(4)
  have "same_result (mgr_do construct now c m) (reg_do False now c g)" by auto
  with g' that show thesis by (auto simp: same_result_def option_rel_Some2)
qed

lemma safe_turn:
  assumes "safe_service s" and "fresh_allocator construct" and "never_exhausted construct"
    and "s_thread_runs s" and "s_tasks s \<noteq> []" and "clock_ok now"
  shows "\<exists>u. thread_turn construct now s = Some u \<and> safe_service u"
proof -
  obtain g where g: "represents (s_manager s) g" "registry_safe g" using assms(1) by (auto simp: safe_service_def)
  obtain t ts where t: "s_tasks s = t # ts" using assms(5) by (cases "s_tasks s") auto
  obtain r xs m' g' where "mgr_do construct now (task_reg_call t s) (s_manager s) = Some (r, xs, m')"
    "represents m' g'" "registry_safe g'"
    by (rule safe_call [OF g assms(2,3,6) task_reg_call_no_limit])
  then show ?thesis unfolding thread_turn_parts [OF assms(4) t] by (auto simp: safe_service_def Let_def)
qed

lemma safe_set:
  assumes "represents m g" and "registry_safe g" and "fresh_allocator construct" and "never_exhausted construct"
    and "\<And>n. c \<noteq> Reg_set_max_limit True n" and "mgr_do construct 0 c m = Some (r, xs, m')"
  shows "\<exists>g'. represents m' g' \<and> registry_safe g'"
  using safe_call [OF assms(1-4) _ assms(5), of 0] assms(6) by (auto simp: clock_ok_def)

lemma safe_event:
  assumes "safe_service s" and "fresh_allocator construct" and "never_exhausted construct"
    and "svc_do construct now ev s = Some u" and "clock_ok now" and "\<And>n. ev \<noteq> Set_max_limit True n"
  shows "safe_service u"
proof -
  obtain g where g: "represents (s_manager s) g" "registry_safe g" using assms(1) by (auto simp: safe_service_def)
  note set = safe_set [OF g assms(2,3)]
  show ?thesis
  proof (cases ev)
    case Thread_turn
    with assms(4) have "thread_turn construct now s = Some u" "s_thread_runs s" "s_tasks s \<noteq> []"
      by (auto simp: thread_turn_def split: if_splits list.splits)
    with safe_turn [OF assms(1-3) _ _ assms(5)] show ?thesis by auto
  next
    case (Set_callback_function f)
    with assms(1,4) set [of "Reg_set_callback f"] show ?thesis
      by (auto simp: svc_set_callback_function_def no_vector_def mgr_set_callback_function_def safe_service_def split: if_splits)
  next
    case (Set_timeout flag t)
    with assms(1,4) set [of "Reg_set_timeout flag t"] show ?thesis
      by (auto simp: svc_set_timeout_def no_vector_def mgr_set_timeout_def safe_service_def split: if_splits)
  next
    case (Set_max_limit flag n)
    with assms(1,4,6) set [of "Reg_set_max_limit flag n"] show ?thesis
      by (auto simp: svc_set_max_limit_def no_vector_def mgr_set_max_limit_def safe_service_def split: if_splits)
  qed (use assms(1,4) in \<open>auto simp: safe_service_def svc_start_def post_ops svc_stop_end_def svc_get_all_end_def
    timer_turn_def set_expiry_def async_wait_def Let_def split: if_splits\<close>)
qed

lemma safe_run:
  assumes "safe_service s" and "fresh_allocator construct" and "never_exhausted construct"
    and "svc_run construct evs s = Some u"
    and "\<forall>(now, ev) \<in> set evs. clock_ok now \<and> (\<forall>n. ev \<noteq> Set_max_limit True n)"
  shows "safe_service u"
  using assms(1,4,5)
proof (induction evs arbitrary: s)
  case (Cons e evs)
  obtain now ev v where v: "e = (now, ev)" "svc_do construct now ev s = Some v" "svc_run construct evs v = Some u"
    using Cons.prems(2) by (cases e) (auto simp: bind_eq_Some_conv)
  have "safe_service v" using safe_event [OF Cons.prems(1) assms(2,3) v(2)] Cons.prems(3) v(1) by auto
  with Cons.IH [OF _ v(3)] Cons.prems(3) show ?case by auto
qed simp

text \<open>A service on which no limit is set makes progress: after any operations, clears, triggers, stops and restarts
  included, as long as the clock stays in the range of \<open>time_t\<close>, every turn that its thread has to
  take is defined. So the crash of a full manager that has been emptied is the only one.\<close>

theorem unlimited_service_progress:
  assumes "fresh_allocator construct" and "never_exhausted construct"
    and "svc_run construct evs (init_service vts b) = Some s"
    and "\<forall>(now, ev) \<in> set evs. clock_ok now \<and> (\<forall>n. ev \<noteq> Set_max_limit True n)"
    and "s_thread_runs s" and "s_tasks s \<noteq> []" and "clock_ok now"
  shows "\<exists>u. thread_turn construct now s = Some u"
  using safe_turn [OF safe_run [OF safe_init assms(1-4)] assms(1,2,5-7)] by blast

section \<open>Instances\<close>

text \<open>A service for one element is given one, told to time all out, and given another.\<close>

definition fatal_events :: "(int \<times> (nat, unit) svc_event) list" where
  "fatal_events = [(0, Set_max_limit True 1), (0, Start), (1, Async_add 7), (2, Trigger_all), (3, Async_add 8),
     (4, Thread_turn), (5, Thread_turn)]"

lemmas desk_runs = fatal_events_def new_desk_def init_registry_def configure_def open_desk_def ask_def consult_def
  reg_has_def reg_full_def reg_evict_def reg_fire_def stamped_def

theorem service_is_registry_witness:
  "svc_run lowest_free fatal_events (init_service (\<lambda>_. []) False) \<noteq> None
    \<and> svc_run lowest_free (fatal_events @ [(6, Thread_turn)]) (init_service (\<lambda>_. []) False) = None"
proof -
  have "desk_run fatal_events (new_desk (\<lambda>_. []) False) \<noteq> None"
    "desk_run (fatal_events @ [(6, Thread_turn)]) (new_desk (\<lambda>_. []) False) = None"
    by (simp_all add: desk_runs)
  with service_is_registry [OF lowest_free_ok, of fatal_events "\<lambda>_. []" False]
    service_is_registry [OF lowest_free_ok, of "fatal_events @ [(6, Thread_turn)]" "\<lambda>_. []" False]
  show ?thesis by (auto simp: option_rel_Some2)
qed

text \<open>The same without the limit.\<close>

theorem unlimited_service_progress_witness:
  "\<exists>s u. svc_run lowest_free (tl fatal_events) (init_service (\<lambda>_. []) False) = Some s
    \<and> thread_turn lowest_free 6 s = Some u"
proof -
  have "\<exists>d. desk_run (tl fatal_events) (new_desk (\<lambda>_. []) False) = Some d \<and> d_phase d = Alive \<and> d_requests d \<noteq> []"
    by (simp add: desk_runs)
  then obtain s where s: "svc_run lowest_free (tl fatal_events) (init_service (\<lambda>_. []) False) = Some s"
    "s_thread_runs s" "s_tasks s \<noteq> []"
    using sim_run [OF init_at_desk lowest_free_ok, of "tl fatal_events" "\<lambda>_. []" False]
    by (auto simp: option_rel_Some2 at_desk_def svc_ok_def)
  from unlimited_service_progress [OF lowest_free_ok s(1) _ s(2,3), of 6] s(1) show ?thesis
    by (auto simp: fatal_events_def clock_ok_def)
qed

end
