(* ===== verification/HeartBeatClients.thy ===== *)
theory HeartBeatClients
  imports HeartBeatServiceRegistry
begin

text \<open>
  The threads that call \<open>get_all_element_and_clear\<close> of the service of
  mylib/heart\_beat/heart\_beat\_service.h, statement by statement: each resets
  \<open>m_get_element_flag\<close>, posts its task and spins until it sees the flag set, and all of them
  share the one flag. Any number of such clients interleave with one another and with everything else
  that happens to the service: the other calls, the turns of its thread and the ends of its timer.

  Calls that do not overlap return only when they have been served. Of two calls that overlap one may
  return before it has been: then its vector is filled later, behind the back of the caller. On a
  service that makes progress all calls return.
\<close>

section \<open>Clients\<close>

text \<open>Where a client stands: outside of the call, past the reset of the flag, or in the loop.\<close>

datatype client_pc = Not_calling | Has_reset ptr | Spins ptr

record ('e, 'cb) clients =
  c_service :: "('e, 'cb) service"
  c_pc :: "nat \<Rightarrow> client_pc"

definition init_clients :: "(ptr \<Rightarrow> 'e list) \<Rightarrow> bool \<Rightarrow> ('e, 'cb) clients" where
  "init_clients vectors garbage = \<lparr>c_service = init_service vectors garbage, c_pc = (\<lambda>_. Not_calling)\<rparr>"

datatype ('e, 'cb) client_event =
    Reset_flag nat ptr
  | Post_get_all nat
  | See_flag nat
  | Service_event "('e, 'cb) svc_event"

text \<open>The statements of the call; a client that does not see the flag set stays in the loop. The
  call in one piece, which the service has too, is not an event of its own here.\<close>

definition reset_flag :: "nat \<Rightarrow> ptr \<Rightarrow> ('e, 'cb) clients \<Rightarrow> ('e, 'cb) clients option" where
  "reset_flag i vt c =
     (case c_pc c i of
        Not_calling \<Rightarrow> Some (c\<lparr>c_service := (c_service c)\<lparr>s_get_element_flag := False\<rparr>, c_pc := (c_pc c)(i := Has_reset vt)\<rparr>)
      | _ \<Rightarrow> None)"

definition post_get_all :: "nat \<Rightarrow> ('e, 'cb) clients \<Rightarrow> ('e, 'cb) clients option" where
  "post_get_all i c =
     (case c_pc c i of
        Has_reset vt \<Rightarrow> Some (c\<lparr>c_service := post (Task_get_all vt) (c_service c), c_pc := (c_pc c)(i := Spins vt)\<rparr>)
      | _ \<Rightarrow> None)"

definition see_flag :: "nat \<Rightarrow> ('e, 'cb) clients \<Rightarrow> ('e, 'cb) clients option" where
  "see_flag i c =
     (case c_pc c i of
        Spins vt \<Rightarrow> if s_get_element_flag (c_service c) then Some (c\<lparr>c_pc := (c_pc c)(i := Not_calling)\<rparr>) else None
      | _ \<Rightarrow> None)"

fun whole_call :: "('e, 'cb) svc_event \<Rightarrow> bool" where
  "whole_call (Get_all_begin vt) \<longleftrightarrow> True"
| "whole_call Get_all_end \<longleftrightarrow> True"
| "whole_call _ \<longleftrightarrow> False"

fun clients_do :: "'e allocator \<Rightarrow> int \<Rightarrow> ('e, 'cb) client_event \<Rightarrow> ('e, 'cb) clients
    \<Rightarrow> ('e, 'cb) clients option" where
  "clients_do construct now (Reset_flag i vt) c = reset_flag i vt c"
| "clients_do construct now (Post_get_all i) c = post_get_all i c"
| "clients_do construct now (See_flag i) c = see_flag i c"
| "clients_do construct now (Service_event ev) c =
     (if whole_call ev then None
      else do { s \<leftarrow> svc_do construct now ev (c_service c); Some (c\<lparr>c_service := s\<rparr>) })"

fun clients_run :: "'e allocator \<Rightarrow> (int \<times> ('e, 'cb) client_event) list \<Rightarrow> ('e, 'cb) clients
    \<Rightarrow> ('e, 'cb) clients option" where
  "clients_run construct [] c = Some c"
| "clients_run construct ((now, ev) # evs) c = do { c \<leftarrow> clients_do construct now ev c; clients_run construct evs c }"

lemma clients_run_append:
  "clients_run construct (xs @ ys) c = Option.bind (clients_run construct xs c) (clients_run construct ys)"
  by (induction construct xs c rule: clients_run.induct) (auto split: Option.bind_splits)

text \<open>Done without a pause, the first two statements are the beginning of the call in one piece, and
  the last is its end.\<close>

lemma statements_of_call:
  assumes "c_pc c i = Not_calling"
  shows "clients_run construct [(t1, Reset_flag i vt), (t2, Post_get_all i)] c
      = Some (c\<lparr>c_service := svc_get_all_begin vt (c_service c), c_pc := (c_pc c)(i := Spins vt)\<rparr>)"
  using assms by (simp add: reset_flag_def post_get_all_def svc_get_all_begin_def)

section \<open>What an event does to the flag, the vectors and the queued calls\<close>

fun is_get_all :: "'e svc_task \<Rightarrow> bool" where
  "is_get_all (Task_get_all vt) \<longleftrightarrow> True"
| "is_get_all _ \<longleftrightarrow> False"

definition gets :: "('e, 'cb) clients \<Rightarrow> 'e svc_task list" where
  "gets c = filter is_get_all (s_tasks (c_service c))"

abbreviation flag :: "('e, 'cb) clients \<Rightarrow> bool" where
  "flag c \<equiv> s_get_element_flag (c_service c)"

lemma filter_replicate_timeout [simp]: "filter is_get_all (replicate n (Task_timeout b)) = []"
  by simp

lemma calm_event:
  assumes "svc_do construct now ev s = Some u" and "\<not> whole_call ev" and "ev \<noteq> Thread_turn"
  shows "s_get_element_flag u = s_get_element_flag s" "s_vectors u = s_vectors s"
    "filter is_get_all (s_tasks u) = filter is_get_all (s_tasks s)"
  using assms by (cases ev; auto simp: svc_set_callback_function_def svc_set_timeout_def svc_set_max_limit_def
      svc_start_def post_ops svc_stop_end_def timer_turn_def set_expiry_def async_wait_def Let_def
      split: if_splits prod.splits)+

lemma turn_calm:
  assumes "thread_turn construct now s = Some u" and "s_tasks s = t # ts" and "\<not> is_get_all t"
  shows "s_get_element_flag u = s_get_element_flag s" "s_vectors u = s_vectors s"
    "filter is_get_all (s_tasks u) = filter is_get_all (s_tasks s)"
  using assms by (cases t; auto simp: thread_turn_def run_task_parts set_expiry_def async_wait_def bind_eq_Some_conv
      split: if_splits)+

lemma turn_get_all:
  assumes "thread_turn construct now s = Some u" and "s_tasks s = Task_get_all vt # ts"
  shows "\<exists>v. svc_get_all_i vt (s\<lparr>s_tasks := ts\<rparr>) = Some (0, v) \<and> s_vectors u = s_vectors v
    \<and> s_get_element_flag u \<and> s_tasks u = ts"
  using assms by (auto simp: thread_turn_def svc_get_all_i_def bind_eq_Some_conv split: if_splits)


section \<open>Calls that do not overlap\<close>

text \<open>No client resets the flag while another is in its call: \<open>k\<close> is the client that is in one.\<close>

fun serial_calls :: "nat option \<Rightarrow> (int \<times> ('e, 'cb) client_event) list \<Rightarrow> bool" where
  "serial_calls k [] \<longleftrightarrow> True"
| "serial_calls k ((now, Reset_flag i vt) # evs) \<longleftrightarrow> k = None \<and> serial_calls (Some i) evs"
| "serial_calls k ((now, See_flag i) # evs) \<longleftrightarrow> serial_calls None evs"
| "serial_calls k ((now, ev) # evs) \<longleftrightarrow> serial_calls k evs"

text \<open>The phases of a call that is alone: before it has been served, after, and no call.\<close>

definition unserved :: "nat \<Rightarrow> ptr \<Rightarrow> ('e, 'cb) clients \<Rightarrow> bool" where
  "unserved i vt c \<longleftrightarrow> \<not> flag c
     \<and> (c_pc c = (\<lambda>_. Not_calling)(i := Has_reset vt) \<and> gets c = []
        \<or> c_pc c = (\<lambda>_. Not_calling)(i := Spins vt) \<and> gets c = [Task_get_all vt])"

definition served :: "nat \<Rightarrow> ptr \<Rightarrow> ('e, 'cb) clients \<Rightarrow> bool" where
  "served i vt c \<longleftrightarrow> c_pc c = (\<lambda>_. Not_calling)(i := Spins vt) \<and> gets c = []"

definition idle :: "('e, 'cb) clients \<Rightarrow> bool" where
  "idle c \<longleftrightarrow> c_pc c = (\<lambda>_. Not_calling) \<and> gets c = []"

text \<open>What serves a call: the turn of the thread that runs its task.\<close>

definition serves :: "ptr \<Rightarrow> ('e, 'cb) clients \<Rightarrow> ('e, 'cb) clients \<Rightarrow> bool" where
  "serves vt c d \<longleftrightarrow> (\<exists>v. svc_get_all_i vt ((c_service c)\<lparr>s_tasks := tl (s_tasks (c_service c))\<rparr>) = Some (0, v)
     \<and> s_vectors (c_service d) = s_vectors v)"

lemma service_event:
  assumes "clients_do construct now (Service_event ev) c = Some d"
  obtains u where "svc_do construct now ev (c_service c) = Some u" "d = c\<lparr>c_service := u\<rparr>" "\<not> whole_call ev"
  using assms by (auto simp: bind_eq_Some_conv split: if_splits)

lemma calm_service_event:
  assumes "clients_do construct now (Service_event ev) c = Some d"
    and "ev = Thread_turn \<Longrightarrow> \<not> is_get_all (hd (s_tasks (c_service c)))"
  shows "flag d = flag c \<and> s_vectors (c_service d) = s_vectors (c_service c) \<and> gets d = gets c \<and> c_pc d = c_pc c"
proof -
  obtain u where u: "svc_do construct now ev (c_service c) = Some u" "d = c\<lparr>c_service := u\<rparr>" "\<not> whole_call ev"
    by (rule service_event [OF assms(1)])
  show ?thesis
  proof (cases "ev = Thread_turn")
    case True
    with u(1) have turn: "thread_turn construct now (c_service c) = Some u" by simp
    then obtain t ts where t: "s_tasks (c_service c) = t # ts"
      by (auto simp: thread_turn_def split: if_splits list.splits)
    with turn_calm [OF turn t] True assms(2) u(2) show ?thesis by (simp add: gets_def)
  next
    case False
    with calm_event [OF u(1,3)] u(2) show ?thesis by (simp add: gets_def)
  qed
qed

lemma no_gets_head: "gets c = [] \<Longrightarrow> thread_turn construct now (c_service c) = Some u \<Longrightarrow>
    \<not> is_get_all (hd (s_tasks (c_service c)))"
  by (auto simp: gets_def thread_turn_def split: if_splits list.splits)

lemma quiet_service_event:
  assumes "clients_do construct now (Service_event ev) c = Some d" and "gets c = []"
  shows "flag d = flag c \<and> s_vectors (c_service d) = s_vectors (c_service c) \<and> gets d = gets c \<and> c_pc d = c_pc c"
  using assms by (intro calm_service_event [OF assms(1)]) (auto elim!: service_event dest: no_gets_head simp del: clients_do.simps)

lemma idle_step:
  assumes "idle c" and "clients_do construct now ev c = Some d"
  shows "(case ev of Reset_flag i vt \<Rightarrow> unserved i vt d | _ \<Rightarrow> idle d)"
  using assms quiet_service_event [of construct now _ c d]
  by (cases ev) (auto simp: idle_def unserved_def reset_flag_def post_get_all_def see_flag_def gets_def
      simp del: clients_do.simps(4))

lemma served_step:
  assumes "served i vt c" and "clients_do construct now ev c = Some d" and "\<And>j w. ev \<noteq> Reset_flag j w"
  shows "s_vectors (c_service d) = s_vectors (c_service c) \<and> (if ev = See_flag i then idle d else served i vt d)"
  using assms quiet_service_event [of construct now _ c d]
  by (cases ev) (auto simp: idle_def served_def post_get_all_def see_flag_def gets_def
      simp del: clients_do.simps(4) split: if_splits)

lemma unserved_step:
  assumes "unserved i vt c" and "clients_do construct now ev c = Some d" and "\<And>j w. ev \<noteq> Reset_flag j w"
  shows "unserved i vt d \<or> ev = Service_event Thread_turn \<and> serves vt c d \<and> served i vt d"
proof (cases ev)
  case (Service_event sev)
  note do = assms(2) [unfolded Service_event]
  show ?thesis
  proof (cases "sev = Thread_turn \<and> is_get_all (hd (s_tasks (c_service c)))")
    case True
    obtain u where u: "thread_turn construct now (c_service c) = Some u" "d = c\<lparr>c_service := u\<rparr>"
      using service_event [OF do] True by auto
    then obtain w ts where ts: "s_tasks (c_service c) = Task_get_all w # ts"
      using True by (cases "hd (s_tasks (c_service c))") (auto simp: thread_turn_def split: if_splits list.splits)
    with assms(1) have w: "w = vt" "filter is_get_all ts = []" "c_pc c = (\<lambda>_. Not_calling)(i := Spins vt)"
      by (auto simp: unserved_def gets_def)
    from turn_get_all [OF u(1) ts] w ts u(2) True Service_event show ?thesis
      by (auto simp: serves_def served_def gets_def)
  next
    case False
    with calm_service_event [OF do] assms(1) show ?thesis by (auto simp: unserved_def)
  qed
qed (use assms in \<open>auto simp: unserved_def reset_flag_def post_get_all_def see_flag_def gets_def post_def
  split: if_splits client_pc.splits\<close>)


fun call_phase :: "nat option \<Rightarrow> ('e, 'cb) clients \<Rightarrow> bool" where
  "call_phase None c \<longleftrightarrow> idle c"
| "call_phase (Some i) c \<longleftrightarrow> (\<exists>vt. unserved i vt c \<or> served i vt c)"

lemma in_call_other: "unserved i vt c \<or> served i vt c \<Longrightarrow> j \<noteq> i \<Longrightarrow> see_flag j c = None"
  by (auto simp: unserved_def served_def see_flag_def)

lemma serial_step:
  assumes "call_phase k c" and "serial_calls k ((now, ev) # evs)" and "clients_do construct now ev c = Some d"
  shows "\<exists>k'. call_phase k' d \<and> serial_calls k' evs \<and> (\<forall>i. k = Some i \<longrightarrow> ev \<noteq> See_flag i \<longrightarrow> k' = Some i)"
proof (cases k)
  case None
  with idle_step [of c construct now ev d] assms show ?thesis
    by (cases ev) (force simp del: clients_do.simps(4))+
next
  case (Some i)
  then obtain vt where vt: "unserved i vt c \<or> served i vt c" using assms(1) by auto
  have no_reset: "ev \<noteq> Reset_flag j w" for j w using assms(2) Some by auto
  have sees: "j = i" if "ev = See_flag j" for j
    using in_call_other [OF vt, of j] assms(3) that by auto
  from vt have "if ev = See_flag i then idle d else unserved i vt d \<or> served i vt d"
  proof
    assume u: "unserved i vt c"
    then have "ev \<noteq> See_flag i" using assms(3) by (auto simp: unserved_def see_flag_def split: client_pc.splits if_splits)
    with unserved_step [OF u assms(3) no_reset] show ?thesis by auto
  next
    assume "served i vt c"
    from served_step [OF this assms(3) no_reset] show ?thesis by auto
  qed
  then show ?thesis using assms(2) Some no_reset sees
    by (cases ev) (auto split: if_splits intro: exI [where x = "Some i"] exI [where x = None])
qed

lemma serial_run:
  assumes "call_phase k c" and "serial_calls k (evs @ rest)" and "clients_run construct evs c = Some d"
  shows "\<exists>k'. call_phase k' d \<and> serial_calls k' rest"
  using assms
proof (induction evs arbitrary: k c)
  case (Cons e evs)
  obtain now ev u where e: "e = (now, ev)" "clients_do construct now ev c = Some u" "clients_run construct evs u = Some d"
    using Cons.prems(3) by (cases e) (auto simp: bind_eq_Some_conv)
  from serial_step [OF Cons.prems(1) _ e(2), of "evs @ rest"] Cons.prems(2) e(1) Cons.IH [OF _ _ e(3)] show ?case
    by (auto simp del: clients_do.simps)
qed auto

lemma served_run:
  assumes "served i vt c" and "serial_calls (Some i) (mid @ rest)" and "\<forall>t. (t, See_flag i) \<notin> set mid"
    and "clients_run construct mid c = Some d"
  shows "served i vt d \<and> s_vectors (c_service d) = s_vectors (c_service c)"
  using assms
proof (induction mid arbitrary: c)
  case (Cons e mid)
  obtain now ev u where e: "e = (now, ev)" "clients_do construct now ev c = Some u" "clients_run construct mid u = Some d"
    using Cons.prems(4) by (cases e) (auto simp: bind_eq_Some_conv)
  have ev: "ev \<noteq> See_flag i" "\<And>j w. ev \<noteq> Reset_flag j w" using Cons.prems(2,3) e(1) by auto
  have "call_phase (Some i) c" using Cons.prems(1) by auto
  from serial_step [OF this _ e(2), of "mid @ rest"] Cons.prems(2) e(1) ev(1)
  have "serial_calls (Some i) (mid @ rest)" by auto
  moreover from served_step [OF Cons.prems(1) e(2) ev(2)] ev(1)
  have "served i vt u \<and> s_vectors (c_service u) = s_vectors (c_service c)" by auto
  ultimately show ?case using Cons.IH [OF _ _ _ e(3)] Cons.prems(3) by auto
qed simp

lemma unserved_run:
  assumes "unserved i vt c" and "serial_calls (Some i) (mid @ rest)" and "\<forall>t. (t, See_flag i) \<notin> set mid"
    and "clients_run construct mid c = Some d"
  shows "unserved i vt d \<or> (\<exists>a now b u w. mid = a @ (now, Service_event Thread_turn) # b
    \<and> clients_run construct a c = Some u \<and> clients_do construct now (Service_event Thread_turn) u = Some w
    \<and> serves vt u w \<and> s_vectors (c_service d) = s_vectors (c_service w) \<and> served i vt d)"
  using assms
proof (induction mid arbitrary: c)
  case (Cons e mid)
  obtain now ev u where e: "e = (now, ev)" "clients_do construct now ev c = Some u" "clients_run construct mid u = Some d"
    using Cons.prems(4) by (cases e) (auto simp: bind_eq_Some_conv)
  have ev: "ev \<noteq> See_flag i" "\<And>j w. ev \<noteq> Reset_flag j w" using Cons.prems(2,3) e(1) by auto
  have "call_phase (Some i) c" using Cons.prems(1) by auto
  from serial_step [OF this _ e(2), of "mid @ rest"] Cons.prems(2) e(1) ev(1)
  have serial: "serial_calls (Some i) (mid @ rest)" by auto
  have none: "\<forall>t. (t, See_flag i) \<notin> set mid" using Cons.prems(3) by auto
  from unserved_step [OF Cons.prems(1) e(2) ev(2)] show ?case
  proof
    assume "unserved i vt u"
    from Cons.IH [OF this serial none e(3)] show ?thesis
    proof
      assume "\<exists>a t b v w. mid = a @ (t, Service_event Thread_turn) # b \<and> clients_run construct a u = Some v
        \<and> clients_do construct t (Service_event Thread_turn) v = Some w
        \<and> serves vt v w \<and> s_vectors (c_service d) = s_vectors (c_service w) \<and> served i vt d"
      then obtain a t b v w where "mid = a @ (t, Service_event Thread_turn) # b" "clients_run construct a u = Some v"
        "clients_do construct t (Service_event Thread_turn) v = Some w"
        "serves vt v w" "s_vectors (c_service d) = s_vectors (c_service w)" "served i vt d" by blast
      moreover from this(2) e(1,2) have "clients_run construct (e # a) c = Some v" by simp
      ultimately show ?thesis using append_Cons [of e a] by metis
    qed simp
  next
    assume s: "ev = Service_event Thread_turn \<and> serves vt c u \<and> served i vt u"
    then have "served i vt u" by blast
    from served_run [OF this serial none e(3)] show ?thesis using s e(1,2) by (intro disjI2 exI [where x = "[]"]) (auto simp del: clients_do.simps)
  qed
qed simp

text \<open>C15: As long as the calls of \<open>get_all_element_and_clear\<close> do not overlap, each returns only when it has
  been served: between its reset of the flag and its return the thread has run its task, nothing has written
  to any vector since, and so the caller finds in its vector exactly what that turn collected. Nothing else
  about the interleaving matters: other calls, turns and timers come at any time.\<close>

theorem exclusive_call_is_served:
  assumes "clients_run construct (evs @ (t0, Reset_flag i vt) # mid @ [(t1, See_flag i)]) (init_clients vts b) = Some d"
    and "serial_calls None (evs @ (t0, Reset_flag i vt) # mid @ [(t1, See_flag i)])"
    and "\<forall>t. (t, See_flag i) \<notin> set mid"
  shows "\<exists>a now z u v. mid = a @ (now, Service_event Thread_turn) # z
    \<and> clients_run construct (evs @ (t0, Reset_flag i vt) # a) (init_clients vts b) = Some u
    \<and> svc_get_all_i vt ((c_service u)\<lparr>s_tasks := tl (s_tasks (c_service u))\<rparr>) = Some (0, v)
    \<and> s_vectors (c_service d) = s_vectors v \<and> c_pc d i = Not_calling"
proof -
  let ?init = "init_clients vts b :: ('a, 'b) clients"
  obtain c e f where run: "clients_run construct evs ?init = Some c"
    "clients_do construct t0 (Reset_flag i vt) c = Some e" "clients_run construct mid e = Some f"
    "see_flag i f = Some d"
    using assms(1) by (auto simp: clients_run_append bind_eq_Some_conv)
  have "call_phase None ?init" by (simp add: idle_def init_clients_def gets_def init_service_def)
  from serial_run [OF this assms(2) run(1)] obtain k where k: "call_phase k c"
    "serial_calls k ((t0, Reset_flag i vt) # mid @ [(t1, See_flag i)])" by blast
  then have "k = None" and serial: "serial_calls (Some i) (mid @ [(t1, See_flag i)])" by auto
  with k(1) idle_step [OF _ run(2)] have "unserved i vt e" by simp
  from unserved_run [OF this serial assms(3) run(3)] obtain a now z u w where
    w: "mid = a @ (now, Service_event Thread_turn) # z" "clients_run construct a e = Some u" "serves vt u w"
      "s_vectors (c_service f) = s_vectors (c_service w)"
    using run(4) by (auto simp: unserved_def see_flag_def)
  have d: "s_vectors (c_service d) = s_vectors (c_service f)" "c_pc d i = Not_calling"
    using run(4) by (auto simp: see_flag_def split: client_pc.splits if_splits)
  have "clients_run construct (evs @ (t0, Reset_flag i vt) # a) ?init = Some u"
    using run(1,2) w(2) by (simp add: clients_run_append)
  with w(1,3,4) d show ?thesis by (auto simp: serves_def)
qed


section \<open>All calls return\<close>

text \<open>As long as a client spins in vain, a task that will set the flag is queued, or a client has yet to
  post one.\<close>

definition clients_ok :: "('e, 'cb) clients \<Rightarrow> bool" where
  "clients_ok c \<longleftrightarrow> svc_ok (c_service c) \<and> safe_service (c_service c)
     \<and> (flag c \<or> gets c \<noteq> [] \<or> (\<exists>i vt. c_pc c i = Has_reset vt) \<or> (\<forall>i. c_pc c i = Not_calling))"

fun bounded_event :: "int \<times> ('e, 'cb) client_event \<Rightarrow> bool" where
  "bounded_event (now, Service_event (Set_max_limit True n)) \<longleftrightarrow> False"
| "bounded_event (now, ev) \<longleftrightarrow> clock_ok now"

lemma bounded_service_event:
  "bounded_event (now, Service_event ev) \<Longrightarrow> clock_ok now \<and> (\<forall>n. ev \<noteq> Set_max_limit True n)"
  by (cases "(now, Service_event ev)" rule: bounded_event.cases) auto

lemma turn_sets_flag:
  assumes "thread_turn construct now s = Some u"
  shows "s_get_element_flag s \<or> filter is_get_all (s_tasks s) \<noteq> [] \<Longrightarrow>
    s_get_element_flag u \<or> filter is_get_all (s_tasks u) \<noteq> []"
proof -
  obtain t ts where t: "s_tasks s = t # ts" using assms by (auto simp: thread_turn_def split: if_splits list.splits)
  assume "s_get_element_flag s \<or> filter is_get_all (s_tasks s) \<noteq> []"
  with turn_calm [OF assms t] turn_get_all [OF assms, of _ ts] t show ?thesis
    by (cases t) auto
qed

lemma clients_do_ok:
  assumes "clients_ok c" and "clients_do construct now ev c = Some d" and "bounded_event (now, ev)"
    and "fresh_allocator construct" and "never_exhausted construct"
  shows "clients_ok d"
proof (cases ev)
  case (Service_event sev)
  obtain u where u: "svc_do construct now sev (c_service c) = Some u" "d = c\<lparr>c_service := u\<rparr>" "\<not> whole_call sev"
    using service_event [of construct now sev c d] assms(2) Service_event by auto
  have "svc_ok u" "safe_service u"
    using svc_do_ok [OF _ u(1)] safe_event [OF _ assms(4,5) u(1)] assms(1,3) bounded_service_event [of now sev] Service_event
    by (auto simp: clients_ok_def)
  moreover have "flag d \<or> gets d \<noteq> []" if "flag c \<or> gets c \<noteq> []"
    using that turn_sets_flag [of construct now "c_service c" u] calm_event [OF u(1,3)] u(1,2)
    by (cases "sev = Thread_turn") (auto simp: gets_def)
  ultimately show ?thesis using assms(1) u(2) by (auto simp: clients_ok_def)
next
  case (Reset_flag i vt)
  with assms show ?thesis
    by (auto simp: clients_ok_def reset_flag_def split: client_pc.splits)
next
  case (Post_get_all i)
  with assms show ?thesis
    by (auto simp: clients_ok_def post_get_all_def gets_def post_def split: client_pc.splits intro!: post_ok [unfolded post_def]
        safe_service_upd(3) [THEN iffD2, unfolded post_def])
next
  case (See_flag i)
  with assms show ?thesis
    by (auto simp: clients_ok_def see_flag_def split: client_pc.splits if_splits)
qed

lemma clients_run_ok:
  assumes "clients_ok c" and "clients_run construct evs c = Some d" and "\<forall>e \<in> set evs. bounded_event e"
    and "fresh_allocator construct" and "never_exhausted construct"
  shows "clients_ok d"
  using assms(1-3)
proof (induction evs arbitrary: c)
  case (Cons e evs)
  obtain now ev u where e: "e = (now, ev)" "clients_do construct now ev c = Some u" "clients_run construct evs u = Some d"
    using Cons.prems(2) by (cases e) (auto simp: bind_eq_Some_conv)
  have "clients_ok u" using clients_do_ok [OF Cons.prems(1) e(2) _ assms(4,5)] Cons.prems(3) e(1) by simp
  with Cons.IH [OF _ e(3)] Cons.prems(3) show ?case by simp
qed simp

lemma init_clients_ok: "clients_ok (init_clients vts b)"
  by (simp add: clients_ok_def init_clients_def safe_init)
    (simp add: svc_ok_def passes_def init_service_def)

definition client_turns :: "nat \<Rightarrow> int \<Rightarrow> (int \<times> ('e, 'cb) client_event) list" where
  "client_turns n now = replicate n (now, Service_event Thread_turn)"

lemma client_turns_run:
  "clients_run construct (client_turns n now) c
     = map_option (\<lambda>s. c\<lparr>c_service := s\<rparr>) (svc_run construct (turns n now) (c_service c))"
proof (induction n arbitrary: c)
  case (Suc n)
  then show ?case
    by (cases "thread_turn construct now (c_service c)") (simp_all add: client_turns_def turns_def)
qed (simp add: client_turns_def turns_def)

lemma turn_takes_head:
  assumes "svc_ok s" and "thread_turn construct now s = Some u" and "s_tasks s = t # ts" and "t \<noteq> Task_stop_service"
  shows "s_tasks u = ts" "s_thread_runs u"
proof -
  have runs: "s_thread_runs s" using assms(2) by (auto simp: thread_turn_def split: if_splits)
  with assms(1,3) have "is_timeout t \<Longrightarrow> s_waits s = 0" "\<not> s_io_stopped s"
    by (simp_all add: svc_ok_def passes_def)
  with assms(2-4) runs show "s_tasks u = ts" "s_thread_runs u"
    by (cases t; auto simp: thread_turn_def run_task_parts set_expiry_def async_wait_def bind_eq_Some_conv)+
qed

lemma turns_drain:
  assumes "svc_ok s" and "safe_service s" and "s_thread_runs s" and "Task_stop_service \<notin> set (s_tasks s)"
    and "clock_ok now" and "fresh_allocator construct" and "never_exhausted construct"
  shows "\<exists>u. svc_run construct (turns (length (s_tasks s)) now) s = Some u \<and> s_tasks u = [] \<and> s_thread_runs u
    \<and> (s_get_element_flag s \<or> filter is_get_all (s_tasks s) \<noteq> [] \<longrightarrow> s_get_element_flag u)"
  using assms(1-4)
proof (induction "s_tasks s" arbitrary: s)
  case Nil
  then show ?case by (auto simp: turns_def)
next
  case (Cons t ts)
  have "s_tasks s \<noteq> []" using Cons.hyps(2) by force
  then obtain v where v: "thread_turn construct now s = Some v"
    using safe_turn [OF Cons.prems(2) assms(6,7) Cons.prems(3) _ assms(5)] by blast
  have no_stop: "t \<noteq> Task_stop_service" "Task_stop_service \<notin> set ts"
    using Cons.prems(4) by (auto simp flip: Cons.hyps(2))
  from no_stop(1) have v': "s_tasks v = ts" "s_thread_runs v" "svc_ok v" "safe_service v"
    using turn_takes_head [OF Cons.prems(1) v Cons.hyps(2) [symmetric]] thread_turn_ok [OF Cons.prems(1) v]
      safe_event [OF Cons.prems(2) assms(6,7), of now Thread_turn v] v assms(5) Cons.prems(4) Cons.hyps(2) by auto
  from Cons.hyps(1) [OF v'(1) [symmetric] v'(3,4,2)] v'(1) no_stop(2) obtain u where
    "svc_run construct (turns (length ts) now) v = Some u" "s_tasks u = []" "s_thread_runs u"
    "s_get_element_flag v \<or> filter is_get_all ts \<noteq> [] \<longrightarrow> s_get_element_flag u" by auto
  moreover have "svc_run construct (turns (length (s_tasks s)) now) s = svc_run construct (turns (length ts) now) v"
    using v by (simp add: turns_def flip: Cons.hyps(2))
  ultimately show ?case using turn_sets_flag [OF v] v'(1) by auto
qed

text \<open>C22: Calls of \<open>get_all_element_and_clear\<close> return, however many there are and however they overlap,
  among one another and with everything else: in every state in which the thread runs, is not about to
  stop and no client is between its reset and its post, once the thread has run what is queued, every client
  that spins sees the flag set. The service has no limit, the clock stays in the range of \<open>time_t\<close>.\<close>

theorem all_calls_return:
  assumes "fresh_allocator construct" and "never_exhausted construct"
    and "clients_run construct evs (init_clients vts b) = Some c" and "\<forall>e \<in> set evs. bounded_event e"
    and "s_thread_runs (c_service c)" and "Task_stop_service \<notin> set (s_tasks (c_service c))"
    and "\<And>i vt. c_pc c i \<noteq> Has_reset vt" and "clock_ok now"
  shows "\<exists>d. clients_run construct (client_turns (length (s_tasks (c_service c))) now) c = Some d
    \<and> s_tasks (c_service d) = []
    \<and> (\<forall>i vt. c_pc c i = Spins vt \<longrightarrow> see_flag i d = Some (d\<lparr>c_pc := (c_pc c)(i := Not_calling)\<rparr>))"
proof -
  have ok: "clients_ok c" by (rule clients_run_ok [OF init_clients_ok assms(3,4,1,2)])
  then obtain u where u: "svc_run construct (turns (length (s_tasks (c_service c))) now) (c_service c) = Some u"
    "s_tasks u = []" "flag c \<or> gets c \<noteq> [] \<longrightarrow> s_get_element_flag u"
    using turns_drain [OF _ _ assms(5,6,8,1,2)] by (auto simp: clients_ok_def gets_def)
  have "flag c \<or> gets c \<noteq> []" if "c_pc c i = Spins vt" for i vt
    using ok assms(7) that by (auto simp: clients_ok_def)
  with u show ?thesis by (auto simp: client_turns_run see_flag_def)
qed


section \<open>Calls that overlap\<close>

text \<open>Two clients call at the same time, and an element is added between their posts.\<close>

definition overlap :: "int \<Rightarrow> nat \<Rightarrow> ptr \<Rightarrow> nat \<Rightarrow> ptr \<Rightarrow> 'e \<Rightarrow> (int \<times> ('e, 'cb) client_event) list" where
  "overlap now i a j b x = map (Pair now) [Reset_flag i a, Reset_flag j b, Post_get_all i,
     Service_event (Async_add x), Post_get_all j, Service_event Thread_turn, See_flag j]"

lemma desk_overlap:
  assumes "d_phase d = Alive" and "d_requests d = [Wants_all a, Wants_in x, Wants_all b]"
    and "registry_safe (d_registry d)" and "a \<noteq> b"
  shows "\<exists>d' d''. desk_run (turns 1 now) d = Some d' \<and> desk_run (turns 2 now) d' = Some d''
    \<and> d_flag d' \<and> d_vectors d' b = d_vectors d b \<and> d_vectors d'' b = d_vectors d b @ [x]"
  using assms
  by (simp add: turns_def numeral_2_eq_2 consult_def emptied_def reg_has_def reg_full_def registry_safe_def stamped_def)

text \<open>C38: Overlapping calls are not safe: on any service that runs, without a limit and with nothing queued, the call of
  one of two clients may return before it has been served, with its vector as it was; the thread has
  its task still to run, and then writes into the vector of a caller that has gone on.\<close>

theorem overlapping_call_returns_unserved:
  assumes "fresh_allocator construct" and "never_exhausted construct"
    and "clients_run construct evs (init_clients vts garbage) = Some c" and "\<forall>e \<in> set evs. bounded_event e"
    and "s_thread_runs (c_service c)" and "s_tasks (c_service c) = []"
    and "c_pc c i = Not_calling" and "c_pc c j = Not_calling" and "i \<noteq> j" and "a \<noteq> b"
  shows "\<exists>d e. clients_run construct (overlap now i a j b x) c = Some d
    \<and> c_pc d j = Not_calling \<and> s_vectors (c_service d) b = s_vectors (c_service c) b
    \<and> clients_run construct (client_turns 2 now) d = Some e
    \<and> c_pc e j = Not_calling \<and> s_vectors (c_service e) b = s_vectors (c_service c) b @ [x]"
proof -
  have "clients_ok c" by (rule clients_run_ok [OF init_clients_ok assms(3,4,1,2)])
  then obtain g where g: "represents (s_manager (c_service c)) g" "registry_safe g"
    and live: "s_started (c_service c)" "\<not> s_io_stopped (c_service c)" and ok: "svc_ok (c_service c)"
    and waits: "s_waits (c_service c) \<le> 1"
    using assms(5) by (auto simp: clients_ok_def safe_service_def svc_ok_def passes_def)
  let ?s = "(c_service c)\<lparr>s_get_element_flag := False, s_tasks := [Task_get_all a, Task_add x, Task_get_all b]\<rparr>"
  let ?c = "c\<lparr>c_service := ?s, c_pc := (c_pc c)(i := Spins a, j := Spins b)\<rparr>"
  have nil: "clients_run construct [] = Some" by (rule ext) simp
  have posts: "clients_run construct (overlap now i a j b x) c = Option.bind (clients_run construct (client_turns 1 now) ?c) (see_flag j)"
    using assms(6-9) by (simp add: overlap_def client_turns_def reset_flag_def post_get_all_def async_add_element_def post_def
        fun_upd_twist bind_assoc cong: option.case_cong) (simp add: fun_upd_twist fun_upd_def nil)
  have "svc_ok ?s" using ok assms(6) by (simp add: svc_ok_def passes_def)
  then have sim: "at_desk ?s (desk_of ?s g)" unfolding at_desk_def using g(1) waits by (intro conjI exI [of _ g]) simp_all
  obtain d1 d2 where reg: "desk_run (turns 1 now) (desk_of ?s g) = Some d1" "desk_run (turns 2 now) d1 = Some d2" "d_flag d1"
    "d_vectors d1 b = s_vectors (c_service c) b" "d_vectors d2 b = s_vectors (c_service c) b @ [x]"
    using desk_overlap [of "desk_of ?s g" a x b now] g(2) assms(10) live by auto
  obtain u where u: "svc_run construct (turns 1 now) ?s = Some u" "at_desk u d1"
    using sim_run [OF sim assms(1,2), of "turns 1 now"] reg(1) by (auto simp: option_rel_Some2)
  obtain w where w: "svc_run construct (turns 2 now) u = Some w" "at_desk w d2"
    using sim_run [OF u(2) assms(1,2), of "turns 2 now"] reg(2) by (auto simp: option_rel_Some2)
  have at: "s_get_element_flag u = d_flag d1" "s_vectors u b = d_vectors d1 b" "s_vectors w b = d_vectors d2 b"
    using u(2) w(2) by (auto simp: at_desk_def)
  let ?d = "?c\<lparr>c_service := u, c_pc := (c_pc c)(i := Spins a, j := Not_calling)\<rparr>"
  have "clients_run construct (overlap now i a j b x) c = Some ?d"
    using posts u(1) at(1) reg(3) by (simp add: client_turns_run see_flag_def)
  moreover have "clients_run construct (client_turns 2 now) ?d = Some (?d\<lparr>c_service := w\<rparr>)"
    using w(1) by (simp add: client_turns_run)
  ultimately show ?thesis using reg(4,5) at(2,3) by auto
qed


section \<open>Instances\<close>

text \<open>A service that has been started at time 0 and given an element, and a client that calls.\<close>

definition started_events :: "(int \<times> (nat, unit) client_event) list" where
  "started_events = [(0, Service_event Start)]"

definition started_clients :: "(nat, unit) clients" where
  "started_clients = \<lparr>c_service = snd (svc_start 0 (init_service (\<lambda>_. []) False)), c_pc = (\<lambda>_. Not_calling)\<rparr>"

lemma started_run:
  "clients_run lowest_free started_events (init_clients (\<lambda>_. []) False) = Some started_clients"
  by (simp add: started_events_def started_clients_def init_clients_def)

lemma started_facts [simp]:
  "s_thread_runs (c_service started_clients)" "s_tasks (c_service started_clients) = []"
  "c_pc started_clients i = Not_calling"
  by (simp_all add: started_clients_def svc_start_def init_service_def set_expiry_def async_wait_def Let_def)

lemma started_bounded: "\<forall>e \<in> set started_events. bounded_event e"
  by (simp add: started_events_def clock_ok_def)

definition calling_clients :: "(nat, unit) clients" where
  "calling_clients = \<lparr>c_service = post (Task_get_all 3) (post (Task_add 7)
     ((c_service started_clients)\<lparr>s_get_element_flag := False\<rparr>)), c_pc = (\<lambda>_. Not_calling)(0 := Spins 3)\<rparr>"

lemma calling_run:
  "clients_run lowest_free [(1, Reset_flag 0 3), (1, Service_event (Async_add 7)), (1, Post_get_all 0)] started_clients
     = Some calling_clients"
  by (simp add: reset_flag_def post_get_all_def async_add_element_def calling_clients_def)
    (simp add: started_clients_def)

lemma calling_events:
  "clients_run lowest_free (started_events @ [(1, Reset_flag 0 3), (1, Service_event (Async_add 7)), (1, Post_get_all 0)])
     (init_clients (\<lambda>_. []) False) = Some calling_clients"
  by (simp add: clients_run_append started_run calling_run del: clients_run.simps)

lemma calling_facts [simp]:
  "s_thread_runs (c_service calling_clients)" "s_tasks (c_service calling_clients) = [Task_add 7, Task_get_all 3]"
  "c_pc calling_clients = (\<lambda>_. Not_calling)(0 := Spins 3)"
  by (simp_all add: calling_clients_def post_def)

theorem all_calls_return_witness:
  "\<exists>d. clients_run lowest_free (client_turns 2 5) calling_clients = Some d \<and> see_flag 0 d \<noteq> None"
proof -
  have "c_pc calling_clients i \<noteq> Has_reset vt" for i vt by simp
  from all_calls_return [OF lowest_free_ok calling_events _ _ _ this, of 5] started_bounded show ?thesis
    by (fastforce simp: clock_ok_def numeral_2_eq_2)
qed

theorem exclusive_call_is_served_witness:
  "\<exists>d (u :: (nat, unit) clients) v. clients_run lowest_free (started_events @ (1, Reset_flag 0 3) # [(1, Service_event (Async_add 7)),
        (1, Post_get_all 0), (2, Service_event Thread_turn), (3, Service_event Thread_turn)] @ [(4, See_flag 0)])
      (init_clients (\<lambda>_. []) False) = Some d
    \<and> svc_get_all_i 3 ((c_service u)\<lparr>s_tasks := tl (s_tasks (c_service u))\<rparr>) = Some (0, v)
    \<and> s_vectors (c_service d) = s_vectors v"
proof -
  let ?mid = "[(1, Service_event (Async_add 7)), (1, Post_get_all 0), (2, Service_event Thread_turn),
    (3, Service_event Thread_turn)]"
  let ?evs = "started_events @ (1, Reset_flag 0 3) # ?mid @ [(4, See_flag 0)]"
  have ok: "clients_ok calling_clients"
    by (rule clients_run_ok [OF init_clients_ok calling_events _ lowest_free_ok])
      (use started_bounded in \<open>auto simp: clock_ok_def\<close>)
  let ?s = "c_service calling_clients"
  obtain u where u: "thread_turn lowest_free 2 ?s = Some u"
    using safe_turn [OF _ lowest_free_ok, of ?s 2] ok by (auto simp: clients_ok_def clock_ok_def)
  have v: "s_tasks u = [Task_get_all 3]" "s_thread_runs u" "safe_service u"
    using turn_takes_head [OF _ u, of "Task_add 7" "[Task_get_all 3]"] ok
      safe_event [OF _ lowest_free_ok, of ?s 2 Thread_turn u] u by (auto simp: clients_ok_def clock_ok_def)
  obtain w where w: "thread_turn lowest_free 3 u = Some w"
    using safe_turn [OF v(3) lowest_free_ok v(2), of 3] v(1) by (auto simp: clock_ok_def)
  from turn_get_all [OF w v(1)] have "s_get_element_flag w" by blast
  with u w have "\<exists>d. clients_run lowest_free [(2, Service_event Thread_turn), (3, Service_event Thread_turn), (4, See_flag 0)]
      calling_clients = Some d" by (auto simp: see_flag_def)
  then obtain d where d: "clients_run lowest_free ?evs (init_clients (\<lambda>_. []) False) = Some d"
    using calling_events clients_run_append [of lowest_free _ "[(2, Service_event Thread_turn), (3, Service_event Thread_turn), (4, See_flag 0)]"]
    by (metis append.assoc append_Cons append_Nil bind.bind_lunit)
  have "serial_calls None ?evs" "\<forall>t. (t, See_flag 0) \<notin> set ?mid" by (simp_all add: started_events_def)
  from exclusive_call_is_served [OF d this] show ?thesis
    by (elim exE conjE) (intro exI conjI, rule d, assumption+)
qed

theorem overlapping_call_returns_unserved_witness:
  "\<exists>d e. clients_run lowest_free (overlap 5 0 3 1 4 7) started_clients = Some d \<and> c_pc d 1 = Not_calling
    \<and> s_vectors (c_service d) 4 = [] \<and> clients_run lowest_free (client_turns 2 5) d = Some e
    \<and> s_vectors (c_service e) 4 = [7]"
proof -
  have "s_vectors (c_service started_clients) 4 = []"
    by (simp add: started_clients_def svc_start_def init_service_def set_expiry_def async_wait_def Let_def)
  then show ?thesis
    using overlapping_call_returns_unserved [OF lowest_free_ok started_run started_bounded, of 0 1 3 4 5 7] by auto
qed

end
