(* ===== verification/ConnMonitor.thy ===== *)
theory ConnMonitor
  imports HeartBeatService
begin

text \<open>
  The connection monitor \<open>rpc_conn_monitor_t\<close> of mylib/rpc/rpc\_conn\_monitor.h and
  rpc\_conn\_monitor.cpp: a heart beat service whose elements are connections and whose callback closes a
  connection.

  The callback runs on the thread of the service. Its calls of \<open>close\<close> are logged in
  \<open>mon_closed\<close>. The monitor calls the service by names (\<open>asyn_add_element\<close> and so on) that
  the service does not have; they are the parameter \<open>asyn\<close>, and \<open>meant_for_async\<close> says that
  they stand for the operations that it has.
\<close>

record heart_beat_setting =
  hb_timeout_flag :: bool
  hb_timeout :: "32 word"
  hb_max_limit_flag :: bool
  hb_max_limit :: "64 word"

definition zero_setting :: heart_beat_setting where
  "zero_setting = \<lparr>hb_timeout_flag = False, hb_timeout = 0, hb_max_limit_flag = False, hb_max_limit = 0\<rparr>"

text \<open>The callback that \<open>start\<close> binds.\<close>

datatype monitor_callback = Bind_handle_timeout

record 'e conn_monitor =
  mon_started :: bool
  mon_service :: "('e, monitor_callback) service"
  mon_closed :: "'e list"

record 'e asyn_ops =
  asyn_add :: "'e \<Rightarrow> ('e, monitor_callback) service \<Rightarrow> ('e, monitor_callback) service"
  asyn_update :: "'e \<Rightarrow> ('e, monitor_callback) service \<Rightarrow> ('e, monitor_callback) service"
  asyn_del :: "'e \<Rightarrow> ('e, monitor_callback) service \<Rightarrow> ('e, monitor_callback) service"

definition meant_for_async :: "'e asyn_ops \<Rightarrow> bool" where
  "meant_for_async asyn \<longleftrightarrow> asyn_add asyn = async_add_element \<and> asyn_update asyn = async_update_element
     \<and> asyn_del asyn = async_del_element"

definition init_monitor :: "(ptr \<Rightarrow> 'e list) \<Rightarrow> bool \<Rightarrow> 'e conn_monitor" where
  "init_monitor vectors garbage =
     \<lparr>mon_started = False, mon_service = init_service vectors garbage, mon_closed = []\<rparr>"

section \<open>Operations\<close>

definition monitor_start :: "int \<Rightarrow> heart_beat_setting \<Rightarrow> 'e conn_monitor \<Rightarrow> int \<times> 'e conn_monitor" where
  "monitor_start now setting m =
     (if mon_started m then (0, m)
      else let s = mon_service m;
               (_, s) = svc_set_callback_function (Some Bind_handle_timeout) s;
               (_, s) = svc_set_timeout (hb_timeout_flag setting) (hb_timeout setting) s;
               (_, s) = svc_set_max_limit (hb_max_limit_flag setting) (hb_max_limit setting) s;
               (r, s) = svc_start now s
           in if r \<noteq> 0 then (-1, m\<lparr>mon_service := s\<rparr>)
              else (0, m\<lparr>mon_service := s, mon_started := True\<rparr>))"

definition monitor_close_all :: "'e conn_monitor \<Rightarrow> 'e conn_monitor" where
  "monitor_close_all m =
     (if \<not> mon_started m then m else m\<lparr>mon_service := svc_trigger_all_timeout (mon_service m)\<rparr>)"

definition monitor_stop :: "'e conn_monitor \<Rightarrow> int \<times> 'e conn_monitor" where
  "monitor_stop m = (if \<not> mon_started m then (0, m) else (0, (monitor_close_all m)\<lparr>mon_started := False\<rparr>))"

definition monitor_add :: "'e asyn_ops \<Rightarrow> 'e \<Rightarrow> 'e conn_monitor \<Rightarrow> 'e conn_monitor" where
  "monitor_add asyn e m =
     (if \<not> mon_started m then m else m\<lparr>mon_service := asyn_add asyn e (mon_service m)\<rparr>)"

definition monitor_update :: "'e asyn_ops \<Rightarrow> 'e \<Rightarrow> 'e conn_monitor \<Rightarrow> 'e conn_monitor" where
  "monitor_update asyn e m =
     (if \<not> mon_started m then m else m\<lparr>mon_service := asyn_update asyn e (mon_service m)\<rparr>)"

definition monitor_del :: "'e asyn_ops \<Rightarrow> 'e \<Rightarrow> 'e conn_monitor \<Rightarrow> 'e conn_monitor" where
  "monitor_del asyn e m =
     (if \<not> mon_started m then m else m\<lparr>mon_service := asyn_del asyn e (mon_service m)\<rparr>)"

definition monitor_handle_timeout :: "'e \<Rightarrow> 'e conn_monitor \<Rightarrow> 'e conn_monitor" where
  "monitor_handle_timeout e m = (if \<not> mon_started m then m else m\<lparr>mon_closed := mon_closed m @ [e]\<rparr>)"

definition start_monitor :: "int \<Rightarrow> heart_beat_setting option \<Rightarrow> 'e conn_monitor \<Rightarrow> 'e conn_monitor" where
  "start_monitor now heart m =
     (let setting = \<lparr>hb_timeout_flag = False, hb_timeout = 86400, hb_max_limit_flag = True, hb_max_limit = 50000\<rparr>;
          setting = (case heart of None \<Rightarrow> setting | Some h \<Rightarrow> h)
      in snd (monitor_start now setting m))"

definition stop_monitor :: "'e conn_monitor \<Rightarrow> 'e conn_monitor" where
  "stop_monitor m = snd (monitor_stop m)"

text \<open>The destructor, up to where that of the service, whose turn is next, waits for its thread. The thread runs on,
  and its callbacks still find the monitor.\<close>

definition destroy_service_begin :: "('e, 'cb) service \<Rightarrow> ('e, 'cb) service" where
  "destroy_service_begin s = svc_stop_begin s"

definition destroy_monitor :: "'e conn_monitor \<Rightarrow> 'e conn_monitor" where
  "destroy_monitor m = (let (_, m) = monitor_stop m in m\<lparr>mon_service := destroy_service_begin (mon_service m)\<rparr>)"

text \<open>A turn of the service's thread, with the callbacks that it makes.\<close>

definition monitor_turn :: "'e allocator \<Rightarrow> int \<Rightarrow> 'e conn_monitor \<Rightarrow> 'e conn_monitor option" where
  "monitor_turn construct now m = do {
     s \<leftarrow> thread_turn construct now (mon_service m);
     Some (fold (\<lambda>(f, e). monitor_handle_timeout e)
       (drop (length (m_invoked (s_manager (mon_service m)))) (m_invoked (s_manager s))) (m\<lparr>mon_service := s\<rparr>))
   }"

primrec monitor_turns :: "'e allocator \<Rightarrow> int \<Rightarrow> nat \<Rightarrow> 'e conn_monitor \<Rightarrow> 'e conn_monitor option" where
  "monitor_turns construct now 0 m = Some m"
| "monitor_turns construct now (Suc n) m = Option.bind (monitor_turn construct now m) (monitor_turns construct now n)"

inductive monitor_step :: "'e allocator \<Rightarrow> 'e asyn_ops \<Rightarrow> 'e conn_monitor \<Rightarrow> 'e conn_monitor \<Rightarrow> bool"
  for construct asyn where
  mon_start: "monitor_step construct asyn m (snd (monitor_start now setting m))"
| mon_stop: "monitor_step construct asyn m (snd (monitor_stop m))"
| mon_close_all: "monitor_step construct asyn m (monitor_close_all m)"
| mon_add: "monitor_step construct asyn m (monitor_add asyn e m)"
| mon_update: "monitor_step construct asyn m (monitor_update asyn e m)"
| mon_del: "monitor_step construct asyn m (monitor_del asyn e m)"
| mon_turn: "monitor_turn construct now m = Some m' \<Longrightarrow> monitor_step construct asyn m m'"
| mon_timer: "timer_turn now (mon_service m) = Some s \<Longrightarrow> monitor_step construct asyn m (m\<lparr>mon_service := s\<rparr>)"

section \<open>Callbacks are only added\<close>

text \<open>Whatever the state of the manager, also a broken one, an operation on it keeps its configuration and
  appends to the log of callbacks.\<close>

definition grows :: "('e, 'cb) mgr \<Rightarrow> ('e, 'cb) mgr \<Rightarrow> bool" where
  "grows m m' \<longleftrightarrow> (\<exists>es. effect m m' es)"

lemma grows_refl [simp]: "grows m m"
  by (auto simp: grows_def intro: effect_refl)

lemma grows_trans: "grows m1 m2 \<Longrightarrow> grows m2 m3 \<Longrightarrow> grows m1 m3"
  by (auto simp: grows_def intro: effect_trans)

lemma grows_upd [simp]:
  "grows m (m'\<lparr>m_elements := el\<rparr>) = grows m m'" "grows m (m'\<lparr>m_node_pool := h\<rparr>) = grows m m'"
  "grows m (m'\<lparr>m_element_count := k\<rparr>) = grows m m'" "grows m (set_busy h l m') = grows m m'"
  by (simp_all add: grows_def)

lemma grows_upd_left [simp]:
  "grows (m\<lparr>m_elements := el\<rparr>) m' = grows m m'" "grows (m\<lparr>m_node_pool := h\<rparr>) m' = grows m m'"
  by (simp_all add: grows_def effect_def same_config_def callbacks_def)

lemma grows_invoke: "grows m (invoke e m)"
  by (auto simp: grows_def intro: effect_invoke)

lemma grows_parts:
  "busy_pop_back m = Some (r, m1) \<Longrightarrow> grows m m1" "busy_pop_front m = Some (r, m1) \<Longrightarrow> grows m m1"
  "busy_push_front p m = Some (i, m1) \<Longrightarrow> grows m m1" "busy_erase p m = Some (i, m1) \<Longrightarrow> grows m m1"
  "pool_destroy p m = Some m1 \<Longrightarrow> grows m m1" "forget p e m = Some m1 \<Longrightarrow> grows m m1"
  by (auto simp: busy_pop_back_def busy_pop_front_def busy_push_front_def busy_erase_def pool_destroy_def
      forget_def bind_eq_Some_conv)

lemma grows_evict: "evict_oldest m = Some m1 \<Longrightarrow> grows m m1"
  by (auto simp: evict_oldest_def bind_eq_Some_conv dest!: grows_parts
      intro: grows_trans grows_trans [OF grows_invoke])

lemma grows_expire: "expire_loop now t m = Some y \<Longrightarrow> grows m (snd y)"
  by (rule expire_loop.raw_induct [where P = "\<lambda>now t m y. grows m (snd y)", rotated], assumption)
    (auto simp: bind_eq_Some_conv split: option.splits if_splits dest!: grows_parts,
      (meson grows_trans grows_invoke)+)

lemma grows_clear: "clear_loop m = Some m1 \<Longrightarrow> grows m m1"
  by (rule clear_loop.raw_induct [where P = grows, rotated], assumption)
    (auto simp: bind_eq_Some_conv split: option.splits dest!: grows_parts, meson grows_trans)

lemma grows_collect: "collect_loop vt m = Some y \<Longrightarrow> grows m (snd y)"
  by (rule collect_loop.raw_induct [where P = "\<lambda>vt m y. grows m (snd y)", rotated], assumption)
    (auto simp: bind_eq_Some_conv split: option.splits dest!: grows_parts, meson grows_trans)

lemma grows_trigger: "trigger_loop m = Some m1 \<Longrightarrow> grows m m1"
  by (rule trigger_loop.raw_induct [where P = grows, rotated], assumption)
    (auto simp: bind_eq_Some_conv split: option.splits dest!: grows_parts, meson grows_trans grows_invoke)

lemmas grows_loops = grows_expire grows_clear grows_collect grows_trigger

lemma grows_add: "mgr_add_element construct now e m = Some (r, m1) \<Longrightarrow> grows m m1"
  by (auto simp: mgr_add_element_def bind_eq_Some_conv split: if_splits option.splits
      dest!: grows_evict grows_parts, meson grows_trans)

lemma grows_update: "mgr_update_element now e m = Some (r, m1) \<Longrightarrow> grows m m1"
  by (auto simp: mgr_update_element_def bind_eq_Some_conv split: if_splits option.splits
      dest!: grows_parts intro: grows_trans)

lemma grows_del: "mgr_del_element e m = Some (r, m1) \<Longrightarrow> grows m m1"
  by (auto simp: mgr_del_element_def bind_eq_Some_conv split: if_splits option.splits
      dest!: grows_parts intro: grows_trans)

lemma grows_task:
  assumes "run_task construct now t s = Some u"
  shows "grows (s_manager s) (s_manager u)"
  using assms
  by (cases t) (auto simp: via_manager_def svc_get_all_i_def svc_trigger_i_def svc_stop_service_def
      svc_handle_timeout_def mgr_handle_timeout_def mgr_clear_element_def mgr_get_all_element_and_clear_def
      mgr_trigger_all_timeout_def set_expiry_def async_wait_def bind_eq_Some_conv split: if_splits
      dest!: grows_add grows_update grows_del grows_loops)

lemma grows_turn: "thread_turn construct now s = Some u \<Longrightarrow> grows (s_manager s) (s_manager u)"
  by (auto simp: thread_turn_def bind_eq_Some_conv split: if_splits list.splits dest!: grows_task)

section \<open>What the callbacks close\<close>

text \<open>The elements of the callbacks from position \<open>n\<close> of the log.\<close>

definition called_from :: "nat \<Rightarrow> ('e, 'cb) service \<Rightarrow> 'e list" where
  "called_from n s = map snd (drop n (m_invoked (s_manager s)))"

definition calls_made :: "('e, 'cb) service \<Rightarrow> nat" where
  "calls_made s = length (m_invoked (s_manager s))"

lemma called_from_turn:
  assumes "grows (s_manager s) (s_manager u)"
  shows "called_from n u = called_from n s @ called_from (max n (calls_made s)) u \<and> calls_made s \<le> calls_made u"
  using assms by (auto simp: grows_def effect_def called_from_def calls_made_def max_def)

lemma fold_handle_timeout:
  "fold (\<lambda>(f, e). monitor_handle_timeout e) cs m =
     (if mon_started m then m\<lparr>mon_closed := mon_closed m @ map snd cs\<rparr> else m)"
  by (induction cs arbitrary: m) (auto simp: monitor_handle_timeout_def)

lemma monitor_turn_closes:
  "monitor_turn construct now m = map_option (\<lambda>s. m\<lparr>mon_service := s, mon_closed := mon_closed m @
     (if mon_started m then called_from (calls_made (mon_service m)) s else [])\<rparr>) (thread_turn construct now (mon_service m))"
  by (auto simp: monitor_turn_def fold_handle_timeout called_from_def calls_made_def map_option_bind
      map_option_case split: option.split)

lemma monitor_turns_close:
  assumes "svc_run construct (turns n now) (mon_service m) = Some u"
  shows "monitor_turns construct now n m = Some (m\<lparr>mon_service := u, mon_closed := mon_closed m @
     (if mon_started m then called_from (calls_made (mon_service m)) u else [])\<rparr>)
     \<and> grows (s_manager (mon_service m)) (s_manager u)"
  using assms
proof (induction n arbitrary: m)
  case 0
  then show ?case by (simp add: turns_def called_from_def calls_made_def)
next
  case (Suc n)
  then obtain v where v: "thread_turn construct now (mon_service m) = Some v" "svc_run construct (turns n now) v = Some u"
    by (auto simp: turns_def bind_eq_Some_conv)
  let ?m = "m\<lparr>mon_service := v, mon_closed := mon_closed m @
     (if mon_started m then called_from (calls_made (mon_service m)) v else [])\<rparr>"
  have one: "monitor_turn construct now m = Some ?m" using v(1) by (simp add: monitor_turn_closes)
  note rest = Suc.IH [of ?m, simplified, OF v(2)]
  note g = grows_turn [OF v(1)]
  from called_from_turn [OF g] have le: "calls_made (mon_service m) \<le> calls_made v" by blast
  from rest have "grows (s_manager v) (s_manager u)" by blast
  from called_from_turn [OF this, of "calls_made (mon_service m)"] le
  have "called_from (calls_made (mon_service m)) u
      = called_from (calls_made (mon_service m)) v @ called_from (calls_made v) u"
    by (simp add: max_def)
  with one rest grows_trans [OF g] show ?case by simp
qed

section \<open>The invariant\<close>

text \<open>The monitor never stops its service: the thread runs from the first start on, for ever, and the
  callback is the one that closes connections.\<close>

definition monitor_ok :: "'e conn_monitor \<Rightarrow> bool" where
  "monitor_ok m \<longleftrightarrow> svc_ok (mon_service m) \<and> \<not> s_io_stopped (mon_service m)
     \<and> Task_stop_service \<notin> set (s_tasks (mon_service m))
     \<and> (mon_started m \<longrightarrow> s_started (mon_service m))
     \<and> (s_started (mon_service m) \<longrightarrow> m_callback_function (s_manager (mon_service m)) = Some Bind_handle_timeout)"

lemma monitor_start_service:
  assumes "\<not> mon_started m"
  shows "fst (monitor_start now setting m) = 0 \<and> mon_started (snd (monitor_start now setting m))
    \<and> mon_closed (snd (monitor_start now setting m)) = mon_closed m
    \<and> mon_service (snd (monitor_start now setting m)) =
        (if s_started (mon_service m) then mon_service m
         else snd (svc_start now (mon_service m\<lparr>s_manager := (s_manager (mon_service m))
           \<lparr>m_callback_function := Some Bind_handle_timeout, m_timeout_flag := hb_timeout_flag setting,
             m_timeout := hb_timeout setting, m_max_limit_flag := hb_max_limit_flag setting,
             m_max_limit := hb_max_limit setting\<rparr>\<rparr>)))"
  using assms
  by (simp add: monitor_start_def svc_set_callback_function_def svc_set_timeout_def svc_set_max_limit_def
      mgr_set_callback_function_def mgr_set_timeout_def mgr_set_max_limit_def svc_start_def Let_def)

lemma svc_ok_config [simp]: "svc_ok (s\<lparr>s_manager := m\<rparr>) = svc_ok s"
  by (rule svc_ok_control) simp

lemma monitor_start_ok:
  assumes "monitor_ok m"
  shows "monitor_ok (snd (monitor_start now setting m))"
proof (cases "mon_started m \<or> s_started (mon_service m)")
  case True
  then show ?thesis using assms monitor_start_service [of m now setting]
    by (cases "mon_started m") (auto simp: monitor_ok_def monitor_start_def)
next
  case False
  let ?s = "mon_service (snd (monitor_start now setting m))"
  let ?g = "s_manager (mon_service m)\<lparr>m_callback_function := Some Bind_handle_timeout,
    m_timeout_flag := hb_timeout_flag setting, m_timeout := hb_timeout setting,
    m_max_limit_flag := hb_max_limit_flag setting, m_max_limit := hb_max_limit setting\<rparr>"
  have s: "?s = snd (svc_start now (mon_service m\<lparr>s_manager := ?g\<rparr>))"
    using False monitor_start_service [of m now setting] by simp
  have "svc_ok ?s"
    using svc_do_ok [of "mon_service m\<lparr>s_manager := ?g\<rparr>" undefined now Start ?s] assms s
    by (simp add: monitor_ok_def)
  then show ?thesis using assms s
    by (auto simp: monitor_ok_def svc_start_def async_wait_def set_expiry_def Let_def)
qed

lemma monitor_turn_ok:
  assumes "monitor_ok m" and "monitor_turn construct now m = Some m'"
  shows "monitor_ok m'"
proof -
  obtain s where s: "thread_turn construct now (mon_service m) = Some s" "mon_service m' = s"
    "mon_started m' = mon_started m"
    using assms(2) by (auto simp: monitor_turn_closes)
  obtain t ts v where t: "s_tasks (mon_service m) = t # ts"
    "run_task construct now t (mon_service m\<lparr>s_tasks := ts\<rparr>) = Some v" "s = v\<lparr>s_thread_runs := \<not> s_io_stopped v\<rparr>"
    using s(1) by (auto simp: thread_turn_def bind_eq_Some_conv split: if_splits list.splits)
  have "t \<noteq> Task_stop_service" "Task_stop_service \<notin> set ts" using assms(1) t(1) by (auto simp: monitor_ok_def)
  with task_control [OF t(2)] t(3)
  have "s_io_stopped s = s_io_stopped (mon_service m)" "s_started s = s_started (mon_service m)"
    "Task_stop_service \<notin> set (s_tasks s)"
    by (cases t; auto simp: control_def async_wait_def set_expiry_def)+
  moreover have "m_callback_function (s_manager s) = m_callback_function (s_manager (mon_service m))"
    using grows_turn [OF s(1)] by (auto simp: grows_def dest: effect_config)
  moreover have "svc_ok s" using thread_turn_ok [OF _ s(1)] assms(1) by (simp add: monitor_ok_def)
  ultimately show ?thesis using assms(1) s(2,3) by (simp add: monitor_ok_def)
qed

lemma monitor_step_ok:
  assumes "monitor_step construct asyn m m'" and "meant_for_async asyn" and "monitor_ok m"
  shows "monitor_ok m'"
  using assms(1)
proof cases
  case (mon_start now setting)
  with assms(3) monitor_start_ok show ?thesis by blast
next
  case (mon_turn now)
  with assms(3) monitor_turn_ok show ?thesis by blast
next
  case (mon_timer now s)
  have "svc_ok s" using svc_do_ok [of "mon_service m" construct now Timer_turn s] mon_timer(2) assms(3)
    by (simp add: monitor_ok_def)
  with mon_timer assms(3) show ?thesis
    by (auto simp: monitor_ok_def timer_turn_def post_def split: if_splits)
qed (use assms(2,3) in \<open>simp_all add: monitor_ok_def monitor_stop_def monitor_close_all_def monitor_add_def
  monitor_update_def monitor_del_def meant_for_async_def async_add_element_def async_update_element_def
  async_del_element_def svc_trigger_all_timeout_def\<close>, simp_all add: post_def)

interpretation cm: inductive_invariant "\<lambda>m. \<exists>vts g. m = init_monitor vts g"
  "\<lambda>m m'. meant_for_async asyn \<and> monitor_step construct asyn m m'" monitor_ok for construct asyn
proof
  show "monitor_ok m'" if "meant_for_async asyn \<and> monitor_step construct asyn m m'" "monitor_ok m" for m m'
    using that monitor_step_ok by blast
qed (auto simp: monitor_ok_def init_monitor_def init_service_def init_mgr_def svc_ok_def passes_def)

section \<open>What the monitor does\<close>

lemma reach_monitor_ok:
  assumes "reach (\<lambda>m. \<exists>vts g. m = init_monitor vts g) (monitor_step construct asyn) m" and "meant_for_async asyn"
  shows "monitor_ok m"
  using cm.inv_reach [of asyn construct m] assms by simp

text \<open>A trigger on a running service behind plain tasks: what the turns up to it do.\<close>

lemma trigger_turns_rest:
  assumes "svc_ok s" and "s_thread_runs s" and "s_tasks s = ts @ Task_trigger # rest" and "\<forall>t \<in> set ts. task_call t \<noteq> None"
    and "in_use t (s_manager s) xs" and "t \<le> now" and "clock_ok now" and "length xs + length ts < 2 ^ 64"
    and "fresh_allocator construct" and "never_exhausted construct"
    and "spec_history (limit_of (s_manager s)) (timeout_of (s_manager s)) (at_once now ts) xs = (rs, ys, fired)"
    and "m_callback_function (s_manager s) = Some f"
  shows "\<exists>u. svc_run construct (turns (Suc (length ts)) now) s = Some u
    \<and> mgr_wf (s_manager u) [] \<and> s_thread_runs u \<and> svc_ok u \<and> s_tasks u = rest
    \<and> m_invoked (s_manager u) = m_invoked (s_manager s) @ map (Pair f) (fired @ map ed_element ys)"
proof -
  obtain v t' where v: "svc_run construct (turns (length ts) now) s = Some v" "svc_ok v"
    "s_thread_runs v" "s_tasks v = Task_trigger # rest" "in_use t' (s_manager v) ys"
    "effect (s_manager s) (s_manager v) fired"
    using plain_turns [OF assms(1-11)] by blast
  from v(5) obtain ps where ps: "mgr_wf (s_manager v) ps" "view (s_manager v) ps = ys"
    by (auto simp: in_use_def)
  let ?m = "s_manager v\<lparr>m_invoked := m_invoked (s_manager v) @ callbacks (s_manager v) (map ed_element ys)\<rparr>"
  let ?u = "v\<lparr>s_tasks := rest, s_manager := (drained ?m)\<lparr>m_elements := Map.empty\<rparr>\<rparr>"
  have trig: "mgr_trigger_all_timeout (s_manager v) = Some ((drained ?m)\<lparr>m_elements := Map.empty\<rparr>)"
    using trigger_loop_drained [OF mgr_wf_drainable [OF ps(1)]] ps(2) by (simp add: mgr_trigger_all_timeout_def view_def)
  have "\<not> s_io_stopped v" using v(2,3) by (simp add: svc_ok_def)
  then have turn: "thread_turn construct now v = Some ?u"
    using v(3,4) trig by (simp add: thread_turn_def svc_trigger_i_def)
  moreover have "m_invoked (s_manager v) @ callbacks (s_manager v) (map ed_element ys)
      = m_invoked (s_manager s) @ map (Pair f) (fired @ map ed_element ys)"
    using v(6) assms(12) effect_config(5) [OF v(6)] by (simp add: effect_def callbacks_def)
  moreover have "m_invoked (drained ?m) = m_invoked ?m" by (simp add: drained_def)
  moreover have "mgr_wf (s_manager ?u) []" by (simp add: mgr_wf_cleared)
  ultimately show ?thesis
    using v(1,3) thread_turn_ok [OF v(2) turn] by (intro exI [where x = ?u]) (simp add: turns_Suc svc_run_append)
qed

lemma trigger_turns:
  assumes "svc_ok s" and "s_thread_runs s" and "plain_tasks s"
    and "in_use t (s_manager s) xs" and "t \<le> now" and "clock_ok now" and "length xs + length (s_tasks s) < 2 ^ 64"
    and "fresh_allocator construct" and "never_exhausted construct"
    and "spec_history (limit_of (s_manager s)) (timeout_of (s_manager s)) (at_once now (s_tasks s)) xs
      = (rs, ys, fired)"
    and "m_callback_function (s_manager s) = Some f"
  shows "\<exists>u. svc_run construct (turns (Suc (length (s_tasks s))) now) (svc_trigger_all_timeout s) = Some u
    \<and> mgr_wf (s_manager u) [] \<and> s_thread_runs u
    \<and> m_invoked (s_manager u) = m_invoked (s_manager s) @ map (Pair f) (fired @ map ed_element ys)"
proof -
  let ?s = "svc_trigger_all_timeout s"
  have s': "svc_ok ?s" "s_thread_runs ?s" "s_tasks ?s = s_tasks s @ [Task_trigger]" "s_manager ?s = s_manager s"
    using assms(1,2) by (simp add: svc_trigger_all_timeout_def)
      (use assms(2) in \<open>simp_all add: svc_trigger_all_timeout_def post_def\<close>)
  have "\<forall>t \<in> set (s_tasks s). task_call t \<noteq> None" using assms(3) by (simp add: plain_tasks_def)
  from trigger_turns_rest [OF s'(1-3) this, unfolded s'(4), OF assms(4-11)] show ?thesis by blast
qed

text \<open>\<open>close_all\<close> on a started monitor: once the thread has run the tasks queued before it, every
  connection that they have left is closed, each once and the one with the latest beat first, after those that the
  queued calls have evicted or found expired; the monitor is empty and goes on.\<close>

theorem close_all_closes:
  assumes "reach (\<lambda>m. \<exists>vts g. m = init_monitor vts g) (monitor_step construct asyn) m" and "meant_for_async asyn"
    and "mon_started m" and "plain_tasks (mon_service m)"
    and "in_use t (s_manager (mon_service m)) xs" and "t \<le> now" and "clock_ok now"
    and "length xs + length (s_tasks (mon_service m)) < 2 ^ 64"
    and "fresh_allocator construct" and "never_exhausted construct"
    and "spec_history (limit_of (s_manager (mon_service m))) (timeout_of (s_manager (mon_service m)))
      (at_once now (s_tasks (mon_service m))) xs = (rs, ys, fired)"
  shows "\<exists>m'. monitor_turns construct now (Suc (length (s_tasks (mon_service m)))) (monitor_close_all m) = Some m'
    \<and> mon_closed m' = mon_closed m @ fired @ map ed_element ys \<and> mon_started m'
    \<and> mgr_wf (s_manager (mon_service m')) [] \<and> s_thread_runs (mon_service m')"
proof -
  let ?s = "mon_service m" and ?m = "m\<lparr>mon_service := svc_trigger_all_timeout (mon_service m)\<rparr>"
  note ok = reach_monitor_ok [OF assms(1,2)]
  then have run: "svc_ok ?s" "s_thread_runs ?s" "m_callback_function (s_manager ?s) = Some Bind_handle_timeout"
    using assms(3) by (auto simp: monitor_ok_def svc_ok_def)
  obtain u where u: "svc_run construct (turns (Suc (length (s_tasks ?s))) now) (svc_trigger_all_timeout ?s) = Some u"
    "mgr_wf (s_manager u) []" "s_thread_runs u"
    "m_invoked (s_manager u) = m_invoked (s_manager ?s) @ map (Pair Bind_handle_timeout) (fired @ map ed_element ys)"
    using trigger_turns [OF run(1,2) assms(4-11) run(3)] by blast
  from u(1) monitor_turns_close [of construct "Suc (length (s_tasks ?s))" now ?m u] u(2-4) assms(3)
  show ?thesis
    by (simp add: monitor_close_all_def called_from_def calls_made_def comp_def svc_trigger_all_timeout_def post_def)
qed

text \<open>\<open>stop\<close> asks for the same but does not wait: it clears \<open>m_started\<close> at once, and the
  callbacks, when the thread makes them, return without closing. The connections leave the monitor and not one of
  them is closed; \<open>stop\<close> has returned 0, and the service and its thread go on.\<close>

theorem stop_closes_nothing:
  assumes "reach (\<lambda>m. \<exists>vts g. m = init_monitor vts g) (monitor_step construct asyn) m" and "meant_for_async asyn"
    and "mon_started m" and "plain_tasks (mon_service m)"
    and "in_use t (s_manager (mon_service m)) xs" and "t \<le> now" and "clock_ok now"
    and "length xs + length (s_tasks (mon_service m)) < 2 ^ 64"
    and "fresh_allocator construct" and "never_exhausted construct"
  shows "fst (monitor_stop m) = 0
    \<and> (\<exists>m'. monitor_turns construct now (Suc (length (s_tasks (mon_service m)))) (snd (monitor_stop m)) = Some m'
         \<and> mon_closed m' = mon_closed m \<and> mgr_wf (s_manager (mon_service m')) [] \<and> s_thread_runs (mon_service m'))"
proof -
  let ?s = "mon_service m"
  let ?m = "m\<lparr>mon_service := svc_trigger_all_timeout ?s, mon_started := False\<rparr>"
  note ok = reach_monitor_ok [OF assms(1,2)]
  then have run: "svc_ok ?s" "s_thread_runs ?s" "m_callback_function (s_manager ?s) = Some Bind_handle_timeout"
    using assms(3) by (auto simp: monitor_ok_def svc_ok_def)
  obtain rs ys fired where "spec_history (limit_of (s_manager ?s)) (timeout_of (s_manager ?s))
      (at_once now (s_tasks ?s)) xs = (rs, ys, fired)" by (metis prod_cases3)
  from trigger_turns [OF run(1,2) assms(4-10) this run(3)] obtain u where
    u: "svc_run construct (turns (Suc (length (s_tasks ?s))) now) (svc_trigger_all_timeout ?s) = Some u"
    "mgr_wf (s_manager u) []" "s_thread_runs u" by blast
  from u(1) monitor_turns_close [of construct "Suc (length (s_tasks ?s))" now ?m u] u(2,3) assms(3)
  show ?thesis by (simp add: monitor_close_all_def monitor_stop_def)
qed

text \<open>Destroying a started monitor, as at the end of the program: the destructor returns, since the thread, once it has run what was
  queued, the trigger of \<open>stop\<close> and the task that stops it, ends. No connection is closed on the way, by the
  trigger neither, and no callback is left to come: the queue is empty and the thread is gone.\<close>

theorem destruction_returns:
  assumes "reach (\<lambda>m. \<exists>vts g. m = init_monitor vts g) (monitor_step construct asyn) m" and "meant_for_async asyn"
    and "mon_started m" and "plain_tasks (mon_service m)"
    and "in_use t (s_manager (mon_service m)) xs" and "t \<le> now" and "clock_ok now"
    and "length xs + length (s_tasks (mon_service m)) < 2 ^ 64"
    and "fresh_allocator construct" and "never_exhausted construct"
  shows "\<exists>m' s'. monitor_turns construct now (Suc (Suc (length (s_tasks (mon_service m))))) (destroy_monitor m) = Some m'
    \<and> svc_stop_end (mon_service m') = Some s' \<and> \<not> s_thread_runs s' \<and> s_tasks s' = []
    \<and> mon_closed m' = mon_closed m \<and> mgr_wf (s_manager s') []"
proof -
  let ?s = "mon_service m"
  let ?d = "destroy_monitor m" let ?v = "mon_service ?d"
  note ok = reach_monitor_ok [OF assms(1,2)]
  then have run: "svc_ok ?s" "s_thread_runs ?s" "m_callback_function (s_manager ?s) = Some Bind_handle_timeout" "s_started ?s"
    using assms(3) by (auto simp: monitor_ok_def svc_ok_def)
  have d: "svc_ok ?v" "s_thread_runs ?v" "s_tasks ?v = s_tasks ?s @ Task_trigger # [Task_stop_service]"
    "s_manager ?v = s_manager ?s" "\<not> mon_started ?d" "mon_closed ?d = mon_closed m"
    using assms(3) run(1,4) by (simp add: destroy_monitor_def monitor_stop_def monitor_close_all_def
      destroy_service_begin_def svc_stop_begin_def svc_trigger_all_timeout_def)
    (use assms(3) run in \<open>simp_all add: destroy_monitor_def monitor_stop_def monitor_close_all_def
      destroy_service_begin_def svc_stop_begin_def svc_trigger_all_timeout_def post_def\<close>)
  obtain rs ys fired where spec: "spec_history (limit_of (s_manager ?s)) (timeout_of (s_manager ?s))
      (at_once now (s_tasks ?s)) xs = (rs, ys, fired)" by (metis prod_cases3)
  have "\<forall>t \<in> set (s_tasks ?s). task_call t \<noteq> None" using assms(4) by (simp add: plain_tasks_def)
  from trigger_turns_rest [OF d(1-3) this, unfolded d(4), OF assms(5-10) spec run(3)] obtain u where
    u: "svc_run construct (turns (Suc (length (s_tasks ?s))) now) ?v = Some u" "mgr_wf (s_manager u) []"
      "s_thread_runs u" "svc_ok u" "s_tasks u = [Task_stop_service]" by blast
  let ?m = "(drained (s_manager u))\<lparr>m_elements := Map.empty\<rparr>"
  let ?u = "u\<lparr>s_tasks := [], s_manager := ?m, s_io_stopped := True, s_thread_runs := False\<rparr>"
  have turn: "thread_turn construct now u = Some ?u"
    using u(3,5) clear_element_wf [OF u(2)] by (simp add: thread_turn_def svc_stop_service_def)
  with u(1) have "svc_run construct (turns (Suc (Suc (length (s_tasks ?s)))) now) ?v = Some ?u"
    by (simp add: turns_Suc [of "Suc (length (s_tasks ?s))"] svc_run_append)
  from monitor_turns_close [OF this] d(5,6)
  have "monitor_turns construct now (Suc (Suc (length (s_tasks ?s)))) ?d = Some (?d\<lparr>mon_service := ?u, mon_closed := mon_closed m\<rparr>)"
    by simp
  moreover have "s_started u" using u(3,4) by (simp add: svc_ok_def)
  then have "svc_stop_end ?u = Some (?u\<lparr>s_started := False\<rparr>)" by (simp add: svc_stop_end_def)
  moreover have "mgr_wf ?m []" by (simp add: mgr_wf_cleared)
  ultimately show ?thesis by (intro exI conjI) (assumption | simp)+
qed

text \<open>A started monitor has a running service with the closing callback, and no start after the first
  one changes anything about it: \<open>start\<close> returns 0, also with other settings, and the timeout and the limit
  stay those of the first start.\<close>

theorem restart_keeps_settings:
  assumes "reach (\<lambda>m. \<exists>vts g. m = init_monitor vts g) (monitor_step construct asyn) m" and "meant_for_async asyn"
    and "mon_started m"
  shows "s_thread_runs (mon_service m)
    \<and> m_callback_function (s_manager (mon_service m)) = Some Bind_handle_timeout
    \<and> (\<exists>m'. monitor_start now setting (snd (monitor_stop m)) = (0, m') \<and> mon_started m'
         \<and> same_config (s_manager (mon_service m)) (s_manager (mon_service m')))"
proof -
  have ok: "monitor_ok m" by (rule reach_monitor_ok [OF assms(1,2)])
  then have "s_started (mon_service (snd (monitor_stop m)))" "\<not> mon_started (snd (monitor_stop m))"
    "s_manager (mon_service (snd (monitor_stop m))) = s_manager (mon_service m)"
    using assms(3)
    by (simp_all add: monitor_ok_def monitor_stop_def monitor_close_all_def svc_trigger_all_timeout_def post_def)
  with monitor_start_service [of "snd (monitor_stop m)" now setting] ok assms(3) show ?thesis
    by (cases "monitor_start now setting (snd (monitor_stop m))")
      (auto simp: monitor_ok_def svc_ok_def same_config_def)
qed

section \<open>Instances\<close>

definition the_async :: "nat asyn_ops" where
  "the_async = \<lparr>asyn_add = async_add_element, asyn_update = async_update_element, asyn_del = async_del_element\<rparr>"

definition small_setting :: heart_beat_setting where
  "small_setting = \<lparr>hb_timeout_flag = True, hb_timeout = 25, hb_max_limit_flag = True, hb_max_limit = 2\<rparr>"

text \<open>A monitor that has been started and given three connections, one more than it may hold.\<close>

definition busy_monitor :: "nat conn_monitor" where
  "busy_monitor = fold (monitor_add the_async) [7, 8, 9]
     (snd (monitor_start 0 small_setting (init_monitor (\<lambda>_. []) False)))"

lemma the_async_meant: "meant_for_async the_async"
  by (simp add: the_async_def meant_for_async_def)

lemma monitor_reach_add:
  "reach (\<lambda>m. \<exists>vts g. m = init_monitor vts g) (monitor_step construct asyn) m \<Longrightarrow>
   reach (\<lambda>m. \<exists>vts g. m = init_monitor vts g) (monitor_step construct asyn) (fold (monitor_add asyn) es m)"
  by (induction es arbitrary: m) (auto intro: reach_step mon_add)

lemma busy_monitor_reach:
  "reach (\<lambda>m. \<exists>vts g. m = init_monitor vts g) (monitor_step lowest_free the_async) busy_monitor"
  unfolding busy_monitor_def
  by (rule monitor_reach_add, rule reach_step, rule reach_init, blast, rule mon_start)

lemma busy_monitor_state:
  "mon_started busy_monitor" "s_tasks (mon_service busy_monitor) = [Task_add 7, Task_add 8, Task_add 9]"
  "s_manager (mon_service busy_monitor) = init_mgr\<lparr>m_callback_function := Some Bind_handle_timeout,
     m_timeout_flag := True, m_timeout := 25, m_max_limit_flag := True, m_max_limit := 2\<rparr>"
  "mon_closed busy_monitor = []"
  by (simp_all add: busy_monitor_def small_setting_def init_monitor_def init_service_def monitor_start_def
      svc_set_callback_function_def svc_set_timeout_def svc_set_max_limit_def mgr_set_callback_function_def
      mgr_set_timeout_def mgr_set_max_limit_def svc_start_def set_expiry_def async_wait_def monitor_add_def
      the_async_def async_add_element_def post_def Let_def)

lemma busy_monitor_in_use: "in_use 0 (s_manager (mon_service busy_monitor)) []"
  by (auto simp: busy_monitor_state in_use_def timed_def init_mgr_def mgr_wf_def hbl_def unlinked_but_def
      indexes_def counted_def view_def limit_of_def)

lemma busy_monitor_plain: "plain_tasks (mon_service busy_monitor)"
  by (simp add: plain_tasks_def busy_monitor_state)

lemma busy_monitor_calls:
  "spec_history (limit_of (s_manager (mon_service busy_monitor))) (timeout_of (s_manager (mon_service busy_monitor)))
     (at_once 5 (s_tasks (mon_service busy_monitor))) [] = ([0, 0, 0], [stamped 5 9, stamped 5 8], [7])"
  by (simp add: busy_monitor_state limit_of_def timeout_of_def at_once_def over_limit_def stamped_def)

lemma busy_monitor_turns: "Suc (length (s_tasks (mon_service busy_monitor))) = 4"
  by (simp add: busy_monitor_state)

lemma busy_monitor_short: "length [] + length (s_tasks (mon_service busy_monitor)) < 2 ^ 64"
  by (simp add: busy_monitor_state)

lemma clock_5: "0 \<le> (5 :: int)" "clock_ok 5"
  by (simp_all add: clock_ok_def)

lemmas busy_monitor_facts = busy_monitor_reach the_async_meant busy_monitor_state(1) busy_monitor_plain
  busy_monitor_in_use clock_5 busy_monitor_short lowest_free_ok

theorem close_all_closes_witness:
  "\<exists>m'. monitor_turns lowest_free 5 4 (monitor_close_all busy_monitor) = Some m' \<and> mon_closed m' = [7, 9, 8]"
proof -
  have "mon_closed busy_monitor @ [7] @ map ed_element [stamped 5 9, stamped 5 8] = [7, 9, 8]"
    by (simp add: busy_monitor_state stamped_def)
  with close_all_closes [OF busy_monitor_facts busy_monitor_calls, unfolded busy_monitor_turns]
  show ?thesis by metis
qed

theorem stop_closes_nothing_witness:
  "\<exists>m'. monitor_turns lowest_free 5 4 (snd (monitor_stop busy_monitor)) = Some m' \<and> mon_closed m' = []
     \<and> mgr_wf (s_manager (mon_service m')) []"
  using stop_closes_nothing [OF busy_monitor_facts, unfolded busy_monitor_turns] busy_monitor_state(4) by metis

theorem destruction_returns_witness:
  "\<exists>m' s'. monitor_turns lowest_free 5 5 (destroy_monitor busy_monitor) = Some m' \<and> mon_closed m' = []
     \<and> svc_stop_end (mon_service m') = Some s' \<and> \<not> s_thread_runs s'"
proof -
  have "Suc (Suc (length (s_tasks (mon_service busy_monitor)))) = 5" by (simp add: busy_monitor_state)
  with destruction_returns [OF busy_monitor_facts] busy_monitor_state(4) show ?thesis by metis
qed

theorem restart_keeps_settings_witness:
  "m_timeout (s_manager (mon_service (snd (monitor_start 9 (small_setting\<lparr>hb_timeout := 3\<rparr>)
     (snd (monitor_stop busy_monitor)))))) = 25"
  using restart_keeps_settings [OF busy_monitor_facts(1-3), of 9 "small_setting\<lparr>hb_timeout := 3\<rparr>"]
  by (auto simp: same_config_def busy_monitor_state)

end
