(* ===== verification/MonitorThreads.thy ===== *)
theory MonitorThreads
  imports ConnMonitor "HOL-Library.Sublist"
begin

text \<open>
  The connection monitor of mylib/rpc/rpc\_conn\_monitor.cpp between its threads: the thread of the
  service makes the callbacks of a pass one after another, each of which first tests \<open>m_started\<close> and then closes, while
  other threads call \<open>stop\<close>, statement by statement, and the other operations. Nothing guards \<open>m_started\<close>.

  Without interleaving this is the monitor whose turns are one step. With it, a \<open>stop\<close> cuts off the pass that
  the thread is in, at any point, and one connection may still be closed after \<open>stop\<close> has returned.
\<close>

section \<open>Steps\<close>

text \<open>The monitor; the callbacks of the pass that are still to be made; the connection of the callback that has
  passed its test; and whether a call of \<open>stop\<close> is behind its \<open>close_all\<close>.\<close>

record 'e monitor_run =
  mr_monitor :: "'e conn_monitor"
  mr_pending :: "'e list"
  mr_tested :: "'e option"
  mr_stopping :: bool

definition init_monitor_run :: "(ptr \<Rightarrow> 'e list) \<Rightarrow> bool \<Rightarrow> 'e monitor_run" where
  "init_monitor_run vts g = \<lparr>mr_monitor = init_monitor vts g, mr_pending = [], mr_tested = None, mr_stopping = False\<rparr>"

text \<open>A turn of the thread up to its callbacks, and the two statements of a callback.\<close>

definition begin_pass :: "'e allocator \<Rightarrow> int \<Rightarrow> 'e monitor_run \<Rightarrow> 'e monitor_run option" where
  "begin_pass construct now r =
     (if mr_pending r \<noteq> [] \<or> mr_tested r \<noteq> None then None
      else do {
        s \<leftarrow> thread_turn construct now (mon_service (mr_monitor r));
        Some (r\<lparr>mr_monitor := (mr_monitor r)\<lparr>mon_service := s\<rparr>,
          mr_pending := called_from (calls_made (mon_service (mr_monitor r))) s\<rparr>)
      })"

definition test_started :: "'e monitor_run \<Rightarrow> 'e monitor_run option" where
  "test_started r =
     (if mr_tested r \<noteq> None then None
      else case mr_pending r of [] \<Rightarrow> None
      | e # es \<Rightarrow> Some (if \<not> mon_started (mr_monitor r) then r\<lparr>mr_pending := es\<rparr>
          else r\<lparr>mr_pending := es, mr_tested := Some e\<rparr>))"

definition close_tested :: "'e monitor_run \<Rightarrow> 'e monitor_run option" where
  "close_tested r = (case mr_tested r of None \<Rightarrow> None
     | Some e \<Rightarrow> Some (r\<lparr>mr_monitor := (mr_monitor r)\<lparr>mon_closed := mon_closed (mr_monitor r) @ [e]\<rparr>, mr_tested := None\<rparr>))"

text \<open>\<open>stop\<close> up to its last assignment, and the assignment.\<close>

definition stop_close_all :: "'e monitor_run \<Rightarrow> 'e monitor_run option" where
  "stop_close_all r =
     (if mr_stopping r then None
      else if \<not> mon_started (mr_monitor r) then Some r
      else Some (r\<lparr>mr_monitor := monitor_close_all (mr_monitor r), mr_stopping := True\<rparr>))"

definition stop_clear :: "'e monitor_run \<Rightarrow> 'e monitor_run option" where
  "stop_clear r = (if \<not> mr_stopping r then None
     else Some (r\<lparr>mr_monitor := (mr_monitor r)\<lparr>mon_started := False\<rparr>, mr_stopping := False\<rparr>))"

datatype 'e monitor_event =
    Begin_pass int
  | Test_started
  | Close_tested
  | Stop_close_all
  | Stop_clear
  | Start_monitor int heart_beat_setting
  | Add_conn 'e
  | Update_conn 'e
  | Del_conn 'e
  | Close_all
  | Timer_ends int

fun monitor_run_do :: "'e allocator \<Rightarrow> 'e asyn_ops \<Rightarrow> 'e monitor_event \<Rightarrow> 'e monitor_run \<Rightarrow> 'e monitor_run option" where
  "monitor_run_do construct asyn (Begin_pass now) r = begin_pass construct now r"
| "monitor_run_do construct asyn Test_started r = test_started r"
| "monitor_run_do construct asyn Close_tested r = close_tested r"
| "monitor_run_do construct asyn Stop_close_all r = stop_close_all r"
| "monitor_run_do construct asyn Stop_clear r = stop_clear r"
| "monitor_run_do construct asyn (Start_monitor now setting) r =
     Some (r\<lparr>mr_monitor := snd (monitor_start now setting (mr_monitor r))\<rparr>)"
| "monitor_run_do construct asyn (Add_conn e) r = Some (r\<lparr>mr_monitor := monitor_add asyn e (mr_monitor r)\<rparr>)"
| "monitor_run_do construct asyn (Update_conn e) r = Some (r\<lparr>mr_monitor := monitor_update asyn e (mr_monitor r)\<rparr>)"
| "monitor_run_do construct asyn (Del_conn e) r = Some (r\<lparr>mr_monitor := monitor_del asyn e (mr_monitor r)\<rparr>)"
| "monitor_run_do construct asyn Close_all r = Some (r\<lparr>mr_monitor := monitor_close_all (mr_monitor r)\<rparr>)"
| "monitor_run_do construct asyn (Timer_ends now) r =
     map_option (\<lambda>s. r\<lparr>mr_monitor := (mr_monitor r)\<lparr>mon_service := s\<rparr>\<rparr>) (timer_turn now (mon_service (mr_monitor r)))"

fun monitor_run_all :: "'e allocator \<Rightarrow> 'e asyn_ops \<Rightarrow> 'e monitor_event list \<Rightarrow> 'e monitor_run \<Rightarrow> 'e monitor_run option" where
  "monitor_run_all construct asyn [] r = Some r"
| "monitor_run_all construct asyn (ev # evs) r = do {
     r \<leftarrow> monitor_run_do construct asyn ev r;
     monitor_run_all construct asyn evs r
   }"

inductive monitor_run_step :: "'e allocator \<Rightarrow> 'e asyn_ops \<Rightarrow> 'e monitor_run \<Rightarrow> 'e monitor_run \<Rightarrow> bool"
  for construct asyn where
  monitor_run_step: "monitor_run_do construct asyn ev r = Some r' \<Longrightarrow> monitor_run_step construct asyn r r'"

section \<open>Closes and callbacks\<close>

text \<open>What has been closed, what is about to be and what is to come of the pass are callbacks that the
  service has made, each once and in their order.\<close>

definition to_close :: "'e monitor_run \<Rightarrow> 'e list" where
  "to_close r = (case mr_tested r of None \<Rightarrow> [] | Some e \<Rightarrow> [e]) @ mr_pending r"

definition invoked_on :: "'e monitor_run \<Rightarrow> 'e list" where
  "invoked_on r = map snd (m_invoked (s_manager (mon_service (mr_monitor r))))"

definition closes_callbacks :: "'e monitor_run \<Rightarrow> bool" where
  "closes_callbacks r \<longleftrightarrow> subseq (mon_closed (mr_monitor r) @ to_close r) (invoked_on r)"


lemma monitor_start_invoked:
  "m_invoked (s_manager (mon_service (snd (monitor_start now setting m)))) = m_invoked (s_manager (mon_service m))"
  by (auto simp: monitor_start_def svc_set_callback_function_def svc_set_timeout_def svc_set_max_limit_def
      mgr_set_callback_function_def mgr_set_timeout_def mgr_set_max_limit_def svc_start_def set_expiry_def
      async_wait_def Let_def)

lemma post_invoked [simp]: "s_manager (post t s) = s_manager s"
  by (simp add: post_def)

lemma quiet_event:
  assumes "monitor_run_do construct asyn ev r = Some r'" and "meant_for_async asyn" and "\<And>now. ev \<noteq> Begin_pass now"
  shows "invoked_on r' = invoked_on r"
  using assms
  by (cases ev) (auto simp: invoked_on_def test_started_def close_tested_def stop_close_all_def stop_clear_def
      monitor_start_invoked monitor_add_def monitor_update_def monitor_del_def monitor_close_all_def
      meant_for_async_def async_add_element_def async_update_element_def async_del_element_def
      svc_trigger_all_timeout_def timer_turn_def split: if_splits list.splits option.splits)

lemma begin_pass_cases:
  assumes "begin_pass construct now r = Some r'"
  obtains s where "mr_pending r = []" "mr_tested r = None" "thread_turn construct now (mon_service (mr_monitor r)) = Some s"
    "r' = r\<lparr>mr_monitor := (mr_monitor r)\<lparr>mon_service := s\<rparr>,
       mr_pending := called_from (calls_made (mon_service (mr_monitor r))) s\<rparr>"
  using assms by (auto simp: begin_pass_def bind_eq_Some_conv split: if_splits)

lemma invoked_split:
  assumes "thread_turn construct now s = Some u"
  shows "map snd (m_invoked (s_manager u)) = map snd (m_invoked (s_manager s)) @ called_from (calls_made s) u"
  using grows_turn [OF assms] by (auto simp: grows_def effect_def called_from_def calls_made_def)

lemma monitor_start_closed [simp]: "mon_closed (snd (monitor_start now setting m)) = mon_closed m"
  by (auto simp: monitor_start_def Let_def split: prod.splits)

lemma closed_kept:
  "mon_closed (monitor_add asyn e m) = mon_closed m" "mon_closed (monitor_update asyn e m) = mon_closed m"
  "mon_closed (monitor_del asyn e m) = mon_closed m" "mon_closed (monitor_close_all m) = mon_closed m"
  "mon_started (monitor_add asyn e m) = mon_started m" "mon_started (monitor_update asyn e m) = mon_started m"
  "mon_started (monitor_del asyn e m) = mon_started m" "mon_started (monitor_close_all m) = mon_started m"
  by (simp_all add: monitor_add_def monitor_update_def monitor_del_def monitor_close_all_def)

lemma plan_shrinks:
  assumes "monitor_run_do construct asyn ev r = Some r'" and "\<And>now. ev \<noteq> Begin_pass now"
  shows "subseq (mon_closed (mr_monitor r') @ to_close r') (mon_closed (mr_monitor r) @ to_close r)"
  using assms
  by (cases ev) (auto simp: to_close_def test_started_def close_tested_def stop_close_all_def stop_clear_def
      closed_kept subseq_append' split: if_splits list.splits option.splits)

lemma closes_step:
  assumes "monitor_run_do construct asyn ev r = Some r'" and "meant_for_async asyn" and "closes_callbacks r"
  shows "closes_callbacks r'"
proof (cases "\<exists>now. ev = Begin_pass now")
  case True
  then obtain now where "begin_pass construct now r = Some r'" using assms(1) by auto
  then obtain s where s: "mr_pending r = []" "mr_tested r = None" "thread_turn construct now (mon_service (mr_monitor r)) = Some s"
    "r' = r\<lparr>mr_monitor := (mr_monitor r)\<lparr>mon_service := s\<rparr>,
       mr_pending := called_from (calls_made (mon_service (mr_monitor r))) s\<rparr>" by (rule begin_pass_cases)
  from invoked_split [OF s(3)] assms(3) s show ?thesis
    by (auto simp: closes_callbacks_def invoked_on_def to_close_def intro: list_emb_append_mono)
next
  case False
  then have "invoked_on r' = invoked_on r" using quiet_event [OF assms(1,2)] by blast
  moreover have "subseq (mon_closed (mr_monitor r') @ to_close r') (mon_closed (mr_monitor r) @ to_close r)"
    using plan_shrinks [OF assms(1)] False by blast
  ultimately show ?thesis using assms(3) unfolding closes_callbacks_def by (metis subseq_order.trans)
qed

interpretation mr: inductive_invariant "\<lambda>r. \<exists>vts g. r = init_monitor_run vts g"
  "\<lambda>r r'. meant_for_async asyn \<and> monitor_run_step construct asyn r r'" closes_callbacks for construct asyn
proof
  show "closes_callbacks r'" if "meant_for_async asyn \<and> monitor_run_step construct asyn r r'" "closes_callbacks r" for r r'
    using that by (auto elim!: monitor_run_step.cases intro: closes_step)
qed (auto simp: closes_callbacks_def to_close_def init_monitor_run_def init_monitor_def)

text \<open>Between its threads the monitor closes only connections that the service calls it for: what has been closed, with what is still
  to be closed of the pass, is part of the callbacks of the service, each at most once and in their order, under
  any interleaving of the callbacks with any other operation.\<close>

theorem closes_only_called:
  assumes "reach (\<lambda>r. \<exists>vts g. r = init_monitor_run vts g) (monitor_run_step construct asyn) r" and "meant_for_async asyn"
  shows "subseq (mon_closed (mr_monitor r) @ to_close r) (map snd (m_invoked (s_manager (mon_service (mr_monitor r)))))"
  using mr.inv_reach [of asyn construct r] assms by (simp add: closes_callbacks_def invoked_on_def)

section \<open>Passes without interleaving\<close>

fun callback_events :: "bool \<Rightarrow> nat \<Rightarrow> 'e monitor_event list" where
  "callback_events started 0 = []"
| "callback_events started (Suc n) = (if started then [Test_started, Close_tested] else [Test_started]) @ callback_events started n"

lemma monitor_run_append:
  "monitor_run_all construct asyn (xs @ ys) r = Option.bind (monitor_run_all construct asyn xs r) (monitor_run_all construct asyn ys)"
  by (induction construct asyn xs r rule: monitor_run_all.induct) (auto split: Option.bind_splits)

lemma callbacks_started:
  assumes "mr_pending r = es @ fs" and "mr_tested r = None" and "mon_started (mr_monitor r)"
  shows "monitor_run_all construct asyn (callback_events True (length es)) r
    = Some (r\<lparr>mr_monitor := (mr_monitor r)\<lparr>mon_closed := mon_closed (mr_monitor r) @ es\<rparr>, mr_pending := fs\<rparr>)"
  using assms
proof (induction es arbitrary: r)
  case (Cons e es)
  let ?r = "r\<lparr>mr_pending := es @ fs, mr_monitor := (mr_monitor r)\<lparr>mon_closed := mon_closed (mr_monitor r) @ [e]\<rparr>\<rparr>"
  have two: "monitor_run_all construct asyn [Test_started, Close_tested] r = Some ?r"
    using Cons.prems by (simp add: test_started_def close_tested_def)
  have events: "callback_events True (length (e # es)) = [Test_started, Close_tested] @ callback_events True (length es)" by simp
  from Cons.IH [of ?r] Cons.prems(2,3) show ?case unfolding events monitor_run_append two by simp
qed simp

lemma callbacks_stopped:
  assumes "mr_pending r = es @ fs" and "mr_tested r = None" and "\<not> mon_started (mr_monitor r)"
  shows "monitor_run_all construct asyn (callback_events False (length es)) r = Some (r\<lparr>mr_pending := fs\<rparr>)"
  using assms
proof (induction es arbitrary: r)
  case (Cons e es)
  from Cons.IH [of "r\<lparr>mr_pending := es @ fs\<rparr>"] Cons.prems show ?case by (simp add: test_started_def)
qed simp

text \<open>A pass that nothing interleaves with is the turn of the monitor as one step: the statements of its callbacks, one
  after another, lead to the same monitor.\<close>

theorem pass_is_turn:
  assumes "mr_pending r = []" and "mr_tested r = None" and "monitor_turn construct now (mr_monitor r) = Some m"
  shows "\<exists>n. monitor_run_all construct asyn (Begin_pass now # callback_events (mon_started (mr_monitor r)) n) r
    = Some (r\<lparr>mr_monitor := m\<rparr>)"
proof -
  obtain s where s: "thread_turn construct now (mon_service (mr_monitor r)) = Some s"
    "m = (mr_monitor r)\<lparr>mon_service := s, mon_closed := mon_closed (mr_monitor r)
       @ (if mon_started (mr_monitor r) then called_from (calls_made (mon_service (mr_monitor r))) s else [])\<rparr>"
    using assms(3) by (auto simp: monitor_turn_closes)
  let ?es = "called_from (calls_made (mon_service (mr_monitor r))) s"
  let ?r = "r\<lparr>mr_monitor := (mr_monitor r)\<lparr>mon_service := s\<rparr>, mr_pending := ?es\<rparr>"
  have "begin_pass construct now r = Some ?r" using assms(1,2) s(1) by (simp add: begin_pass_def)
  moreover have "monitor_run_all construct asyn (callback_events (mon_started (mr_monitor r)) (length ?es)) ?r = Some (r\<lparr>mr_monitor := m\<rparr>)"
  proof -
    have collapse: "r\<lparr>mr_monitor := x, mr_pending := []\<rparr> = r\<lparr>mr_monitor := x\<rparr>" for x using assms(1) by (cases r) simp
    have same: "x\<lparr>mon_service := s, mon_closed := mon_closed x @ []\<rparr> = x\<lparr>mon_service := s\<rparr>" for x :: "'a conn_monitor"
      by (cases x) simp
    show ?thesis using callbacks_started [of ?r ?es "[]" construct asyn] callbacks_stopped [of ?r ?es "[]" construct asyn] assms(2)
      unfolding s(2) by (cases "mon_started (mr_monitor r)") (simp_all add: collapse same [simplified])
  qed
  ultimately show ?thesis by (intro exI [where x = "length ?es"]) simp
qed


section \<open>Stopping during a pass\<close>

lemma stopped_event:
  assumes "monitor_run_do construct asyn ev r = Some r'" and "\<not> mon_started (mr_monitor r)"
    and "\<And>now setting. ev \<noteq> Start_monitor now setting"
  shows "\<not> mon_started (mr_monitor r')
    \<and> (mon_closed (mr_monitor r') = mon_closed (mr_monitor r) \<and> mr_tested r' = mr_tested r
       \<or> (\<exists>e. mr_tested r = Some e \<and> mon_closed (mr_monitor r') = mon_closed (mr_monitor r) @ [e] \<and> mr_tested r' = None))"
  using assms
  by (cases ev) (auto simp: begin_pass_def test_started_def close_tested_def stop_close_all_def stop_clear_def
      closed_kept bind_eq_Some_conv split: if_splits list.splits option.splits)

lemma stopped_events:
  assumes "monitor_run_all construct asyn evs r = Some r'" and "\<not> mon_started (mr_monitor r)"
    and "\<forall>now setting. Start_monitor now setting \<notin> set evs"
  shows "mon_closed (mr_monitor r') = mon_closed (mr_monitor r) \<and> mr_tested r' = mr_tested r
    \<or> (\<exists>e. mr_tested r = Some e \<and> mon_closed (mr_monitor r') = mon_closed (mr_monitor r) @ [e] \<and> mr_tested r' = None)"
  using assms
proof (induction evs arbitrary: r)
  case (Cons ev evs)
  obtain u where u: "monitor_run_do construct asyn ev r = Some u" "monitor_run_all construct asyn evs u = Some r'"
    using Cons.prems(1) by (auto simp: bind_eq_Some_conv)
  have "\<And>now setting. ev \<noteq> Start_monitor now setting" using Cons.prems(3) by auto
  from stopped_event [OF u(1) Cons.prems(2) this] Cons.IH [OF u(2)] Cons.prems(3) show ?case by fastforce
qed simp

text \<open>C29: After \<open>stop\<close> has cleared the flag at most one more connection is closed, the one whose callback had
  tested the flag before, whatever the threads do, until the monitor is started again.\<close>

theorem at_most_one_late_close:
  assumes "monitor_run_all construct asyn evs r = Some r'" and "\<not> mon_started (mr_monitor r)"
    and "\<forall>now setting. Start_monitor now setting \<notin> set evs"
  shows "mon_closed (mr_monitor r') = mon_closed (mr_monitor r)
    \<or> (\<exists>e. mr_tested r = Some e \<and> mon_closed (mr_monitor r') = mon_closed (mr_monitor r) @ [e])"
  using stopped_events [OF assms] by blast

text \<open>A \<open>stop\<close> cuts a pass off at any point: of the connections of the pass any number may have been closed, the last
  of them after \<open>stop\<close> has returned, and the others are dropped without being closed.\<close>

theorem stop_cuts_pass:
  assumes "mr_tested r = None" and "mon_started (mr_monitor r)" and "\<not> mr_stopping r" and "k < length (mr_pending r)"
  shows "\<exists>r'. monitor_run_all construct asyn (callback_events True k @ [Test_started, Stop_close_all, Stop_clear, Close_tested]
      @ callback_events False (length (mr_pending r) - Suc k)) r = Some r'
    \<and> \<not> mon_started (mr_monitor r') \<and> to_close r' = []
    \<and> mon_closed (mr_monitor r') = mon_closed (mr_monitor r) @ take (Suc k) (mr_pending r)"
proof -
  let ?es = "mr_pending r" and ?m = "mr_monitor r"
  let ?r = "r\<lparr>mr_monitor := ?m\<lparr>mon_closed := mon_closed ?m @ take k ?es\<rparr>, mr_pending := drop k ?es\<rparr>"
  have first: "monitor_run_all construct asyn (callback_events True k) r = Some ?r"
    using callbacks_started [of r "take k ?es" "drop k ?es" construct asyn] assms by simp
  have rest: "drop k ?es = ?es ! k # drop (Suc k) ?es" using assms(4) by (simp add: Cons_nth_drop_Suc)
  obtain u where u: "monitor_run_all construct asyn [Test_started, Stop_close_all, Stop_clear, Close_tested] ?r = Some u"
    "\<not> mon_started (mr_monitor u)" "mr_tested u = None" "mr_pending u = drop (Suc k) ?es"
    "mon_closed (mr_monitor u) = mon_closed ?m @ take k ?es @ [?es ! k]"
    using assms(1-3) rest by (simp add: test_started_def stop_close_all_def stop_clear_def close_tested_def closed_kept)
  have last: "monitor_run_all construct asyn (callback_events False (length ?es - Suc k)) u = Some (u\<lparr>mr_pending := []\<rparr>)"
    using callbacks_stopped [of u "drop (Suc k) ?es" "[]" construct asyn] u by simp
  have "monitor_run_all construct asyn (callback_events True k @ [Test_started, Stop_close_all, Stop_clear, Close_tested]
      @ callback_events False (length ?es - Suc k)) r = Some (u\<lparr>mr_pending := []\<rparr>)"
    by (simp only: monitor_run_append first u(1) last Option.bind.simps)
  with u assms(4) show ?thesis by (simp add: to_close_def take_Suc_conv_app_nth)
qed

section \<open>Instances\<close>

text \<open>The monitor of three connections of which it may hold two, while the thread is evicting the first, and a run in
  the middle of a pass.\<close>

definition busy_run :: "nat monitor_run" where
  "busy_run = \<lparr>mr_monitor = busy_monitor, mr_pending = [], mr_tested = None, mr_stopping = False\<rparr>"

definition passing_run :: "nat monitor_run" where
  "passing_run = busy_run\<lparr>mr_pending := [7, 8, 9]\<rparr>"

lemma busy_run_reach:
  "reach (\<lambda>r. \<exists>vts g. r = init_monitor_run vts g) (monitor_run_step lowest_free the_async) busy_run"
proof -
  let ?run = "reach (\<lambda>r. \<exists>vts g. r = init_monitor_run vts g) (monitor_run_step lowest_free the_async)"
  have add: "?run (r\<lparr>mr_monitor := monitor_add the_async e (mr_monitor r)\<rparr>)" if "?run r" for e r
    by (rule reach_step [OF that], rule monitor_run_step [of _ _ "Add_conn e"]) simp
  have init: "?run (init_monitor_run (\<lambda>_. []) False)" by (rule reach_init) blast
  have "?run ((init_monitor_run (\<lambda>_. []) False)\<lparr>mr_monitor := snd (monitor_start 0 small_setting (init_monitor (\<lambda>_. []) False))\<rparr>)"
    by (rule reach_step [OF init], rule monitor_run_step [of _ _ "Start_monitor 0 small_setting"]) (simp add: init_monitor_run_def)
  from add [OF add [OF add [OF this, of 7], of 8], of 9] show ?thesis
    by (simp add: busy_run_def busy_monitor_def init_monitor_run_def)
qed

theorem closes_only_called_witness:
  "subseq (mon_closed (mr_monitor busy_run) @ to_close busy_run) (map snd (m_invoked (s_manager (mon_service busy_monitor))))"
  using closes_only_called [OF busy_run_reach the_async_meant] by (simp add: busy_run_def)

theorem pass_is_turn_witness:
  "\<exists>m n. monitor_turn lowest_free 5 busy_monitor = Some m
    \<and> monitor_run_all lowest_free the_async (Begin_pass 5 # callback_events True n) busy_run = Some (busy_run\<lparr>mr_monitor := m\<rparr>)"
proof -
  have "svc_ok (mon_service busy_monitor)" "s_thread_runs (mon_service busy_monitor)"
    using reach_monitor_ok [OF busy_monitor_facts(1,2)] busy_monitor_state(1) by (auto simp: monitor_ok_def svc_ok_def)
  from head_turn [OF this busy_monitor_state(2) task_call.simps(1) busy_monitor_in_use clock_5 _ lowest_free_ok]
  obtain s where "thread_turn lowest_free 5 (mon_service busy_monitor) = Some s"
    by (auto simp: over_limit_def busy_monitor_state limit_of_def)
  then obtain m where m: "monitor_turn lowest_free 5 busy_monitor = Some m" by (auto simp: monitor_turn_def)
  from pass_is_turn [of busy_run lowest_free 5 m the_async] m busy_monitor_state(1) show ?thesis by (auto simp: busy_run_def)
qed

theorem at_most_one_late_close_witness:
  "\<exists>r'. monitor_run_all lowest_free the_async [Close_tested, Test_started, Close_all, Test_started]
      (passing_run\<lparr>mr_monitor := snd (monitor_stop busy_monitor), mr_tested := Some 6\<rparr>) = Some r'
    \<and> (mon_closed (mr_monitor r') = [] \<or> mon_closed (mr_monitor r') = [6])"
proof -
  let ?r = "passing_run\<lparr>mr_monitor := snd (monitor_stop busy_monitor), mr_tested := Some 6\<rparr>"
  have off: "\<not> mon_started (mr_monitor ?r)" "mon_closed (mr_monitor ?r) = []"
    by (simp_all add: monitor_stop_def monitor_close_all_def busy_monitor_state)
  obtain r' where r': "monitor_run_all lowest_free the_async [Close_tested, Test_started, Close_all, Test_started] ?r = Some r'"
    using off by (simp add: close_tested_def test_started_def passing_run_def monitor_close_all_def)
  from at_most_one_late_close [OF r' off(1)] off(2) r' show ?thesis by auto
qed

theorem stop_cuts_pass_witness:
  "\<exists>r'. monitor_run_all lowest_free the_async (callback_events True 1 @ [Test_started, Stop_close_all, Stop_clear, Close_tested]
      @ callback_events False 1) passing_run = Some r'
    \<and> mon_closed (mr_monitor r') = [7, 8]"
  using stop_cuts_pass [of passing_run 1 lowest_free the_async] busy_monitor_state(1,4)
  by (auto simp: passing_run_def busy_run_def numeral_2_eq_2)

end
