(* ===== verification/IdleClose.thy ===== *)
theory IdleClose
  imports ConnMonitor
begin

text \<open>
  What the connection monitor (rpc\_conn\_monitor.cpp) is for: closing connections that have been silent for too long. The
  monitor has been started with a timeout, and with no maximum of connections or one that is not exceeded; connections
  are added, beat and are removed, the service's thread and its timer take turns, in any order. Only at a full monitor
  does one connection matter to another: a new one pushes the oldest out.

  The life of one connection is an automaton of its own, in which the others do not occur; the monitor with its queue,
  list, hash map and pool closes every connection exactly as its automaton says.
\<close>

section \<open>A monitor at work\<close>

datatype 'e watch_event = Watch_add 'e | Watch_update 'e | Watch_del 'e | Watch_turn | Watch_timer

fun watch_do :: "'e allocator \<Rightarrow> 'e asyn_ops \<Rightarrow> int \<Rightarrow> 'e watch_event \<Rightarrow> 'e conn_monitor \<Rightarrow> 'e conn_monitor option" where
  "watch_do construct asyn now (Watch_add e) m = Some (monitor_add asyn e m)"
| "watch_do construct asyn now (Watch_update e) m = Some (monitor_update asyn e m)"
| "watch_do construct asyn now (Watch_del e) m = Some (monitor_del asyn e m)"
| "watch_do construct asyn now Watch_turn m = monitor_turn construct now m"
| "watch_do construct asyn now Watch_timer m =
     map_option (\<lambda>s. m\<lparr>mon_service := s\<rparr>) (timer_turn now (mon_service m))"

fun watch_run :: "'e allocator \<Rightarrow> 'e asyn_ops \<Rightarrow> (int \<times> 'e watch_event) list \<Rightarrow> 'e conn_monitor \<Rightarrow> 'e conn_monitor option" where
  "watch_run construct asyn [] m = Some m"
| "watch_run construct asyn ((now, ev) # evs) m = Option.bind (watch_do construct asyn now ev m) (watch_run construct asyn evs)"

definition watching :: "int \<Rightarrow> 32 word \<Rightarrow> 64 word option \<Rightarrow> (ptr \<Rightarrow> 'e list) \<Rightarrow> bool \<Rightarrow> 'e conn_monitor" where
  "watching now t lim vts garbage = start_monitor now
     (Some \<lparr>hb_timeout_flag = True, hb_timeout = t, hb_max_limit_flag = lim \<noteq> None,
        hb_max_limit = (case lim of None \<Rightarrow> 0 | Some n \<Rightarrow> n)\<rparr>) (init_monitor vts garbage)"

text \<open>The connections that are added are no more than the maximum, if there is one.\<close>

definition added :: "(int \<times> 'e watch_event) list \<Rightarrow> 'e list" where
  "added evs = remdups (concat (map (\<lambda>(now, ev). case ev of Watch_add e \<Rightarrow> [e] | _ \<Rightarrow> []) evs))"

definition fits :: "64 word option \<Rightarrow> (int \<times> 'e watch_event) list \<Rightarrow> bool" where
  "fits lim evs \<longleftrightarrow> (case lim of None \<Rightarrow> True | Some n \<Rightarrow> n \<noteq> 0 \<and> length (added evs) \<le> unat n)"

text \<open>The calls that the events post, and the history of those that the thread has run, with the time of its turn.\<close>

fun watch_calls :: "'e watch_event \<Rightarrow> 'e mgr_call list" where
  "watch_calls (Watch_add e) = [Add e]"
| "watch_calls (Watch_update e) = [Update e]"
| "watch_calls (Watch_del e) = [Del e]"
| "watch_calls Watch_turn = []"
| "watch_calls Watch_timer = [Handle_timeout]"

definition calls_run :: "(int \<times> 'e watch_event) list \<Rightarrow> (int \<times> 'e mgr_call) list" where
  "calls_run evs = zip (map fst (filter (\<lambda>(now, ev). ev = Watch_turn) evs)) (concat (map (\<lambda>(now, ev). watch_calls ev) evs))"

section \<open>The life of one connection\<close>

text \<open>\<open>Some b\<close>: the monitor holds it, and its last beat was at \<open>b\<close>. The second result says that it is closed.\<close>

fun life_step :: "32 word \<Rightarrow> 'e \<Rightarrow> int \<Rightarrow> 'e mgr_call \<Rightarrow> int option \<Rightarrow> int option \<times> bool" where
  "life_step t e now (Add e') b = (if e' = e \<and> b = None then Some now else b, False)"
| "life_step t e now (Update e') b = (if e' = e \<and> b \<noteq> None then Some now else b, False)"
| "life_step t e now (Del e') b = (if e' = e then None else b, False)"
| "life_step t e now Handle_timeout b = (case b of
     Some beat \<Rightarrow> if beat + uint t \<le> now then (None, True) else (b, False)
   | None \<Rightarrow> (None, False))"

text \<open>The times at which it is closed.\<close>

fun life :: "32 word \<Rightarrow> 'e \<Rightarrow> (int \<times> 'e mgr_call) list \<Rightarrow> int option \<Rightarrow> int option \<times> int list" where
  "life t e [] b = (b, [])"
| "life t e ((now, c) # hs) b =
     (let (b, closed) = life_step t e now c b; (b, times) = life t e hs b
      in (b, (if closed then [now] else []) @ times))"

definition concerns :: "'e \<Rightarrow> 'e mgr_call \<Rightarrow> bool" where
  "concerns e c \<longleftrightarrow> c \<in> {Add e, Update e, Del e, Handle_timeout}"

lemma life_append: "life t e (xs @ ys) b = (let (b, ts) = life t e xs b; (b, us) = life t e ys b in (b, ts @ us))"
  by (induction xs arbitrary: b) (auto split: prod.splits)

text \<open>Calls for others do not matter.\<close>

lemma life_step_other: "\<not> concerns e c \<Longrightarrow> life_step t e now c b = (b, False)"
  by (cases c) (auto simp: concerns_def)

lemma life_own: "life t e (filter (\<lambda>(now, c). concerns e c) hs) b = life t e hs b"
  by (induction t e hs b rule: life.induct) (auto simp: life_step_other split: prod.splits)

text \<open>Once it is gone it stays so until it is added again, and a silent one is closed by the first pass that is due.\<close>

lemma life_gone: "\<forall>(now, c) \<in> set hs. c \<noteq> Add e \<Longrightarrow> life t e hs None = (None, [])"
proof (induction hs)
  case (Cons h hs)
  then show ?case by (cases h; cases "snd h") auto
qed simp

lemma life_silent:
  assumes "\<forall>(now, c) \<in> set hs. c \<notin> {Add e, Update e, Del e}"
  shows "life t e hs (Some b) = (case find (\<lambda>(now, c). c = Handle_timeout \<and> b + uint t \<le> now) hs of
      None \<Rightarrow> (Some b, []) | Some (now, c) \<Rightarrow> (None, [now]))"
  using assms
proof (induction hs)
  case (Cons h hs)
  obtain now c where h: "h = (now, c)" by (cases h)
  have gone: "life t e hs None = (None, [])" by (rule life_gone) (use Cons.prems in auto)
  from Cons h gone show ?case by (cases c) (auto simp: split_beta split: option.split)
qed simp

section \<open>The registry lives all lives at once\<close>

definition last_beat :: "'e \<Rightarrow> 'e element_data list \<Rightarrow> int option" where
  "last_beat e xs = map_option ed_time (find (\<lambda>d. ed_element d = e) xs)"

lemma last_beat_simps [simp]:
  "last_beat e [] = None" "last_beat e (d # xs) = (if ed_element d = e then Some (ed_time d) else last_beat e xs)"
  by (simp_all add: last_beat_def)

lemma last_beat_None: "last_beat e xs = None \<longleftrightarrow> e \<notin> ed_element ` set xs"
  by (auto simp: last_beat_def find_None_iff)

lemma last_beat_other: "e' \<noteq> e \<Longrightarrow> last_beat e (filter (\<lambda>x. ed_element x \<noteq> e') xs) = last_beat e xs"
  by (induction xs) auto

lemma last_beat_self [simp]: "last_beat e (filter (\<lambda>x. ed_element x \<noteq> e) xs) = None"
  by (auto simp: last_beat_None)

lemma last_beat_pass:
  assumes "distinct (map ed_element xs)"
  shows "last_beat e (filter (\<lambda>x. \<not> due now t x) xs) = fst (life_step t e now Handle_timeout (last_beat e xs))
    \<and> count_list (rev (map ed_element (filter (due now t) xs))) e
        = (if snd (life_step t e now Handle_timeout (last_beat e xs)) then 1 else 0)"
  using assms
proof (induction xs)
  case (Cons d xs)
  show ?case
  proof (cases "ed_element d = e")
    case True
    with Cons.prems have none: "last_beat e xs = None" by (simp add: last_beat_None)
    with Cons True show ?thesis by (auto simp: due_def)
  next
    case False
    with Cons show ?thesis by (simp add: due_def)
  qed
qed simp

lemma spec_call_lives:
  assumes "spec_mgr_call None (Some t) now c xs = (r, ys, fired)" and "distinct (map ed_element xs)"
  shows "life_step t e now c (last_beat e xs) = (last_beat e ys, count_list fired e \<noteq> 0)
    \<and> count_list fired e \<le> 1 \<and> distinct (map ed_element ys)"
proof (cases c)
  case (Add e')
  with assms last_beat_None [of e xs] show ?thesis
    by (auto simp: over_limit_def stamped_def split: if_splits)
next
  case (Update e')
  with assms last_beat_None [of e xs] show ?thesis
    by (auto simp: stamped_def last_beat_other distinct_map_filter split: if_splits)
next
  case (Del e')
  with assms last_beat_None [of e xs] show ?thesis
    by (auto simp: last_beat_other distinct_map_filter split: if_splits)
next
  case Handle_timeout
  with assms last_beat_pass [OF assms(2), of e now t] show ?thesis
    by (auto simp: distinct_map_filter prod_eq_iff)
qed

lemma spec_history_lives:
  assumes "spec_history None (Some t) hs xs = (rs, ys, fired)" and "distinct (map ed_element xs)"
  shows "fst (life t e hs (last_beat e xs)) = last_beat e ys
    \<and> length (snd (life t e hs (last_beat e xs))) = count_list fired e"
  using assms
proof (induction hs arbitrary: xs rs fired)
  case (Cons h hs)
  obtain now c where h: "h = (now, c)" by (cases h)
  obtain r zs f1 where one: "spec_mgr_call None (Some t) now c xs = (r, zs, f1)"
    by (cases "spec_mgr_call None (Some t) now c xs")
  with Cons.prems(1) h obtain rs' f2 where rest: "spec_history None (Some t) hs zs = (rs', ys, f2)" "fired = f1 @ f2"
    by (auto split: prod.splits)
  note step = spec_call_lives [OF one Cons.prems(2), of e]
  from Cons.IH [OF rest(1)] step show ?case by (auto simp: h rest(2) split_beta le_Suc_eq)
qed simp

text \<open>With a maximum that the added connections do not exceed, nothing is pushed out.\<close>

lemma spec_call_fits:
  assumes "spec_mgr_call lim tmo now c xs = (r, ys, fired)" and "distinct (map ed_element xs)" and "ed_element ` set xs \<subseteq> set A"
    and "\<forall>e. c = Add e \<longrightarrow> e \<in> set A" and "\<forall>n. lim = Some n \<longrightarrow> length A \<le> n"
  shows "spec_mgr_call None tmo now c xs = (r, ys, fired) \<and> distinct (map ed_element ys) \<and> ed_element ` set ys \<subseteq> set A"
proof (cases c)
  case (Add e)
  have "length xs + 1 \<le> length A" if "e \<notin> ed_element ` set xs"
  proof -
    have "set (map ed_element (stamped now e # xs)) \<subseteq> set A" using assms(3,4) Add by (simp add: stamped_def)
    moreover have "distinct (map ed_element (stamped now e # xs))" using assms(2) that by (simp add: stamped_def)
    ultimately have "length (map ed_element (stamped now e # xs)) \<le> card (set A)"
      by (metis card_mono distinct_card finite_set)
    then show ?thesis using card_length [of A] by simp
  qed
  with assms(1,2,5) Add have "spec_mgr_call None tmo now c xs = (r, ys, fired) \<and> distinct (map ed_element ys)
      \<and> ed_element ` set ys \<subseteq> insert e (ed_element ` set xs)"
    by (auto simp: over_limit_def stamped_def split: if_splits option.splits)
  with assms(3,4) Add show ?thesis by blast
next
  case (Update e)
  with assms show ?thesis by (auto simp: stamped_def distinct_map_filter image_subset_iff split: if_splits)
next
  case (Del e)
  with assms show ?thesis by (auto simp: distinct_map_filter image_subset_iff split: if_splits)
next
  case Handle_timeout
  with assms show ?thesis by (auto simp: distinct_map_filter image_subset_iff split: option.splits)
qed

lemma spec_history_fits:
  assumes "spec_history lim tmo hs xs = (rs, ys, fired)" and "distinct (map ed_element xs)" and "ed_element ` set xs \<subseteq> set A"
    and "\<forall>(now, c) \<in> set hs. \<forall>e. c = Add e \<longrightarrow> e \<in> set A" and "\<forall>n. lim = Some n \<longrightarrow> length A \<le> n"
  shows "spec_history None tmo hs xs = (rs, ys, fired)"
  using assms(1-4)
proof (induction hs arbitrary: xs rs fired)
  case (Cons h hs)
  obtain now c where h: "h = (now, c)" by (cases h)
  obtain r zs f1 where one: "spec_mgr_call lim tmo now c xs = (r, zs, f1)" by (cases "spec_mgr_call lim tmo now c xs")
  from Cons.prems(1) h one obtain rs' f2 where rest: "spec_history lim tmo hs zs = (rs', ys, f2)"
    by (auto split: prod.splits)
  note step = spec_call_fits [OF one Cons.prems(2,3) _ assms(5)]
  have "spec_mgr_call None tmo now c xs = (r, zs, f1)" "distinct (map ed_element zs)" "ed_element ` set zs \<subseteq> set A"
    using step Cons.prems(4) by (simp_all add: h)
  with Cons.IH [OF rest] Cons.prems(1,4) one rest show ?case by (auto simp: h)
qed simp

section \<open>The monitor runs the history of its calls\<close>

fun svc_event_of :: "'e watch_event \<Rightarrow> ('e, monitor_callback) svc_event" where
  "svc_event_of (Watch_add e) = Async_add e"
| "svc_event_of (Watch_update e) = Async_update e"
| "svc_event_of (Watch_del e) = Async_del e"
| "svc_event_of Watch_turn = Thread_turn"
| "svc_event_of Watch_timer = Timer_turn"

abbreviation svc_events :: "(int \<times> 'e watch_event) list \<Rightarrow> (int \<times> ('e, monitor_callback) svc_event) list" where
  "svc_events evs \<equiv> map (\<lambda>(now, ev). (now, svc_event_of ev)) evs"

text \<open>A started monitor does what its service does, and closes what the callbacks name.\<close>

lemma watch_event_svc:
  assumes "mon_started m" and "meant_for_async asyn" and "watch_do construct asyn now ev m = Some m'"
  shows "svc_do construct now (svc_event_of ev) (mon_service m) = Some (mon_service m') \<and> mon_started m'
    \<and> (\<exists>cs. m_invoked (s_manager (mon_service m')) = m_invoked (s_manager (mon_service m)) @ cs
          \<and> mon_closed m' = mon_closed m @ map snd cs)"
proof (cases ev)
  case Watch_turn
  with assms(3) obtain u where u: "thread_turn construct now (mon_service m) = Some u" "mon_service m' = u"
    "mon_closed m' = mon_closed m @ called_from (calls_made (mon_service m)) u" "mon_started m'"
    using assms(1) by (auto simp: monitor_turn_closes)
  obtain cs where "m_invoked (s_manager u) = m_invoked (s_manager (mon_service m)) @ cs"
    using grows_turn [OF u(1)] by (auto simp: grows_def effect_def)
  with u Watch_turn show ?thesis by (simp add: called_from_def calls_made_def)
next
  case Watch_timer
  with assms(1,3) show ?thesis by (auto simp: timer_turn_def post_def split: if_splits)
qed (use assms in \<open>auto simp: monitor_add_def monitor_update_def monitor_del_def meant_for_async_def post_ops\<close>)

lemma watch_run_svc:
  assumes "mon_started m" and "meant_for_async asyn" and "watch_run construct asyn evs m = Some m'"
  shows "svc_run construct (svc_events evs) (mon_service m) = Some (mon_service m') \<and> mon_started m'
    \<and> (\<exists>cs. m_invoked (s_manager (mon_service m')) = m_invoked (s_manager (mon_service m)) @ cs
          \<and> mon_closed m' = mon_closed m @ map snd cs)"
  using assms
proof (induction evs arbitrary: m)
  case (Cons h evs)
  obtain now ev where h: "h = (now, ev)" by (cases h)
  with Cons.prems(3) obtain u where u: "watch_do construct asyn now ev m = Some u" "watch_run construct asyn evs u = Some m'"
    by (auto simp: bind_eq_Some_conv)
  note step = watch_event_svc [OF Cons.prems(1,2) u(1)]
  from Cons.IH [OF _ Cons.prems(2) u(2)] step show ?case by (auto simp: h)
qed simp

lemma watching_state:
  "mon_started (watching now t lim vts g)" "svc_ok (mon_service (watching now t lim vts g))"
  "s_thread_runs (mon_service (watching now t lim vts g))" "s_tasks (mon_service (watching now t lim vts g)) = []"
  "s_manager (mon_service (watching now t lim vts g)) = init_mgr\<lparr>m_callback_function := Some Bind_handle_timeout,
     m_timeout_flag := True, m_timeout := t, m_max_limit_flag := lim \<noteq> None,
     m_max_limit := (case lim of None \<Rightarrow> 0 | Some n \<Rightarrow> n)\<rparr>"
  "mon_closed (watching now t lim vts g) = []"
proof -
  let ?m = "init_monitor vts g"
  have "monitor_ok ?m" by (auto simp: monitor_ok_def init_monitor_def init_service_def init_mgr_def svc_ok_def passes_def)
  from monitor_start_ok [OF this] show "svc_ok (mon_service (watching now t lim vts g))"
    by (simp add: watching_def start_monitor_def monitor_ok_def)
qed (simp_all add: watching_def start_monitor_def monitor_start_service init_monitor_def init_service_def svc_start_def
  set_expiry_def async_wait_def Let_def)

lemma watching_config:
  "limit_of (s_manager (mon_service (watching now t lim vts g))) = map_option unat lim"
  "timeout_of (s_manager (mon_service (watching now t lim vts g))) = Some t"
  by (simp_all add: watching_state limit_of_def timeout_of_def split: option.split)

lemma watching_in_use: "lim \<noteq> Some 0 \<Longrightarrow> in_use now (s_manager (mon_service (watching now t lim vts g))) []"
  by (auto simp: in_use_def watching_config unat_eq_zero)
    (auto simp: watching_state timed_def init_mgr_def mgr_wf_def hbl_def unlinked_but_def indexes_def counted_def view_def)

lemma calls_added: "\<forall>(now, c) \<in> set (calls_run evs). \<forall>e. c = Add e \<longrightarrow> e \<in> set (added evs)"
proof -
  have "e \<in> set (added evs)" if "(now, Add e) \<in> set (calls_run evs)" for now e
  proof -
    from that have "Add e \<in> set (concat (map (\<lambda>(now, ev). watch_calls ev) evs))"
      unfolding calls_run_def by (rule set_zip_rightD)
    then obtain now' ev where "(now', ev) \<in> set evs" "Add e \<in> set (watch_calls ev)" by auto
    then show ?thesis by (cases ev) (force simp: added_def)+
  qed
  then show ?thesis by blast
qed

lemma calls_run_svc:
  assumes "s_tasks s = []"
  shows "zip (turn_times (svc_events evs)) (all_calls (svc_events evs) s) = calls_run evs"
proof -
  have "filter (\<lambda>(now, ev). ev = Thread_turn) (svc_events evs) = svc_events (filter (\<lambda>(now, ev). ev = Watch_turn) evs)"
  proof (induction evs)
    case (Cons h evs)
    then show ?case by (cases h; cases "snd h") auto
  qed simp
  moreover have "event_calls (svc_event_of ev) = watch_calls ev" for ev :: "'a watch_event" by (cases ev) simp_all
  ultimately show ?thesis using assms
    by (simp add: turn_times_def all_calls_def queued_calls_def calls_run_def comp_def case_prod_unfold)
qed

lemma watch_history:
  assumes "meant_for_async asyn" and "fresh_allocator construct" and "never_exhausted construct"
    and "watch_run construct asyn evs (watching now t lim vts g) = Some m"
    and "clock_runs now (calls_run evs)" and "length evs < 2 ^ 64" and "fits lim evs"
  shows "\<exists>rs ys fired t'. spec_history None (Some t) (calls_run evs) [] = (rs, ys, fired)
    \<and> in_use t' (s_manager (mon_service m)) ys \<and> mon_closed m = fired"
proof -
  let ?m = "watching now t lim vts g" and ?evs = "svc_events evs"
  note st = watching_state [of now t lim vts g]
  from watch_run_svc [OF st(1) assms(1,4)] obtain cs where
    run: "svc_run construct ?evs (mon_service ?m) = Some (mon_service m)" and
    cs: "m_invoked (s_manager (mon_service m)) = cs" "mon_closed m = map snd cs" by (auto simp: st(5,6) init_mgr_def)
  have plain: "plain_tasks (mon_service ?m)" "\<forall>(now, ev) \<in> set ?evs. plain_event ev"
  proof -
    have "plain_event (svc_event_of ev)" for ev :: "'a watch_event" by (cases ev) simp_all
    then show "\<forall>(now, ev) \<in> set ?evs. plain_event ev" by auto
  qed (simp add: plain_tasks_def st(4))
  obtain rs ys fired where spec: "spec_history (map_option unat lim) (Some t) (calls_run evs) [] = (rs, ys, fired)"
    by (cases "spec_history (map_option unat lim) (Some t) (calls_run evs) ([] :: 'a element_data list)")
  have "\<forall>n. map_option unat lim = Some n \<longrightarrow> length (added evs) \<le> n" and lim: "lim \<noteq> Some 0"
    using assms(7) by (auto simp: fits_def split: option.splits)
  from spec_history_fits [OF spec _ _ calls_added this(1)]
  have free: "spec_history None (Some t) (calls_run evs) [] = (rs, ys, fired)" by simp
  have "length (calls_run evs) \<le> length evs" by (simp add: calls_run_def le_trans [OF min.cobounded1])
  then have "length [] + length (calls_run evs) < 2 ^ 64" using assms(6) by simp
  then obtain m1 t' where h: "run_history construct (calls_run evs) (s_manager (mon_service ?m)) = Some (rs, m1)"
    "in_use t' m1 ys" "effect (s_manager (mon_service ?m)) m1 fired"
    using mgr_history_in_use [OF watching_in_use [OF lim, of now t vts g] assms(5) _ assms(2,3)] spec
    unfolding watching_config by auto
  moreover have "m1 = s_manager (mon_service m)"
    using svc_run_history [OF st(2,3) plain run] h(1) unfolding calls_run_svc [OF st(4)] by auto
  moreover have "map snd cs = fired" using h(3) cs(1) calculation(4) by (simp add: effect_def st(5) init_mgr_def callbacks_def comp_def)
  ultimately show ?thesis using free cs(2) by blast
qed

text \<open>C11: In any run of a started monitor with a timeout, whatever the interleaving of connections, thread and timer, as long as
  it is neither stopped nor told to close all, and has no maximum or one that the connections added do not exceed (a full
  monitor would push its oldest connection out): each connection is closed exactly as often and is held exactly when its
  own life says, in which only its own calls and the passes occur, in the order in which they were posted.\<close>

theorem connections_live_alone:
  assumes "meant_for_async asyn" and "fresh_allocator construct" and "never_exhausted construct"
    and "watch_run construct asyn evs (watching now t lim vts g) = Some m"
    and "clock_runs now (calls_run evs)" and "length evs < 2 ^ 64" and "fits lim evs"
  shows "count_list (mon_closed m) e = length (snd (life t e (filter (\<lambda>(now, c). concerns e c) (calls_run evs)) None))
    \<and> (m_elements (s_manager (mon_service m)) e \<noteq> None
        \<longleftrightarrow> fst (life t e (filter (\<lambda>(now, c). concerns e c) (calls_run evs)) None) \<noteq> None)"
proof -
  from watch_history [OF assms] obtain rs ys fired t' ps where
    h: "spec_history None (Some t) (calls_run evs) [] = (rs, ys, fired)" "mon_closed m = fired"
      "mgr_wf (s_manager (mon_service m)) ps" "view (s_manager (mon_service m)) ps = ys"
    by (auto simp: in_use_def)
  from spec_history_lives [OF h(1), of e] have
    "fst (life t e (calls_run evs) None) = last_beat e ys" "length (snd (life t e (calls_run evs) None)) = count_list fired e"
    by simp_all
  moreover have "m_elements (s_manager (mon_service m)) e \<noteq> None \<longleftrightarrow> e \<in> ed_element ` set ys"
    using present_iff [OF h(3), of e] h(4) by simp
  ultimately show ?thesis using h(2) by (simp add: life_own last_beat_None)
qed

text \<open>C10: In the same runs (a timeout; no maximum, or one that is not exceeded; not stopped and not told to close all): a
  connection whose last beat the thread has registered at \<open>b\<close> and that is silent from then on is closed by the next
  pass at \<open>b\<close> plus the timeout or later, and not before: it is closed once more if there is such a pass, and is
  still held if there is none.\<close>

theorem silent_connections_are_closed:
  assumes "meant_for_async asyn" and "fresh_allocator construct" and "never_exhausted construct"
    and "watch_run construct asyn evs (watching now t lim vts g) = Some m"
    and "clock_runs now (calls_run evs)" and "length evs < 2 ^ 64" and "fits lim evs"
    and "calls_run evs = pre @ mid" and "fst (life t e pre None) = Some b"
    and "\<forall>(now, c) \<in> set mid. c \<notin> {Add e, Update e, Del e}"
  shows "if \<exists>now. (now, Handle_timeout) \<in> set mid \<and> b + uint t \<le> now
    then count_list (mon_closed m) e = Suc (length (snd (life t e pre None))) \<and> m_elements (s_manager (mon_service m)) e = None
    else count_list (mon_closed m) e = length (snd (life t e pre None)) \<and> m_elements (s_manager (mon_service m)) e \<noteq> None"
proof -
  from watch_history [OF assms(1-7)] obtain rs ys fired t' ps where
    h: "spec_history None (Some t) (calls_run evs) [] = (rs, ys, fired)" "mon_closed m = fired"
      "mgr_wf (s_manager (mon_service m)) ps" "view (s_manager (mon_service m)) ps = ys"
    by (auto simp: in_use_def)
  from spec_history_lives [OF h(1), of e] have
    lives: "fst (life t e (calls_run evs) None) = last_beat e ys" "length (snd (life t e (calls_run evs) None)) = count_list fired e"
    by simp_all
  have whole: "life t e (calls_run evs) None
      = (let (b', us) = life t e mid (Some b) in (b', snd (life t e pre None) @ us))"
    unfolding assms(8) life_append using assms(9) by (simp add: split_beta)
  have held: "m_elements (s_manager (mon_service m)) e \<noteq> None \<longleftrightarrow> last_beat e ys \<noteq> None"
    using present_iff [OF h(3), of e] h(4) by (simp add: last_beat_None)
  show ?thesis
  proof (cases "find (\<lambda>(now, c). c = Handle_timeout \<and> b + uint t \<le> now) mid")
    case None
    then have "\<not> (\<exists>now. (now, Handle_timeout) \<in> set mid \<and> b + uint t \<le> now)" by (auto simp: find_None_iff)
    with None lives held h(2) whole life_silent [OF assms(10), of t b] show ?thesis by (auto simp: eq_commute [of "Some b"])
  next
    case (Some h')
    then have "h' \<in> set mid" "case h' of (now, c) \<Rightarrow> c = Handle_timeout \<and> b + uint t \<le> now"
      using find_in by fastforce+
    then have "\<exists>now. (now, Handle_timeout) \<in> set mid \<and> b + uint t \<le> now" by auto
    with Some lives held h(2) whole life_silent [OF assms(10), of t b] show ?thesis by (cases h') simp
  qed
qed

section \<open>Instances\<close>

text \<open>A timeout of 25 seconds and a maximum of one connection; connection 7 is added at 1, and a pass runs at 30.\<close>

definition watched :: "(int \<times> nat watch_event) list" where
  "watched = [(1, Watch_add 7), (1, Watch_turn), (30, Watch_timer), (30, Watch_turn)]"

lemma watched_calls: "calls_run watched = [(1, Add 7), (30, Handle_timeout)]"
  by (simp add: watched_def calls_run_def)

lemma watched_run: "\<exists>m. watch_run lowest_free the_async watched (watching 0 25 (Some 1) (\<lambda>_. []) False) = Some m"
proof -
  let ?m = "watching 0 25 (Some 1) (\<lambda>_. []) False :: nat conn_monitor"
  let ?s = "post (Task_add 7) (mon_service ?m)"
  note st = watching_state [of 0 25 "Some 1" "\<lambda>_. [] :: nat list" False]
  have clock: "clock_ok n" if "n < 100" for n using that by (simp add: clock_ok_def)
  have config: "limit_of (s_manager (mon_service ?m)) = Some 1" "timeout_of (s_manager (mon_service ?m)) = Some 25"
    by (simp_all add: watching_config)
  have s: "svc_ok ?s" "s_thread_runs ?s" "s_tasks ?s = [Task_add 7]" "s_manager ?s = s_manager (mon_service ?m)"
    "s_expires_at ?s = 10"
    using st(2) by simp (simp_all add: post_def st(3,4), simp add: watching_def start_monitor_def monitor_start_service
      init_monitor_def init_service_def svc_start_def set_expiry_def async_wait_def HEART_BEAT_TICKS_def Let_def)
  obtain u where u: "thread_turn lowest_free 1 ?s = Some u" "svc_ok u" "s_thread_runs u" "s_tasks u = []"
    "in_use 1 (s_manager u) [stamped 1 7]" "effect (s_manager (mon_service ?m)) (s_manager u) []"
    using head_turn [OF s(1-3) _ _ _ clock _ lowest_free_ok, of "Add 7" 0 "[]" 1] watching_in_use [of "Some 1" 0 25 "\<lambda>_. []" False]
    by (auto simp: s(4) config over_limit_def)
  have "s_expires_at u = 10"
    using plain_turn [OF s(1) _ u(1)] s(3,5) by (auto simp: plain_tasks_def queued_calls_def split: if_splits)
  moreover have "s_waits u = 1" using u(2-4) by (simp add: svc_ok_def passes_def)
  ultimately have w: "timer_turn 30 u = Some (post (Task_timeout False) (u\<lparr>s_waits := 0\<rparr>))" (is "_ = Some ?w")
    by (simp add: timer_turn_def)
  have "svc_ok ?w" using svc_do_ok [OF u(2), of lowest_free 30 Timer_turn ?w] w by simp
  then obtain v where "thread_turn lowest_free 30 ?w = Some v"
    using head_turn [of ?w "Task_timeout False" "[]" Handle_timeout 1 "[stamped 1 7]" 30 lowest_free] u clock [of 30] lowest_free_ok
      effect_limit [OF u(6)] config
    by (auto simp: post_def)
  then show ?thesis
    using u(1) w by (simp add: watched_def monitor_add_def st(1) the_async_def async_add_element_def monitor_turn_closes)
qed

lemma watched_clock: "clock_runs 0 (calls_run watched)" "length watched < 2 ^ 64"
  by (simp_all add: watched_calls clock_ok_def) (simp add: watched_def)

lemma watched_fits: "fits (Some 1) watched"
  by (simp add: fits_def added_def watched_def)

theorem connections_live_alone_witness:
  "\<exists>m. watch_run lowest_free the_async watched (watching 0 25 (Some 1) (\<lambda>_. []) False) = Some m
    \<and> count_list (mon_closed m) 7 = 1 \<and> count_list (mon_closed m) 8 = 0 \<and> m_elements (s_manager (mon_service m)) 7 = None"
proof -
  obtain m where m: "watch_run lowest_free the_async watched (watching 0 25 (Some 1) (\<lambda>_. []) False) = Some m"
    using watched_run by blast
  note lives = connections_live_alone [OF the_async_meant lowest_free_ok m watched_clock watched_fits]
  from lives [of 7] lives [of 8] m show ?thesis by (simp add: watched_calls concerns_def)
qed

theorem silent_connections_are_closed_witness:
  "\<exists>m. watch_run lowest_free the_async watched (watching 0 25 (Some 1) (\<lambda>_. []) False) = Some m
    \<and> count_list (mon_closed m) 7 = 1 \<and> m_elements (s_manager (mon_service m)) 7 = None"
proof -
  obtain m where m: "watch_run lowest_free the_async watched (watching 0 25 (Some 1) (\<lambda>_. []) False) = Some m"
    using watched_run by blast
  have "calls_run watched = [(1, Add 7)] @ [(30, Handle_timeout)]" by (simp add: watched_calls)
  from silent_connections_are_closed [OF the_async_meant lowest_free_ok m watched_clock watched_fits this, of 7 1] m
  show ?thesis by simp
qed

end
