(* ===== verification/IoServicePool.thy ===== *)
theory IoServicePool
  imports NbPrelude
begin

text \<open>
  The pool of io services, \<open>io_service_pool_t\<close> of mylib/utility/io\_service\_pool.h and .cpp.

  Services are never removed from the pool, so the n-th service created is the number n. A thread is
  the service it runs. \<open>runs_out s\<close> says that \<open>run\<close> of service \<open>s\<close> returns once the
  pool no longer holds work for it, which is when it has no handler and no operation outstanding;
  \<open>stop\<close> joins the threads, and is \<open>None\<close> where one of them is never done.
\<close>

record io_service_pool =
  m_io_services_set :: "nat list"
  m_work_set :: "nat list"
  m_next_io_service :: "64 word"
  m_vt_threads :: "nat list"

datatype pool_exception = Pool_size_is_0 | Index_error

definition init_pool :: io_service_pool where
  "init_pool = \<lparr>m_io_services_set = [], m_work_set = [], m_next_io_service = 0, m_vt_threads = []\<rparr>"

definition pool_start :: "nat \<Rightarrow> io_service_pool \<Rightarrow> pool_exception + io_service_pool" where
  "pool_start pool_size p =
     (if pool_size = 0 then Inl Pool_size_is_0
      else let n = length (m_io_services_set p);
               p = p\<lparr>m_io_services_set := m_io_services_set p @ [n..<n + pool_size],
                     m_work_set := m_work_set p @ [n..<n + pool_size]\<rparr>
           in Inr (p\<lparr>m_vt_threads := m_vt_threads p @ m_io_services_set p\<rparr>))"

definition pool_stop :: "(nat \<Rightarrow> bool) \<Rightarrow> io_service_pool \<Rightarrow> io_service_pool option" where
  "pool_stop runs_out p =
     (let p = p\<lparr>m_work_set := []\<rparr>
      in if list_all runs_out (m_vt_threads p) then Some (p\<lparr>m_vt_threads := []\<rparr>) else None)"

definition destroy_pool :: "(nat \<Rightarrow> bool) \<Rightarrow> io_service_pool \<Rightarrow> io_service_pool option" where
  "destroy_pool runs_out p = pool_stop runs_out p"

text \<open>\<open>None\<close>: the remainder by a size of 0.\<close>

definition get_io_service :: "io_service_pool \<Rightarrow> (nat \<times> io_service_pool) option" where
  "get_io_service p =
     (let n = of_nat (length (m_io_services_set p)) :: 64 word
      in if n = 0 then None
         else Some (m_io_services_set p ! unat (m_next_io_service p mod n),
                    p\<lparr>m_next_io_service := m_next_io_service p + 1\<rparr>))"

definition get_io_service_at :: "nat \<Rightarrow> io_service_pool \<Rightarrow> pool_exception + nat" where
  "get_io_service_at index p =
     (if index < length (m_io_services_set p) then Inr (m_io_services_set p ! index)
      else Inl Index_error)"

definition get_io_size :: "io_service_pool \<Rightarrow> nat" where
  "get_io_size p = length (m_io_services_set p)"

fun get_many :: "nat \<Rightarrow> io_service_pool \<Rightarrow> (nat list \<times> io_service_pool) option" where
  "get_many 0 p = Some ([], p)"
| "get_many (Suc k) p = do {
     (s, p) \<leftarrow> get_io_service p;
     (ss, p) \<leftarrow> get_many k p;
     Some (s # ss, p)
   }"

section \<open>States of the pool\<close>

text \<open>The services are numbered in order, and there are no more of them than a \<open>size_t\<close>
  counts; only services of the pool are run or kept at work.\<close>

definition pool_ok :: "io_service_pool \<Rightarrow> bool" where
  "pool_ok p \<longleftrightarrow> m_io_services_set p = [0..<get_io_size p] \<and> get_io_size p < 2 ^ 64
     \<and> set (m_vt_threads p) \<subseteq> set (m_io_services_set p) \<and> set (m_work_set p) \<subseteq> set (m_io_services_set p)"

inductive pool_step :: "io_service_pool \<Rightarrow> io_service_pool \<Rightarrow> bool" where
  step_start: "pool_start n p = Inr q \<Longrightarrow> get_io_size q < 2 ^ 64 \<Longrightarrow> pool_step p q"
| step_stop: "pool_stop runs_out p = Some q \<Longrightarrow> pool_step p q"
| step_get: "get_io_service p = Some (s, q) \<Longrightarrow> pool_step p q"

lemma pool_start_ok:
  assumes "pool_ok p" and "pool_start n p = Inr q" and "get_io_size q < 2 ^ 64"
  shows "pool_ok q"
proof -
  let ?k = "get_io_size p"
  have set: "m_io_services_set p = [0..<?k]" using assms(1) by (simp add: pool_ok_def)
  have join: "[0..<?k] @ [?k..<?k + n] = [0..<?k + n]" using upt_add_eq_append [of 0 ?k n] by simp
  from assms(2) have q: "q = p\<lparr>m_io_services_set := [0..<?k + n],
      m_work_set := m_work_set p @ [?k..<?k + n], m_vt_threads := m_vt_threads p @ [0..<?k + n]\<rparr>"
    using join by (simp add: pool_start_def Let_def set flip: get_io_size_def split: if_splits)
  have "set (m_vt_threads p) \<subseteq> {0..<?k}" "set (m_work_set p) \<subseteq> {0..<?k}"
    using assms(1) set by (auto simp: pool_ok_def)
  with q assms(3) show ?thesis by (auto simp: pool_ok_def get_io_size_def)
qed

interpretation pool: inductive_invariant "\<lambda>p. p = init_pool" pool_step pool_ok
proof
  show "pool_ok q" if step: "pool_step p q" and ok: "pool_ok p" for p q
    using step
  proof (cases rule: pool_step.cases)
    case (step_start n)
    then show ?thesis by (rule pool_start_ok [OF ok])
  next
    case (step_stop runs_out)
    with ok show ?thesis by (auto simp: pool_stop_def pool_ok_def get_io_size_def split: if_splits)
  next
    case (step_get s)
    with ok show ?thesis
      by (auto simp: get_io_service_def pool_ok_def get_io_size_def Let_def split: if_splits)
  qed
qed (simp add: pool_ok_def init_pool_def get_io_size_def)

section \<open>Round robin\<close>

lemma get_io_service_ok:
  assumes "pool_ok p" and "0 < get_io_size p"
  shows "get_io_service p = Some (unat (m_next_io_service p) mod get_io_size p,
    p\<lparr>m_next_io_service := m_next_io_service p + 1\<rparr>)"
proof -
  let ?n = "get_io_size p"
  have n: "unat (of_nat ?n :: 64 word) = ?n" using assms(1) by (simp add: unat_of_nat pool_ok_def)
  then have "of_nat ?n \<noteq> (0 :: 64 word)" using assms(2) by auto
  moreover have "unat (m_next_io_service p) mod ?n < ?n" using assms(2) by simp
  moreover have "m_io_services_set p = [0..<?n]" using assms(1) by (simp add: pool_ok_def)
  ultimately show ?thesis
    using n by (simp add: get_io_service_def Let_def unat_mod_distrib flip: get_io_size_def)
qed

lemma get_many_ok:
  assumes "pool_ok p" and "0 < get_io_size p" and "unat (m_next_io_service p) + k < 2 ^ 64"
  shows "get_many k p = Some (map (\<lambda>i. i mod get_io_size p)
      [unat (m_next_io_service p)..<unat (m_next_io_service p) + k],
    p\<lparr>m_next_io_service := m_next_io_service p + of_nat k\<rparr>)"
  using assms
proof (induction k arbitrary: p)
  case (Suc k)
  let ?q = "p\<lparr>m_next_io_service := m_next_io_service p + 1\<rparr>"
  have next_no: "unat (m_next_io_service p + 1) = Suc (unat (m_next_io_service p))"
    using Suc.prems(3) unat_add_lem [of "m_next_io_service p" 1] by simp
  have "pool_ok ?q" "get_io_size ?q = get_io_size p"
    using Suc.prems(1) by (simp_all add: pool_ok_def get_io_size_def)
  with Suc.IH [of ?q] Suc.prems next_no get_io_service_ok [OF Suc.prems(1,2)] show ?case
    by (simp add: upt_conv_Cons [of "unat (m_next_io_service p)"] add.assoc del: upt_Suc)
qed simp

lemma count_residues:
  assumes "0 < n" and "s < n"
  shows "count_list (map (\<lambda>i. i mod n) [a..<a + n * q]) s = q"
proof (induction q arbitrary: a)
  case (Suc q)
  have one: "count_list (map (\<lambda>i. i mod n) [a..<a + n]) s = 1" for a
  proof -
    have "inj_on (\<lambda>i. i mod n) {a..<a + n}"
    proof (rule inj_onI)
      fix x y assume xy: "x \<in> {a..<a + n}" "y \<in> {a..<a + n}" "x mod n = y mod n"
      then have "n dvd x - y" "n dvd y - x" by (metis mod_eq_dvd_iff_nat nat_le_linear diff_is_0_eq dvd_0_right)+
      moreover have "x - y < n" "y - x < n" using xy by auto
      ultimately show "x = y" using nat_dvd_not_less by (metis diff_is_0_eq gr0I le_antisym)
    qed
    then have "distinct (map (\<lambda>i. i mod n) [a..<a + n])" by (simp add: distinct_map)
    moreover from this have "card (set (map (\<lambda>i. i mod n) [a..<a + n])) = n"
      using distinct_card by force
    then have "set (map (\<lambda>i. i mod n) [a..<a + n]) = {..<n}"
      using assms(1) by (intro card_subset_eq) auto
    ultimately show ?thesis using assms(2) by (simp add: count_list_distinct)
  qed
  have "[a..<a + n * Suc q] = [a..<a + n] @ [a + n..<a + n + n * q]"
    using upt_add_eq_append [of a "a + n" "n * q"] by (simp add: add.assoc)
  with one Suc show ?case by simp
qed simp

text \<open>Round robin. In every state of a pool with services, as long as the counter does
  not wrap around, the next \<open>q\<close> times as many calls of \<open>get_io_service\<close> as there are services
  return each service of the pool exactly \<open>q\<close> times.\<close>

theorem round_robin_fair:
  assumes "reach (\<lambda>p. p = init_pool) pool_step p" and "0 < get_io_size p"
    and "unat (m_next_io_service p) + get_io_size p * q < 2 ^ 64"
  shows "\<exists>ss p'. get_many (get_io_size p * q) p = Some (ss, p')
    \<and> (\<forall>s < get_io_size p. count_list ss s = q) \<and> set ss \<subseteq> set (m_io_services_set p)"
proof -
  have ok: "pool_ok p" by (rule pool.inv_reach [OF assms(1)])
  then have "set (m_io_services_set p) = {0..<get_io_size p}" by (simp add: pool_ok_def)
  with get_many_ok [OF ok assms(2,3)] count_residues [OF assms(2)] assms(2) show ?thesis
    by (auto simp del: set_upt)
qed

text \<open>A pool that has not been started has no service: \<open>get_io_service\<close> divides by zero,
  while the indexed version throws for every index.\<close>

theorem get_before_start:
  "get_io_service init_pool = None \<and> get_io_service_at i init_pool = Inl Index_error
    \<and> pool_start 0 init_pool = Inl Pool_size_is_0"
  by (simp add: get_io_service_def init_pool_def get_io_service_at_def pool_start_def)

text \<open>After the first \<open>start\<close> each service of the pool is run by exactly one thread and is
  kept at work. A second \<open>start\<close> starts threads for all services again: those of the first
  are then run by two threads, so handlers of one connection are no longer run one at a time.\<close>

theorem start_threads:
  assumes "0 < n" and "0 < k" and "pool_start n init_pool = Inr p" and "pool_start k p = Inr q"
  shows "(\<forall>s < n. count_list (m_vt_threads p) s = 1 \<and> s \<in> set (m_work_set p))
    \<and> (\<forall>s < n. count_list (m_vt_threads q) s = 2) \<and> (\<forall>s. n \<le> s \<and> s < n + k \<longrightarrow> count_list (m_vt_threads q) s = 1)"
proof -
  have "[0..<n] @ [n..<n + k] = [0..<n + k]" using upt_add_eq_append [of 0 n k] by simp
  with assms have "m_vt_threads p = [0..<n]" "m_work_set p = [0..<n]" "m_vt_threads q = [0..<n] @ [0..<n + k]"
    by (simp_all add: pool_start_def init_pool_def Let_def) (auto split: if_splits)
  then show ?thesis by (simp add: count_list_distinct)
qed

text \<open>\<open>stop\<close> returns exactly if every service that has a thread runs out of work. The
  services stay in the pool: \<open>get_io_service\<close> keeps handing them out, though no thread runs
  them and what is posted to them is never run.\<close>

theorem stopped_pool_hands_out_dead_services:
  assumes "reach (\<lambda>p. p = init_pool) pool_step p" and "0 < get_io_size p"
  shows "(\<forall>q. pool_stop runs_out p = Some q \<longrightarrow> m_vt_threads q = [] \<and> m_work_set q = []
      \<and> (\<exists>s q'. get_io_service q = Some (s, q') \<and> s \<in> set (m_io_services_set p)))
    \<and> (pool_stop runs_out p = None \<longleftrightarrow> (\<exists>s \<in> set (m_vt_threads p). \<not> runs_out s))"
proof -
  have ok: "pool_ok p" by (rule pool.inv_reach [OF assms(1)])
  let ?q = "p\<lparr>m_work_set := [], m_vt_threads := []\<rparr>"
  have "pool_ok ?q" "get_io_size ?q = get_io_size p" using ok by (auto simp: pool_ok_def get_io_size_def)
  from get_io_service_ok [OF this(1)] this(2) assms(2) ok show ?thesis
    by (auto simp: pool_stop_def list_all_iff pool_ok_def)
qed

section \<open>Instances\<close>

definition two_services :: io_service_pool where
  "two_services = \<lparr>m_io_services_set = [0, 1], m_work_set = [0, 1], m_next_io_service = 0, m_vt_threads = [0, 1]\<rparr>"

lemma two_services_start: "pool_start 2 init_pool = Inr two_services"
  by (simp add: pool_start_def init_pool_def two_services_def Let_def numeral_2_eq_2)

lemma two_services_reach: "reach (\<lambda>p. p = init_pool) pool_step two_services"
proof (rule reach_step)
  show "reach (\<lambda>p. p = init_pool) pool_step init_pool" by (rule reach_init) simp
  show "pool_step init_pool two_services"
    by (rule step_start [OF two_services_start]) (simp add: two_services_def get_io_size_def)
qed

theorem round_robin_fair_witness:
  "\<exists>ss p'. get_many (2 * 3) two_services = Some (ss, p') \<and> count_list ss 0 = 3 \<and> count_list ss 1 = 3"
  using round_robin_fair [OF two_services_reach, of 3] by (auto simp: two_services_def get_io_size_def)

theorem start_threads_witness:
  "\<exists>q. pool_start 1 two_services = Inr q \<and> count_list (m_vt_threads q) 0 = 2 \<and> count_list (m_vt_threads q) 2 = 1"
proof -
  obtain q where q: "pool_start 1 two_services = Inr q" by (simp add: pool_start_def Let_def)
  from start_threads [OF _ _ two_services_start q] q show ?thesis by simp
qed

theorem stopped_pool_hands_out_dead_services_witness:
  "\<exists>q. pool_stop (\<lambda>_. True) two_services = Some q \<and> m_vt_threads q = []
    \<and> (\<exists>s q'. get_io_service q = Some (s, q') \<and> s \<in> {0, 1})"
proof -
  obtain q where q: "pool_stop (\<lambda>_. True) two_services = Some q"
    by (simp add: pool_stop_def list_all_iff)
  have "0 < get_io_size two_services" by (simp add: two_services_def get_io_size_def)
  from stopped_pool_hands_out_dead_services [OF two_services_reach this, of "\<lambda>_. True"] q show ?thesis
    by (auto simp: two_services_def)
qed

end
