(* ===== verification/IoThreads.thy ===== *)
theory IoThreads
  imports IoServicePool "HOL-Library.Multiset"
begin

text \<open>
  The threads of the pool of io services of mylib/utility/io\_service\_pool.cpp, and the handlers that
  they run. Thread \<open>k\<close> is the k-th of \<open>m_vt_threads\<close>; it calls \<open>run\<close> of its service.

  \<open>run\<close> is asio's: what the model has of it is what asio's manual says. A handler that has been posted to a service is
  run once, and only by a thread that is in \<open>run\<close> of this service and in no handler; which of the handlers that wait is run
  next, and by which of the threads, is the choice of asio, an argument of the event. \<open>run\<close> returns
  when there is no work left, and the service counts as stopped then: a later \<open>run\<close> returns at once,
  unless it is reset in between, which nothing in the code does.

  A pool that is started only while it has no threads runs the handlers of a service one at a time, because it has given each
  service one thread; nothing else in the code keeps handlers apart. This is what lets a turn of a connection be treated as
  one step elsewhere in the development. A second \<open>start\<close> without a \<open>stop\<close> breaks it, and after a \<open>stop\<close> the old
  services are dead.
\<close>

section \<open>Handlers and threads\<close>

text \<open>The pool; which services have run out of work; the handlers of a service that wait, and all that
  have been posted to it, have begun and have ended; and what each thread is running.\<close>

record 'h pool_run =
  r_pool :: io_service_pool
  r_ran_out :: "nat \<Rightarrow> bool"
  r_queue :: "nat \<Rightarrow> 'h list"
  r_posted :: "nat \<Rightarrow> 'h list"
  r_begun :: "nat \<Rightarrow> 'h list"
  r_ended :: "nat \<Rightarrow> 'h list"
  r_running :: "nat \<Rightarrow> 'h option"

definition init_pool_run :: "'h pool_run" where
  "init_pool_run = \<lparr>r_pool = init_pool, r_ran_out = (\<lambda>_. False), r_queue = (\<lambda>_. []), r_posted = (\<lambda>_. []),
     r_begun = (\<lambda>_. []), r_ended = (\<lambda>_. []), r_running = (\<lambda>_. None)\<rparr>"

abbreviation threads :: "'h pool_run \<Rightarrow> nat list" where
  "threads r \<equiv> m_vt_threads (r_pool r)"

text \<open>The handlers of a service that threads are in.\<close>

definition in_handlers :: "nat \<Rightarrow> 'h pool_run \<Rightarrow> 'h list" where
  "in_handlers s r = concat (map (\<lambda>k. if threads r ! k = s then (case r_running r k of None \<Rightarrow> [] | Some h \<Rightarrow> [h]) else [])
     [0..<length (threads r)])"

definition run_start :: "nat \<Rightarrow> 'h pool_run \<Rightarrow> 'h pool_run option" where
  "run_start pool_size r = (case pool_start pool_size (r_pool r) of Inl e \<Rightarrow> Some r | Inr p \<Rightarrow> Some (r\<lparr>r_pool := p\<rparr>))"

text \<open>\<open>run\<close> of a service returns when it has nothing to run; it has returned already when the service has run
  out before. \<open>None\<close>: the join waits.\<close>

definition run_stop :: "'h pool_run \<Rightarrow> 'h pool_run option" where
  "run_stop r = do {
     p \<leftarrow> pool_stop (\<lambda>s. r_ran_out r s \<or> r_queue r s = [] \<and> in_handlers s r = []) (r_pool r);
     Some (r\<lparr>r_pool := p, r_ran_out := (\<lambda>s. r_ran_out r s \<or> s \<in> set (threads r)), r_running := (\<lambda>_. None)\<rparr>)
   }"

definition post_handler :: "nat \<Rightarrow> 'h \<Rightarrow> 'h pool_run \<Rightarrow> 'h pool_run option" where
  "post_handler s h r = (if s \<in> set (m_io_services_set (r_pool r))
     then Some (r\<lparr>r_queue := (r_queue r)(s := r_queue r s @ [h]), r_posted := (r_posted r)(s := r_posted r s @ [h])\<rparr>)
     else None)"

text \<open>asio runs the \<open>i\<close>-th of the waiting handlers of a service in thread \<open>k\<close>; and the handler of thread \<open>k\<close> ends.\<close>

definition begin_handler :: "nat \<Rightarrow> nat \<Rightarrow> 'h pool_run \<Rightarrow> 'h pool_run option" where
  "begin_handler k i r =
     (let s = threads r ! k; q = r_queue r s in
      if k < length (threads r) \<and> r_running r k = None \<and> \<not> r_ran_out r s \<and> i < length q
      then Some (r\<lparr>r_queue := (r_queue r)(s := take i q @ drop (Suc i) q), r_begun := (r_begun r)(s := r_begun r s @ [q ! i]),
        r_running := (r_running r)(k := Some (q ! i))\<rparr>)
      else None)"

definition end_handler :: "nat \<Rightarrow> 'h pool_run \<Rightarrow> 'h pool_run option" where
  "end_handler k r =
     (if k < length (threads r) then
        case r_running r k of None \<Rightarrow> None
        | Some h \<Rightarrow> let s = threads r ! k in
            Some (r\<lparr>r_ended := (r_ended r)(s := r_ended r s @ [h]), r_running := (r_running r)(k := None)\<rparr>)
      else None)"

datatype 'h pool_event = Run_start nat | Run_stop | Post_handler nat 'h | Begin_handler nat nat | End_handler nat

fun pool_run_do :: "'h pool_event \<Rightarrow> 'h pool_run \<Rightarrow> 'h pool_run option" where
  "pool_run_do (Run_start n) r = run_start n r"
| "pool_run_do Run_stop r = run_stop r"
| "pool_run_do (Post_handler s h) r = post_handler s h r"
| "pool_run_do (Begin_handler k i) r = begin_handler k i r"
| "pool_run_do (End_handler k) r = end_handler k r"

fun pool_run_all :: "'h pool_event list \<Rightarrow> 'h pool_run \<Rightarrow> 'h pool_run option" where
  "pool_run_all [] r = Some r"
| "pool_run_all (ev # evs) r = do { r \<leftarrow> pool_run_do ev r; pool_run_all evs r }"

text \<open>Steps in which the pool is not started while it has threads.\<close>

inductive pool_run_step :: "'h pool_run \<Rightarrow> 'h pool_run \<Rightarrow> bool" where
  pool_run_step: "pool_run_do ev r = Some r' \<Longrightarrow> (\<forall>n. ev = Run_start n \<longrightarrow> threads r = []) \<Longrightarrow> pool_run_step r r'"

section \<open>One handler at a time\<close>

text \<open>The services of the pool are distinct, no two threads have the same, and of each service what has
  been posted is what has begun and what waits, each once, and what has begun is what has ended and what a thread is in.\<close>

definition serial_pool :: "'h pool_run \<Rightarrow> bool" where
  "serial_pool r \<longleftrightarrow> m_io_services_set (r_pool r) = [0..<get_io_size (r_pool r)] \<and> distinct (threads r)
     \<and> set (threads r) \<subseteq> set (m_io_services_set (r_pool r))
     \<and> (\<forall>k \<ge> length (threads r). r_running r k = None) \<and> (\<forall>s. r_ran_out r s \<longrightarrow> in_handlers s r = [])
     \<and> (\<forall>s. mset (r_posted r s) = mset (r_begun r s) + mset (r_queue r s) \<and> r_begun r s = r_ended r s @ in_handlers s r)"

lemma in_handlers_none: "(\<And>k. k < length (threads r) \<Longrightarrow> threads r ! k = s \<Longrightarrow> r_running r k = None) \<Longrightarrow> in_handlers s r = []"
  by (auto simp: in_handlers_def)

text \<open>With distinct threads a service has one thread, or none.\<close>

lemma in_handlers_at:
  assumes "distinct (threads r)" and "k < length (threads r)"
  shows "in_handlers (threads r ! k) r = (case r_running r k of None \<Rightarrow> [] | Some h \<Rightarrow> [h])"
proof -
  let ?f = "\<lambda>j. if threads r ! j = threads r ! k then (case r_running r j of None \<Rightarrow> [] | Some h \<Rightarrow> [h]) else []"
  have other: "?f j = []" if "j \<noteq> k" "j < length (threads r)" for j
    using that assms by (simp add: nth_eq_iff_index_eq)
  have split: "[0..<length (threads r)] = [0..<k] @ k # [Suc k..<length (threads r)]"
    using assms(2) by (metis upt_add_eq_append upt_conv_Cons le_add_diff_inverse less_imp_le zero_le)
  have "concat (map ?f [0..<k]) = []" "concat (map ?f [Suc k..<length (threads r)]) = []"
    using other assms(2) by auto
  then show ?thesis unfolding in_handlers_def split by (simp del: concat_eq_Nil_conv)
qed

lemma in_handlers_short:
  assumes "distinct (threads r)"
  shows "length (in_handlers s r) \<le> 1"
proof (cases "\<exists>k < length (threads r). threads r ! k = s")
  case True
  then show ?thesis using in_handlers_at [OF assms] by (auto split: option.split)
next
  case False
  then show ?thesis using in_handlers_none [of r s] by auto
qed


lemma in_handlers_cong:
  assumes "threads r' = threads r" and "\<And>k. k < length (threads r) \<Longrightarrow> threads r ! k = s \<Longrightarrow> r_running r' k = r_running r k"
  shows "in_handlers s r' = in_handlers s r"
  using assms unfolding in_handlers_def by (intro arg_cong [where f = concat] map_cong) auto

lemma begin_handler_cases:
  assumes "begin_handler k i r = Some r'"
  obtains h us vs where "k < length (threads r)" "r_running r k = None" "\<not> r_ran_out r (threads r ! k)"
    "r_queue r (threads r ! k) = us @ h # vs"
    "r' = r\<lparr>r_queue := (r_queue r)(threads r ! k := us @ vs), r_begun := (r_begun r)(threads r ! k := r_begun r (threads r ! k) @ [h]),
       r_running := (r_running r)(k := Some h)\<rparr>"
proof -
  let ?q = "r_queue r (threads r ! k)"
  have "?q = take i ?q @ ?q ! i # drop (Suc i) ?q" "r' = r\<lparr>r_queue := (r_queue r)(threads r ! k := take i ?q @ drop (Suc i) ?q),
      r_begun := (r_begun r)(threads r ! k := r_begun r (threads r ! k) @ [?q ! i]), r_running := (r_running r)(k := Some (?q ! i))\<rparr>"
    "k < length (threads r)" "r_running r k = None" "\<not> r_ran_out r (threads r ! k)"
    using assms by (auto simp: begin_handler_def Let_def id_take_nth_drop split: if_splits)
  with that show thesis by blast
qed

lemma end_handler_cases:
  assumes "end_handler k r = Some r'"
  obtains h where "k < length (threads r)" "r_running r k = Some h"
    "r' = r\<lparr>r_ended := (r_ended r)(threads r ! k := r_ended r (threads r ! k) @ [h]), r_running := (r_running r)(k := None)\<rparr>"
  using assms by (auto simp: end_handler_def Let_def split: if_splits option.splits)

lemma serial_begin:
  assumes "serial_pool r" and "begin_handler k i r = Some r'"
  shows "serial_pool r'"
proof -
  obtain h us vs where b: "k < length (threads r)" "r_running r k = None" "\<not> r_ran_out r (threads r ! k)"
    "r_queue r (threads r ! k) = us @ h # vs"
    "r' = r\<lparr>r_queue := (r_queue r)(threads r ! k := us @ vs), r_begun := (r_begun r)(threads r ! k := r_begun r (threads r ! k) @ [h]),
       r_running := (r_running r)(k := Some h)\<rparr>" by (rule begin_handler_cases [OF assms(2)])
  have d: "distinct (threads r)" using assms(1) by (simp add: serial_pool_def)
  have "in_handlers (threads r ! k) r = []" "in_handlers (threads r ! k) r' = [h]"
    using in_handlers_at [OF d b(1)] in_handlers_at [of r' k] d b(1,2,5) by simp_all
  moreover have "in_handlers s r' = in_handlers s r" if "s \<noteq> threads r ! k" for s
    using that b(5) by (intro in_handlers_cong) auto
  ultimately have "mset (r_posted r' s) = mset (r_begun r' s) + mset (r_queue r' s) \<and> r_begun r' s = r_ended r' s @ in_handlers s r'"
    "r_ran_out r' s \<longrightarrow> in_handlers s r' = []" for s
    using assms(1) b(3-5) by (cases "s = threads r ! k"; simp add: serial_pool_def)+
  with assms(1) b(1,5) show ?thesis by (auto simp: serial_pool_def get_io_size_def)
qed

lemma serial_end:
  assumes "serial_pool r" and "end_handler k r = Some r'"
  shows "serial_pool r'"
proof -
  obtain h where e: "k < length (threads r)" "r_running r k = Some h"
    "r' = r\<lparr>r_ended := (r_ended r)(threads r ! k := r_ended r (threads r ! k) @ [h]), r_running := (r_running r)(k := None)\<rparr>"
    by (rule end_handler_cases [OF assms(2)])
  have d: "distinct (threads r)" using assms(1) by (simp add: serial_pool_def)
  have "in_handlers (threads r ! k) r = [h]" "in_handlers (threads r ! k) r' = []"
    using in_handlers_at [OF d e(1)] in_handlers_at [of r' k] d e by simp_all
  moreover have "in_handlers s r' = in_handlers s r" if "s \<noteq> threads r ! k" for s
    using that e(3) by (intro in_handlers_cong) auto
  ultimately have "mset (r_posted r' s) = mset (r_begun r' s) + mset (r_queue r' s) \<and> r_begun r' s = r_ended r' s @ in_handlers s r'"
    "r_ran_out r' s \<longrightarrow> in_handlers s r' = []" for s
    using assms(1) e(3) by (cases "s = threads r ! k"; simp add: serial_pool_def)+
  with assms(1) e(1,3) show ?thesis by (auto simp: serial_pool_def get_io_size_def)
qed

lemma serial_start:
  assumes "serial_pool r" and "run_start n r = Some r'" and "threads r = []"
  shows "serial_pool r'"
proof (cases "n = 0")
  case True
  with assms show ?thesis by (simp add: run_start_def pool_start_def)
next
  case False
  let ?k = "get_io_size (r_pool r)"
  have set: "m_io_services_set (r_pool r) = [0..<?k]" using assms(1) by (simp add: serial_pool_def)
  have join: "[0..<?k] @ [?k..<?k + n] = [0..<?k + n]" using upt_add_eq_append [of 0 ?k n] by simp
  have r': "r' = r\<lparr>r_pool := (r_pool r)\<lparr>m_io_services_set := [0..<?k + n],
      m_work_set := m_work_set (r_pool r) @ [?k..<?k + n], m_vt_threads := [0..<?k + n]\<rparr>\<rparr>"
    using assms(2,3) False join by (simp add: run_start_def pool_start_def Let_def set flip: get_io_size_def)
  have "in_handlers s r = []" "in_handlers s r' = []" for s
    using assms(1,3) r' by (auto intro!: in_handlers_none simp: serial_pool_def)
  with assms(1,3) r' show ?thesis by (auto simp: serial_pool_def get_io_size_def)
qed

lemma serial_stop:
  assumes "serial_pool r" and "run_stop r = Some r'"
  shows "serial_pool r'"
proof -
  have r': "threads r' = []" "r_posted r' = r_posted r" "r_begun r' = r_begun r" "r_ended r' = r_ended r" "r_queue r' = r_queue r"
    "r_running r' = (\<lambda>_. None)" "m_io_services_set (r_pool r') = m_io_services_set (r_pool r)"
    and over: "\<forall>s \<in> set (threads r). r_ran_out r s \<or> r_queue r s = [] \<and> in_handlers s r = []"
    using assms(2) by (auto simp: run_stop_def pool_stop_def Let_def list_all_iff bind_eq_Some_conv split: if_splits)
  have "in_handlers s r = []" for s
  proof (cases "s \<in> set (threads r)")
    case True
    with over assms(1) show ?thesis by (auto simp: serial_pool_def)
  next
    case False
    then show ?thesis by (intro in_handlers_none) (metis nth_mem)
  qed
  moreover have "in_handlers s r' = []" for s using r' by (intro in_handlers_none) simp
  ultimately show ?thesis using assms(1) r' by (simp add: serial_pool_def get_io_size_def)
qed

lemma serial_pool_step:
  assumes "pool_run_step r r'" and "serial_pool r"
  shows "serial_pool r'"
  using assms(1)
proof cases
  case (pool_run_step ev)
  show ?thesis
  proof (cases ev)
    case (Post_handler s h)
    with pool_run_step(1) have r': "r' = r\<lparr>r_queue := (r_queue r)(s := r_queue r s @ [h]), r_posted := (r_posted r)(s := r_posted r s @ [h])\<rparr>"
      by (auto simp: post_handler_def split: if_splits)
    have "in_handlers t r' = in_handlers t r" for t using r' by (intro in_handlers_cong) auto
    with r' assms(2) show ?thesis by (simp add: serial_pool_def get_io_size_def)
  qed (use pool_run_step assms(2) in \<open>auto intro: serial_start serial_stop serial_begin serial_end\<close>)
qed

interpretation ih: inductive_invariant "\<lambda>r. r = init_pool_run" pool_run_step serial_pool
proof
  show "serial_pool r'" if "pool_run_step r r'" "serial_pool r" for r r' :: "'a pool_run"
    using that by (rule serial_pool_step)
qed (simp add: serial_pool_def init_pool_run_def init_pool_def get_io_size_def in_handlers_def)

text \<open>C14: A pool that is only started while it has no threads runs the handlers of each of its services one at a time, whatever
  is posted, started and stopped when, and whichever of the waiting handlers asio takes next: no two threads are ever in handlers
  of one service, each handler begins after the one before it has ended, and each that has been posted begins once or
  still waits.\<close>

theorem one_handler_at_a_time:
  assumes "reach (\<lambda>r. r = init_pool_run) pool_run_step r"
  shows "mset (r_posted r s) = mset (r_begun r s) + mset (r_queue r s) \<and> r_begun r s = r_ended r s @ in_handlers s r
    \<and> length (in_handlers s r) \<le> 1"
  using ih.inv_reach [OF assms] in_handlers_short [of r s] by (simp add: serial_pool_def)

section \<open>Stopped services\<close>

text \<open>A service that has run out: what is posted to it waits, and nothing begins.\<close>

definition only_posts :: "nat \<Rightarrow> 'h pool_run \<Rightarrow> 'h pool_run \<Rightarrow> bool" where
  "only_posts s r r' \<longleftrightarrow> r_ran_out r' s \<and> r_begun r' s = r_begun r s \<and> get_io_size (r_pool r) \<le> get_io_size (r_pool r')
     \<and> (\<exists>new. r_posted r' s = r_posted r s @ new \<and> r_queue r' s = r_queue r s @ new)"

lemma only_posts_trans: "only_posts s q r \<Longrightarrow> only_posts s r t \<Longrightarrow> only_posts s q t"
  by (auto simp: only_posts_def)

lemma ran_out_step:
  assumes "pool_run_step r r'" and "r_ran_out r s"
  shows "only_posts s r r'"
  using assms(1)
proof cases
  case (pool_run_step ev)
  then show ?thesis using assms(2)
    by (cases ev) (auto simp: only_posts_def run_start_def pool_start_def run_stop_def pool_stop_def post_handler_def end_handler_def
        begin_handler_def get_io_size_def Let_def bind_eq_Some_conv split: if_splits list.splits option.splits)
qed

lemma ran_out_steps:
  assumes "pool_run_step\<^sup>*\<^sup>* r r'" and "r_ran_out r s"
  shows "only_posts s r r'"
  using assms
proof (induction rule: rtranclp_induct)
  case base
  then show ?case by (simp add: only_posts_def)
next
  case (step y z)
  then have "r_ran_out y s" by (simp add: only_posts_def)
  from only_posts_trans [OF _ ran_out_step [OF step(2) this]] step show ?case by simp
qed

text \<open>C39: Once \<open>stop\<close> has returned, the services that had a thread are dead for ever, also after another \<open>start\<close>, which
  gives each of them a thread again: no handler that is posted to one begins, and all of them wait, behind those that were
  left. But they stay in the pool, and \<open>get_io_service\<close> hands them out.\<close>

theorem stopped_services_stay_dead:
  assumes "reach (\<lambda>r. r = init_pool_run) pool_run_step q" and "run_stop q = Some r" and "pool_run_step\<^sup>*\<^sup>* r r'"
    and "s \<in> set (threads q)"
  shows "r_begun r' s = r_begun q s \<and> get_io_service_at s (r_pool r') = Inr s
    \<and> (\<exists>new. r_posted r' s = r_posted q s @ new \<and> r_queue r' s = r_queue q s @ new)
    \<and> mset (r_posted r' s) = mset (r_begun q s) + mset (r_queue r' s)
    \<and> (r_posted q s = r_begun q s @ r_queue q s \<longrightarrow> r_posted r' s = r_begun q s @ r_queue r' s)"
proof -
  have q: "serial_pool q" by (rule ih.inv_reach [OF assms(1)])
  have "pool_run_step q r" by (rule pool_run_step [of Run_stop]) (simp_all add: assms(2))
  then have "serial_pool r" by (rule serial_pool_step [OF _ q])
  then have r': "serial_pool r'" by (rule ih.inv_steps [OF assms(3)])
  have out: "r_ran_out r s" "r_begun r s = r_begun q s" "get_io_size (r_pool r) = get_io_size (r_pool q)"
    "r_posted r s = r_posted q s" "r_queue r s = r_queue q s"
    using assms(2,4) by (auto simp: run_stop_def pool_stop_def get_io_size_def Let_def bind_eq_Some_conv split: if_splits)
  from q assms(4) have "s < get_io_size (r_pool q)" by (auto simp: serial_pool_def)
  moreover have "get_io_service_at s (r_pool r') = Inr s" if "s < get_io_size (r_pool r')"
    using r' that by (simp add: serial_pool_def get_io_service_at_def flip: get_io_size_def)
  moreover have "mset (r_posted r' s) = mset (r_begun r' s) + mset (r_queue r' s)" using r' by (simp add: serial_pool_def)
  ultimately show ?thesis using ran_out_steps [OF assms(3) out(1)] out by (auto simp: only_posts_def)
qed

section \<open>A second start\<close>

text \<open>A second \<open>start\<close> of a pool that has threads takes the order of handlers away: two threads are then in
  handlers of the same service at once, and the later one may end first.\<close>

theorem second_start_overlaps:
  assumes "0 < n" and "0 < k"
  shows "\<exists>r r'. pool_run_all [Run_start n, Run_start k, Post_handler 0 a, Post_handler 0 b, Begin_handler 0 0, Begin_handler n 0] init_pool_run = Some r
    \<and> r_running r 0 = Some a \<and> r_running r n = Some b \<and> threads r ! 0 = 0 \<and> threads r ! n = 0
    \<and> end_handler n r = Some r' \<and> r_ended r' 0 = [b] \<and> r_begun r' 0 = [a, b]"
proof -
  have join: "[0..<n] @ [n..<n + k] = [0..<n + k]" using upt_add_eq_append [of 0 n k] by simp
  have nth: "([0..<n] @ [0..<n + k]) ! 0 = 0" "([0..<n] @ [0..<n + k]) ! n = 0" "n \<noteq> 0"
    using assms(1) by (simp_all add: nth_append)
  show ?thesis using assms nth
    by (simp add: run_start_def pool_start_def init_pool_run_def init_pool_def Let_def join post_handler_def
        begin_handler_def end_handler_def del: upt_Suc)
qed

section \<open>Instances\<close>

lemma pool_run_all_reach:
  assumes "pool_run_all evs r = Some r'" and "reach (\<lambda>r. r = init_pool_run) pool_run_step r"
    and "\<forall>n. Run_start n \<notin> set evs"
  shows "reach (\<lambda>r. r = init_pool_run) pool_run_step r'"
  using assms
proof (induction evs arbitrary: r)
  case (Cons ev evs)
  then obtain u where u: "pool_run_do ev r = Some u" "pool_run_all evs u = Some r'" by (auto simp: bind_eq_Some_conv)
  have "reach (\<lambda>r. r = init_pool_run) pool_run_step u"
    by (rule reach_step [OF Cons.prems(2)], rule pool_run_step [OF u(1)]) (use Cons.prems(3) in auto)
  with Cons.IH [OF u(2)] Cons.prems(3) show ?case by simp
qed simp

text \<open>A pool of two services, with two handlers posted to the first, of which asio has begun with the second.\<close>

definition two_running :: "nat pool_run" where
  "two_running = the (do { r \<leftarrow> run_start 2 init_pool_run; pool_run_all [Post_handler 0 5, Post_handler 0 6, Begin_handler 0 1] r })"

definition two_started :: "nat pool_run" where
  "two_started = init_pool_run\<lparr>r_pool := two_services\<rparr>"

lemma two_started_run: "run_start 2 init_pool_run = Some two_started"
  by (simp add: run_start_def two_started_def init_pool_run_def two_services_start)

lemma two_started_reach: "reach (\<lambda>r. r = init_pool_run) pool_run_step two_started"
proof (rule reach_step)
  show "reach (\<lambda>r. r = init_pool_run) pool_run_step (init_pool_run :: nat pool_run)" by (rule reach_init) simp
  show "pool_run_step init_pool_run two_started"
    by (rule pool_run_step [of "Run_start 2"]) (simp_all add: two_started_run, simp add: init_pool_run_def init_pool_def)
qed

lemma two_running_run:
  "pool_run_all [Post_handler 0 5, Post_handler 0 6, Begin_handler 0 1] two_started = Some two_running"
  "r_begun two_running 0 = [6]" "r_queue two_running 0 = [5]"
  by (simp_all add: two_running_def two_started_run)
    (simp_all add: two_started_def two_services_def init_pool_run_def post_handler_def begin_handler_def Let_def)

theorem one_handler_at_a_time_witness:
  "mset (r_posted two_running 0) = {#6, 5#} \<and> length (in_handlers 0 two_running) \<le> 1"
  using one_handler_at_a_time [OF pool_run_all_reach [OF two_running_run(1) two_started_reach], of 0]
    two_running_run(2,3) by simp

theorem stopped_services_stay_dead_witness:
  "\<exists>r r'. run_stop two_started = Some r \<and> pool_run_all [Run_start 1, Post_handler 0 5] r = Some r'
    \<and> r_queue r' 0 = [5] \<and> r_begun r' 0 = []"
proof -
  obtain r where r: "run_stop two_started = Some r" "threads r = []"
    by (simp add: run_stop_def pool_stop_def two_started_def two_services_def init_pool_run_def in_handlers_def Let_def)
  obtain u where u: "run_start 1 r = Some u" "m_io_services_set (r_pool u) = [0, 1, 2]" "r_queue u = (\<lambda>_. [])"
    using r(1) by (auto simp: run_stop_def pool_stop_def two_started_def two_services_def init_pool_run_def
        in_handlers_def Let_def run_start_def pool_start_def numeral_2_eq_2)
  obtain r' where r': "post_handler 0 5 u = Some r'" "r_queue r' 0 = [5]"
    using u by (simp add: post_handler_def)
  have "pool_run_step r u" by (rule pool_run_step [of "Run_start 1"]) (use u(1) r(2) in simp_all)
  moreover have "pool_run_step u r'" by (rule pool_run_step [of "Post_handler 0 5"]) (simp_all add: r'(1))
  ultimately have "pool_run_step\<^sup>*\<^sup>* r r'" by auto
  moreover have "0 \<in> set (threads two_started)" "r_begun two_started 0 = []"
    by (simp_all add: two_started_def two_services_def init_pool_run_def)
  ultimately have "r_begun r' 0 = []" using stopped_services_stay_dead [OF two_started_reach r(1), of r' 0] by simp
  with r(1) u(1) r' show ?thesis by simp
qed

theorem second_start_overlaps_witness:
  "\<exists>r r'. pool_run_all [Run_start 2, Run_start 1, Post_handler 0 5, Post_handler 0 6, Begin_handler 0 0, Begin_handler 2 0] init_pool_run = Some r
    \<and> end_handler 2 r = Some r' \<and> r_ended r' 0 = [6 :: nat] \<and> r_begun r' 0 = [5, 6]"
  using second_start_overlaps [of 2 1 5 6] by auto

end
