(* ===== verification/RpcMsg.thy ===== *)
theory RpcMsg
  imports NbPrelude
begin

unbundle bit_operations_syntax

text \<open>
  Messages of the rpc layer: the eight-byte head of mylib/rpc/rpc\_msg\_head.h and the message
  builders of mylib/rpc/rpc\_utility.h and rpc\_utility.cpp.

  A \<open>std::string\<close> is its bytes. The code copies heads to and from memory as they are laid
  out, so \<open>head_bytes\<close> is that layout: the three fields in order, without padding, each in
  little-endian byte order. The static members of \<open>rpc_msg_util_t\<close> are the record
  \<open>msg_util\<close>. The compressors of zlib\_util are arguments: a compressor returns its status
  and its output, or \<open>None\<close> where it does not return.
\<close>

section \<open>The message head\<close>

record msg_head =
  hd_len :: "32 word"
  hd_cmd :: "16 word"
  hd_res :: "16 word"

definition zero_head :: msg_head where
  "zero_head = \<lparr>hd_len = 0, hd_cmd = 0, hd_res = 0\<rparr>"

text \<open>The other constructors; the first two leave \<open>res\<close> as the memory was.\<close>

definition head_with_cmd :: "16 word \<Rightarrow> 16 word \<Rightarrow> msg_head" where
  "head_with_cmd garbage cmd = \<lparr>hd_len = 0, hd_cmd = cmd, hd_res = garbage\<rparr>"

definition head_with_len :: "16 word \<Rightarrow> 32 word \<Rightarrow> 16 word \<Rightarrow> msg_head" where
  "head_with_len garbage len cmd = \<lparr>hd_len = len, hd_cmd = cmd, hd_res = garbage\<rparr>"

definition head_with_res :: "32 word \<Rightarrow> 16 word \<Rightarrow> 16 word \<Rightarrow> msg_head" where
  "head_with_res len cmd res = \<lparr>hd_len = len, hd_cmd = cmd, hd_res = res\<rparr>"

definition head_size :: nat where
  "head_size = 8"

definition bytes_of_16 :: "16 word \<Rightarrow> bytes" where
  "bytes_of_16 w = [ucast w, ucast (drop_bit 8 w)]"

definition bytes_of_32 :: "32 word \<Rightarrow> bytes" where
  "bytes_of_32 w = [ucast w, ucast (drop_bit 8 w), ucast (drop_bit 16 w), ucast (drop_bit 24 w)]"

definition byte_at :: "bytes \<Rightarrow> nat \<Rightarrow> byte" where
  "byte_at bs i = (if i < length bs then bs ! i else 0)"

definition word16_at :: "bytes \<Rightarrow> nat \<Rightarrow> 16 word" where
  "word16_at bs i = ucast (byte_at bs i) OR push_bit 8 (ucast (byte_at bs (i + 1)))"

definition word32_at :: "bytes \<Rightarrow> nat \<Rightarrow> 32 word" where
  "word32_at bs i = ucast (byte_at bs i) OR push_bit 8 (ucast (byte_at bs (i + 1)))
     OR push_bit 16 (ucast (byte_at bs (i + 2))) OR push_bit 24 (ucast (byte_at bs (i + 3)))"

definition head_bytes :: "msg_head \<Rightarrow> bytes" where
  "head_bytes h = bytes_of_32 (hd_len h) @ bytes_of_16 (hd_cmd h) @ bytes_of_16 (hd_res h)"

definition head_of :: "bytes \<Rightarrow> msg_head" where
  "head_of bs = \<lparr>hd_len = word32_at bs 0, hd_cmd = word16_at bs 4, hd_res = word16_at bs 6\<rparr>"

lemma length_head_bytes [simp]: "length (head_bytes h) = head_size"
  by (simp add: head_bytes_def head_size_def bytes_of_32_def bytes_of_16_def)

lemma word16_bytes:
  "ucast (ucast w :: byte) OR push_bit 8 (ucast (ucast (drop_bit 8 w) :: byte)) = (w :: 16 word)"
  by (rule bit_word_eqI) (auto simp: bit_simps not_less)

lemma word32_bytes:
  "ucast (ucast w :: byte) OR push_bit 8 (ucast (ucast (drop_bit 8 w) :: byte))
     OR push_bit 16 (ucast (ucast (drop_bit 16 w) :: byte))
     OR push_bit 24 (ucast (ucast (drop_bit 24 w) :: byte)) = (w :: 32 word)"
proof (rule bit_word_eqI)
  fix n assume "n < LENGTH(32)"
  then have "n < 8 \<or> (\<exists>k<8. n = 8 + k) \<or> (\<exists>k<8. n = 16 + k) \<or> (\<exists>k<8. n = 24 + k)"
    by simp presburger
  then show "bit ((ucast (ucast w :: byte) :: 32 word) OR push_bit 8 (ucast (ucast (drop_bit 8 w) :: byte))
     OR push_bit 16 (ucast (ucast (drop_bit 16 w) :: byte))
     OR push_bit 24 (ucast (ucast (drop_bit 24 w) :: byte))) n = bit w n"
    by (elim disjE exE) (auto simp: bit_simps)
qed

lemma head_of_bytes [simp]: "head_of (head_bytes h @ bs) = h"
  by (cases h)
    (simp add: head_of_def word32_at_def word16_at_def byte_at_def head_bytes_def bytes_of_32_def
      bytes_of_16_def word16_bytes word32_bytes nth_append nth_Cons')

lemma byte_at_take: "i < 8 \<Longrightarrow> byte_at (take 8 bs) i = byte_at bs i"
  by (simp add: byte_at_def)

lemma byte_at_append: "i < 8 \<Longrightarrow> 8 \<le> length bs \<Longrightarrow> byte_at (bs @ xs) i = byte_at bs i"
  by (simp add: byte_at_def nth_append)

lemma head_of_take: "head_of (take 8 bs) = head_of bs"
  by (simp add: head_of_def word32_at_def word16_at_def byte_at_take)

lemma head_of_append: "8 \<le> length bs \<Longrightarrow> head_of (bs @ xs) = head_of bs"
  by (simp add: head_of_def word32_at_def word16_at_def byte_at_append)

section \<open>The message builders\<close>

definition ZLIB_FLAG_MASK :: "16 word" where
  "ZLIB_FLAG_MASK = 0x8000"

record msg_util =
  ZLIB_SIZE_LIMIT :: nat
  opened :: bool
  cmd_filter :: "16 word list"

definition init_msg_util :: msg_util where
  "init_msg_util = \<lparr>ZLIB_SIZE_LIMIT = 1024, opened = False, cmd_filter = replicate 65535 0\<rparr>"

definition make_msg :: "16 word \<Rightarrow> bytes \<Rightarrow> bytes" where
  "make_msg cmd data =
     head_bytes (zero_head\<lparr>hd_len := of_nat (length data), hd_cmd := cmd\<rparr>) @ data"

text \<open>\<open>bin_msg\<close> reads \<open>nbytes\<close> bytes through a pointer to \<open>mem\<close>.\<close>

definition bin_msg :: "16 word \<Rightarrow> bytes \<Rightarrow> 32 word \<Rightarrow> bytes option" where
  "bin_msg cmd mem nbytes =
     (let msg = head_bytes (zero_head\<lparr>hd_cmd := cmd, hd_len := nbytes\<rparr>)
      in if nbytes > 0
         then (if unat nbytes \<le> length mem then Some (msg @ take (unat nbytes) mem) else None)
         else Some msg)"

text \<open>
  The two-argument \<open>compress_msg\<close>. The compressor \<open>zc\<close> gets the data cut to the
  32-bit length the call passes, and returns a length with the buffer it filled; a length that
  is not positive means no compression. \<open>cmd_filter\<close> has 65535 entries, so the test of its
  entry for command 65535 reads past its end.
\<close>

definition compress_msg :: "msg_util \<Rightarrow> (bytes \<Rightarrow> (int \<times> bytes) option) \<Rightarrow> 16 word \<Rightarrow> bytes
    \<Rightarrow> bytes option" where
  "compress_msg u zc cmd data =
     (let h = zero_head\<lparr>hd_cmd := cmd, hd_len := of_nat (length data)\<rparr> in
      if length data < ZLIB_SIZE_LIMIT u \<or> \<not> opened u then Some (head_bytes h @ data)
      else if \<not> unat cmd < length (cmd_filter u) then None
      else if cmd_filter u ! unat cmd \<noteq> 0 then Some (head_bytes h @ data)
      else do {
        (len, dest) \<leftarrow> zc (take (unat (of_nat (length data) :: 32 word)) data);
        if len \<le> 0 then Some (head_bytes h @ data)
        else if nat len \<le> length dest
        then Some (head_bytes (h\<lparr>hd_len := of_int len, hd_res := hd_res h OR ZLIB_FLAG_MASK\<rparr>)
                     @ take (nat len) dest)
        else None
      })"

text \<open>The one-argument \<open>compress_msg\<close> works on a finished message, and does not look at the
  status of the compressor.\<close>

definition compress_whole_msg :: "msg_util \<Rightarrow> (bytes \<Rightarrow> (int \<times> bytes) option) \<Rightarrow> bytes
    \<Rightarrow> bytes option" where
  "compress_whole_msg u zc src =
     (if \<not> opened u then Some src
      else if length src < ZLIB_SIZE_LIMIT u + head_size then Some src
      else do {
        (_, dest) \<leftarrow> zc (drop head_size src);
        let h = head_of (take head_size src);
        Some (head_bytes (h\<lparr>hd_len := of_nat (length dest), hd_res := hd_res h OR ZLIB_FLAG_MASK\<rparr>)
                @ dest)
      })"

definition uncompress_msg :: "msg_util \<Rightarrow> (bytes \<Rightarrow> (int \<times> bytes) option) \<Rightarrow> 16 word \<Rightarrow> bytes
    \<Rightarrow> bytes option" where
  "uncompress_msg u zu res src =
     (if \<not> opened u then Some src
      else if res AND ZLIB_FLAG_MASK \<noteq> 0 then map_option snd (zu src)
      else Some src)"

section \<open>What a message says of itself\<close>

text \<open>\<open>framed msg\<close>: the length field of the head is the number of bytes behind the head,
  which is what the receiver relies on to find the end of a message.\<close>

definition framed :: "bytes \<Rightarrow> bool" where
  "framed msg \<longleftrightarrow> head_size \<le> length msg
     \<and> unat (hd_len (head_of (take head_size msg))) = length msg - head_size"

lemma take_head [simp]: "take head_size (head_bytes h @ bs) = head_bytes h"
  by simp

lemma head_of_head_bytes [simp]: "head_of (head_bytes h) = h"
  using head_of_bytes [of h "[]"] by simp

lemma framed_iff: "framed (head_bytes h @ bs) \<longleftrightarrow> unat (hd_len h) = length bs"
  by (simp add: framed_def)

lemma unat_of_length: "length bs < 2 ^ 32 \<Longrightarrow> unat (of_nat (length bs) :: 32 word) = length bs"
  by (simp add: unat_of_nat)

lemma unat_of_int_len:
  assumes "0 \<le> len" and "nat len \<le> length dest" and "len < 2 ^ 31"
  shows "unat (of_int len :: 32 word) = length (take (nat len) dest)"
proof -
  have "uint (of_int len :: 32 word) = len"
    using assms(1,3) by (simp add: uint_word_of_int_eq take_bit_int_eq_self)
  then show ?thesis using assms(2) by (simp add: unat_eq_nat_uint)
qed

lemma framed_compressed:
  assumes "0 < len" and "len < 2 ^ 31" and "nat len \<le> length dest" and "hd_len h = of_int len"
  shows "framed (head_bytes h @ take (nat len) dest)"
  using assms unat_of_int_len [of len dest] by (simp add: framed_iff)

lemma framed_make_msg: "length data < 2 ^ 32 \<Longrightarrow> framed (make_msg cmd data)"
  by (simp add: make_msg_def framed_iff unat_of_length)

lemma framed_bin_msg: "bin_msg cmd mem n = Some msg \<Longrightarrow> framed msg"
  using framed_iff [of "zero_head\<lparr>hd_cmd := cmd, hd_len := n\<rparr>" "[]"]
  by (cases "n = 0") (auto simp: bin_msg_def Let_def framed_iff word_neq_0_conv split: if_splits)

text \<open>A message that \<open>compress_msg\<close> returns is well framed: its length field is the
  number of bytes behind the head. It carries the command asked for, and either the data as
  it is with no flag, exactly as \<open>make_msg\<close> builds it, or what the compressor made of the
  data, with the zlib flag set.\<close>

theorem compress_msg_framed:
  assumes "compress_msg u zc cmd data = Some msg" and "length data < 2 ^ 32"
    and "\<forall>len dest. zc data = Some (len, dest) \<longrightarrow> len < 2 ^ 31"
  shows "framed msg \<and> hd_cmd (head_of msg) = cmd
    \<and> (msg = make_msg cmd data
       \<or> (\<exists>len dest. zc data = Some (len, dest) \<and> 0 < len \<and> drop head_size msg = take (nat len) dest
            \<and> hd_res (head_of msg) = ZLIB_FLAG_MASK))"
proof -
  have cut: "take (unat (of_nat (length data) :: 32 word)) data = data"
    using unat_of_length [OF assms(2)] by simp
  show ?thesis
  proof (cases "msg = make_msg cmd data")
    case True
    then show ?thesis
      using framed_make_msg [OF assms(2), of cmd] by (simp add: make_msg_def)
  next
    case False
    with assms(1) cut obtain len dest where z: "zc data = Some (len, dest)"
      and len: "0 < len" "nat len \<le> length dest"
      and msg: "msg = head_bytes \<lparr>hd_len = of_int len, hd_cmd = cmd, hd_res = ZLIB_FLAG_MASK\<rparr>
                  @ take (nat len) dest"
      by (auto simp: compress_msg_def Let_def make_msg_def zero_head_def bind_eq_Some_conv not_le
          split: if_splits)
    have "framed msg"
      unfolding msg using len assms(3) z by (intro framed_compressed) auto
    with z len msg show ?thesis by auto
  qed
qed

text \<open>The filter is read out of bounds for command 65535: with compression on, and data
  that is not small, the call has no defined result whatever the compressor does.\<close>

theorem compress_msg_filter_overrun:
  assumes "ZLIB_SIZE_LIMIT u \<le> length data" and "opened u" and "length (cmd_filter u) = 65535"
  shows "compress_msg u zc 65535 data = None"
  using assms by (simp add: compress_msg_def)

text \<open>The one-argument \<open>compress_msg\<close> ignores a failing compressor: whatever is in
  the output (nothing, when the stream could not be set up) replaces the body, with the flag
  that says it is compressed.\<close>

theorem compress_whole_msg_loses_body:
  assumes "opened u" and "ZLIB_SIZE_LIMIT u \<le> length body"
    and "zc body = Some (-1, [])"
  shows "\<exists>msg. compress_whole_msg u zc (make_msg cmd body) = Some msg
           \<and> drop head_size msg = [] \<and> hd_res (head_of msg) = ZLIB_FLAG_MASK"
  using assms by (simp add: compress_whole_msg_def make_msg_def zero_head_def Let_def)

section \<open>Instances\<close>

definition open_util :: msg_util where
  "open_util = \<lparr>ZLIB_SIZE_LIMIT = 4, opened = True, cmd_filter = replicate 65535 0\<rparr>"

theorem compress_msg_framed_witness:
  "\<exists>msg. compress_msg open_util (\<lambda>d. Some (2, [1, 2, 3])) 9 [5, 5, 5, 5, 5] = Some msg
     \<and> framed msg \<and> hd_cmd (head_of msg) = 9 \<and> drop head_size msg = [1, 2]"
proof -
  let ?zc = "\<lambda>d. Some (2, [1, 2, 3])"
  obtain msg where msg: "compress_msg open_util ?zc 9 [5, 5, 5, 5, 5] = Some msg"
    "drop head_size msg = [1, 2]"
    by (auto simp: compress_msg_def open_util_def Let_def)
  with compress_msg_framed [OF msg(1)] show ?thesis by auto
qed

theorem compress_msg_filter_overrun_witness:
  "compress_msg open_util (\<lambda>d. Some (2, [1, 2, 3])) 65535 [5, 5, 5, 5, 5] = None"
  by (rule compress_msg_filter_overrun) (simp_all add: open_util_def)

theorem compress_whole_msg_loses_body_witness:
  "\<exists>msg. compress_whole_msg open_util (\<lambda>d. Some (-1, [])) (make_msg 9 [5, 5, 5, 5, 5]) = Some msg
     \<and> drop head_size msg = [] \<and> hd_res (head_of msg) = ZLIB_FLAG_MASK"
  by (rule compress_whole_msg_loses_body) (simp_all add: open_util_def)

end
