(* ===== verification/RpcDef.thy ===== *)
theory RpcDef
  imports NbPrelude
begin

text \<open>
  The enumerations of mylib/rpc/rpc\_def.h, what the protocol layer asks a connection, and the
  contract of a consumer that is fed a byte stream in pieces.
\<close>

datatype rpc_status = RPC_DISCONNECTED | RPC_CONNECTING | RPC_CONNECTED

datatype rpc_connection_type = RPC_ACTIVE | RPC_PASSIVE

datatype rpc_error = RPC_STATUS_ERROR | RPC_READ_ERROR | RPC_WRITE_ERROR | RPC_BEAUDITED

datatype rpc_close_type = RPC_CLOSE | RPC_SHUTDOWN | RPC_KILL

text \<open>The answers of \<open>has_conn_type\<close> and \<open>has_monitor\<close> while a handler runs.\<close>

record conn_view =
  cv_type :: rpc_connection_type
  cv_monitor :: bool

section \<open>Consumers of a stream that arrives in pieces\<close>

text \<open>
  \<open>feed s xs\<close> consumes the piece \<open>xs\<close> in state \<open>s\<close> and emits outputs. The contract:
  in a good state feeding returns, in a good state, and feeding two pieces is feeding their
  concatenation. Then the way a stream is cut does not matter.
\<close>

locale piecewise_consumer =
  fixes feed :: "'s \<Rightarrow> 'b list \<Rightarrow> ('s \<times> 'o list) option"
    and good :: "'s \<Rightarrow> bool"
  assumes feed_nil: "good s \<Longrightarrow> feed s [] = Some (s, [])"
    and feed_returns: "good s \<Longrightarrow> \<exists>t out. feed s xs = Some (t, out) \<and> good t"
    and feed_append: "good s \<Longrightarrow> feed s xs = Some (t, out) \<Longrightarrow> feed t ys = Some (u, out') \<Longrightarrow>
      feed s (xs @ ys) = Some (u, out @ out')"

fun feed_all :: "('s \<Rightarrow> 'b list \<Rightarrow> ('s \<times> 'o list) option) \<Rightarrow> 's \<Rightarrow> 'b list list
    \<Rightarrow> ('s \<times> 'o list) option" where
  "feed_all feed s [] = Some (s, [])"
| "feed_all feed s (xs # xss) = do {
     (s, out) \<leftarrow> feed s xs;
     (s, out') \<leftarrow> feed_all feed s xss;
     Some (s, out @ out')
   }"

context piecewise_consumer
begin

lemma feed_all_concat:
  assumes "good s"
  shows "feed_all feed s xss = feed s (concat xss)"
  using assms
proof (induction xss arbitrary: s)
  case Nil
  then show ?case by (simp add: feed_nil)
next
  case (Cons xs xss)
  from feed_returns [OF Cons.prems] obtain t out where
    t: "feed s xs = Some (t, out)" "good t" by blast
  from feed_returns [OF t(2)] obtain u out' where "feed t (concat xss) = Some (u, out')" by blast
  with Cons.IH [OF t(2)] t(1) feed_append [OF Cons.prems t(1)] show ?case by simp
qed

lemma feed_cut_irrelevant:
  "good s \<Longrightarrow> concat xss = concat yss \<Longrightarrow> feed_all feed s xss = feed_all feed s yss"
  by (simp add: feed_all_concat)

end

text \<open>A consumer of frames: in an idle state a whole frame brings it back to an idle
  state and emits the outputs of that frame.\<close>

locale frame_consumer = piecewise_consumer feed good
  for feed :: "'s \<Rightarrow> 'b list \<Rightarrow> ('s \<times> 'o list) option" and good :: "'s \<Rightarrow> bool" +
  fixes idle :: "'s \<Rightarrow> bool"
    and frame :: "'m \<Rightarrow> 'b list"
    and whole :: "'m \<Rightarrow> bool"
    and emit :: "'m \<Rightarrow> 'o list"
  assumes idle_good: "idle s \<Longrightarrow> good s"
    and feed_frame: "idle s \<Longrightarrow> whole m \<Longrightarrow> \<exists>t. feed s (frame m) = Some (t, emit m) \<and> idle t"
begin

lemma feed_frames:
  assumes "idle s" and "list_all whole ms"
  shows "\<exists>t. feed s (concat (map frame ms)) = Some (t, concat (map emit ms)) \<and> idle t"
  using assms
proof (induction ms arbitrary: s)
  case Nil
  then show ?case by (simp add: feed_nil idle_good)
next
  case (Cons m ms)
  then obtain t where t: "feed s (frame m) = Some (t, emit m)" "idle t"
    using feed_frame by fastforce
  with Cons obtain u where "feed t (concat (map frame ms)) = Some (u, concat (map emit ms))" "idle u" by auto
  with feed_append [OF idle_good [OF Cons.prems(1)] t(1)] show ?case by auto
qed

lemma feed_all_frames:
  assumes "idle s" and "list_all whole ms" and "concat xss = concat (map frame ms)"
  shows "\<exists>t. feed_all feed s xss = Some (t, concat (map emit ms)) \<and> idle t"
  using feed_frames [OF assms(1,2)] assms(3) by (simp add: feed_all_concat idle_good [OF assms(1)])

end

end
