(* ===== verification/ConnProtocol.thy ===== *)
theory ConnProtocol
  imports RpcMsg RpcDef
begin

text \<open>
  The receiving side of the protocol, \<open>rpc_common_conn_protocal_t\<close> of
  mylib/rpc/rpc\_common\_conn\_protocol.h and .cpp: it cuts the bytes that a socket delivers
  into messages and posts a \<open>handle_msg\<close> for each.

  The state is the object's members; \<open>m_head\<close> is the memory of the head, written piece by
  piece by \<open>memcpy\<close>. What a handler calls outside the object is recorded as \<open>proto_event\<close>s
  in the order of the calls: requests to the connection monitor, tasks posted to the object's
  io service, and the next asynchronous read. \<open>None\<close> is a read loop that never ends.
\<close>

section \<open>State\<close>

record proto =
  m_msg_size :: "64 word"
  m_head :: bytes
  m_body :: bytes
  m_is_broken :: bool

datatype proto_event =
    Monitor_add
  | Monitor_update
  | Monitor_del
  | Post_handle_msg "8 word" "16 word" "16 word" bytes
  | Async_read

definition init_proto :: proto where
  "init_proto = \<lparr>m_msg_size = 0, m_head = head_bytes zero_head, m_body = [], m_is_broken = False\<rparr>"

definition reset :: "proto \<Rightarrow> proto" where
  "reset p = p\<lparr>m_msg_size := 0, m_is_broken := False, m_body := []\<rparr>"

section \<open>Reading\<close>

definition has_read_head_end_i :: "proto \<Rightarrow> bool" where
  "has_read_head_end_i p \<longleftrightarrow> m_msg_size p \<ge> of_nat head_size"

definition has_read_body_end_i :: "proto \<Rightarrow> bool" where
  "has_read_body_end_i p \<longleftrightarrow> unat (hd_len (head_of (m_head p))) = length (m_body p)"

text \<open>Both readers return how many bytes they took. The subtractions are in \<open>size_t\<close>.\<close>

definition read_head_i :: "bytes \<Rightarrow> proto \<Rightarrow> nat \<times> proto" where
  "read_head_i data p =
     (let tmp = min (unat (of_nat head_size - m_msg_size p)) (length data);
          at = unat (m_msg_size p)
      in (tmp, p\<lparr>m_head := take at (m_head p) @ take tmp data @ drop (at + tmp) (m_head p),
                 m_msg_size := m_msg_size p + of_nat tmp\<rparr>))"

definition read_body_i :: "bytes \<Rightarrow> proto \<Rightarrow> nat \<times> proto" where
  "read_body_i data p =
     (let tmp = min (unat (of_nat head_size + ucast (hd_len (head_of (m_head p))) - m_msg_size p))
                  (length data)
      in (tmp, p\<lparr>m_body := m_body p @ take tmp data, m_msg_size := m_msg_size p + of_nat tmp\<rparr>))"

definition monitored :: "conn_view \<Rightarrow> bool" where
  "monitored cv \<longleftrightarrow> cv_type cv = RPC_PASSIVE \<and> cv_monitor cv"

text \<open>What happens when a body is complete: the monitor hears of the beat, the message is
  posted, and the object is ready for the next head.\<close>

definition message_events :: "conn_view \<Rightarrow> proto \<Rightarrow> proto_event list" where
  "message_events cv p = (if monitored cv then [Monitor_update] else [])
     @ [Post_handle_msg 1 (hd_cmd (head_of (m_head p))) (hd_res (head_of (m_head p))) (m_body p)]"

definition next_message :: "proto \<Rightarrow> proto" where
  "next_message p = p\<lparr>m_head := head_bytes zero_head, m_msg_size := 0, m_body := []\<rparr>"

partial_function (option) read_loop :: "conn_view \<Rightarrow> bytes \<Rightarrow> proto \<Rightarrow> (proto \<times> proto_event list) option" where [code]:
  "read_loop cv data p =
     (if data = [] then Some (p, [])
      else if \<not> has_read_head_end_i p then
        (let (tmp, p) = read_head_i data p in read_loop cv (drop tmp data) p)
      else
        (let (tmp, p) = read_body_i data p
         in if has_read_body_end_i p then do {
              (q, evs) \<leftarrow> read_loop cv (drop tmp data) (next_message p);
              Some (q, message_events cv p @ evs)
            }
            else read_loop cv (drop tmp data) p))"

definition on_read :: "conn_view \<Rightarrow> bytes \<Rightarrow> proto \<Rightarrow> (int \<times> proto \<times> proto_event list) option" where
  "on_read cv data p = do { (q, evs) \<leftarrow> read_loop cv data p; Some (0, q, evs @ [Async_read]) }"

section \<open>Opening and closing\<close>

definition on_remote_open :: "conn_view \<Rightarrow> proto \<Rightarrow> int \<times> proto \<times> proto_event list" where
  "on_remote_open cv p = (0, reset p, (if monitored cv then [Monitor_add] else []) @ [Async_read])"

definition post_broken_msg_i :: "proto \<Rightarrow> proto \<times> proto_event list" where
  "post_broken_msg_i p = (if m_is_broken p then (p, [])
     else (p\<lparr>m_is_broken := True\<rparr>, [Post_handle_msg 0 0 0 []]))"

definition on_connect :: "bool \<Rightarrow> proto \<Rightarrow> int \<times> proto \<times> proto_event list" where
  "on_connect failed p =
     (if failed then (let (q, evs) = post_broken_msg_i p in (0, q, evs))
      else (0, reset p, [Async_read]))"

definition on_closed :: "conn_view \<Rightarrow> proto \<Rightarrow> proto \<times> proto_event list" where
  "on_closed cv p = (let (q, evs) = post_broken_msg_i p
     in (q, (if monitored cv then [Monitor_del] else []) @ evs))"

section \<open>The stream as a sequence of messages\<close>

text \<open>
  The specification of the reader on the whole stream: the messages at its front and the
  bytes left over. A message is taken off as soon as its last byte is there, except that an
  empty body is only noticed when there is a byte behind the head.
\<close>

function split_msgs :: "bytes \<Rightarrow> (msg_head \<times> bytes) list \<times> bytes" where
  "split_msgs bs =
     (if length bs < head_size then ([], bs)
      else let h = head_of (take head_size bs); n = unat (hd_len h)
           in if head_size + n < length bs \<or> head_size + n = length bs \<and> n \<noteq> 0
              then let (ms, rest) = split_msgs (drop (head_size + n) bs)
                   in ((h, take n (drop head_size bs)) # ms, rest)
              else ([], bs))"
  by pat_completeness auto
termination
  by (relation "measure length") (auto simp: head_size_def)

declare split_msgs.simps [simp del]

definition events_of :: "conn_view \<Rightarrow> (msg_head \<times> bytes) list \<Rightarrow> proto_event list" where
  "events_of cv ms = concat (map (\<lambda>(h, body).
     (if monitored cv then [Monitor_update] else [])
     @ [Post_handle_msg 1 (hd_cmd h) (hd_res h) body]) ms)"

text \<open>Good states: the size counts the bytes of the message read so far, and a complete
  message never stays in the object, but for an empty one.\<close>

definition proto_ok :: "proto \<Rightarrow> bool" where
  "proto_ok p \<longleftrightarrow> length (m_head p) = head_size
     \<and> (if unat (m_msg_size p) < head_size then m_body p = []
        else unat (m_msg_size p) = head_size + length (m_body p)
          \<and> (let n = unat (hd_len (head_of (m_head p)))
             in length (m_body p) < n \<or> n = 0 \<and> m_body p = []))"

definition unread :: "proto \<Rightarrow> bytes" where
  "unread p = take (unat (m_msg_size p)) (m_head p) @ m_body p"

text \<open>The memory of the head after a read: the bytes received, before what was there.\<close>

definition overlay :: "bytes \<Rightarrow> bytes \<Rightarrow> bytes" where
  "overlay bs mem = take head_size bs @ drop (length bs) mem"

lemma overlay_overlay: "length mem = head_size \<Longrightarrow> overlay (bs @ cs) (overlay bs mem) = overlay (bs @ cs) mem"
  by (cases "length bs \<le> head_size") (auto simp: overlay_def add.commute)

lemma length_overlay [simp]: "length mem = head_size \<Longrightarrow> length (overlay bs mem) = head_size"
  by (simp add: overlay_def)

lemma overlay_Nil [simp]: "overlay [] mem = mem"
  by (simp add: overlay_def)

lemma events_of_simps [simp]:
  "events_of cv [] = []"
  "events_of cv ((h, body) # ms) = (if monitored cv then [Monitor_update] else [])
     @ Post_handle_msg 1 (hd_cmd h) (hd_res h) body # events_of cv ms"
  "events_of cv (ms @ ms') = events_of cv ms @ events_of cv ms'"
  by (simp_all add: events_of_def)

lemma head_end_iff: "has_read_head_end_i p \<longleftrightarrow> head_size \<le> unat (m_msg_size p)"
  by (simp add: has_read_head_end_i_def word_le_nat_alt head_size_def)

lemma proto_ok_init: "proto_ok init_proto" "unread init_proto = []"
  by (simp_all add: proto_ok_def init_proto_def unread_def head_size_def)

lemma proto_ok_next: "length (m_head p) = head_size \<Longrightarrow> proto_ok (next_message p)"
  "unread (next_message p) = []" "m_is_broken (next_message p) = m_is_broken p"
  by (simp_all add: proto_ok_def next_message_def unread_def head_size_def)

lemma proto_ok_overlay: "proto_ok p \<Longrightarrow> overlay (unread p) (m_head p) = m_head p"
  by (auto simp: proto_ok_def overlay_def unread_def Let_def split: if_splits)

lemma split_msgs_none: "fst (split_msgs bs) = [] \<Longrightarrow> snd (split_msgs bs) = bs"
  by (subst (asm) split_msgs.simps, subst split_msgs.simps) (auto simp: Let_def split_beta split: if_splits)

lemma proto_ok_idle: "proto_ok p \<Longrightarrow> split_msgs (unread p) = ([], unread p)"
  by (subst split_msgs.simps) (auto simp: proto_ok_def unread_def Let_def split: if_splits)

lemma unat_add_nat: "unat w + n < 2 ^ 64 \<Longrightarrow> unat (w + of_nat n :: 64 word) = unat w + n"
  by (simp add: unat_word_ariths unat_of_nat)

lemma unat_ucast_len: "unat (ucast (w :: 32 word) :: 64 word) = unat w"
proof -
  have "unat w < 2 ^ 64" using unsigned_less [of w, where 'a = nat] by simp
  then show ?thesis using unsigned_ucast_eq [of w, where 'a = nat and 'c = 64]
    by (simp add: take_bit_nat_eq_self del: unsigned_ucast_eq)
qed

lemma read_head_step:
  assumes "proto_ok p" and "\<not> has_read_head_end_i p" and "data \<noteq> []"
    and "read_head_i data p = (tmp, q)"
  shows "0 < tmp" "tmp \<le> length data" "proto_ok q" "unread q @ drop tmp data = unread p @ data"
    "m_is_broken q = m_is_broken p" "\<exists>bs. unread q = unread p @ bs" "m_head q = overlay (unread q) (m_head p)"
proof -
  let ?at = "unat (m_msg_size p)"
  have at: "?at < head_size" and body: "m_body p = []" and len: "length (m_head p) = head_size"
    using assms(1,2) by (auto simp: proto_ok_def head_end_iff split: if_splits)
  have room: "unat (of_nat head_size - m_msg_size p :: 64 word) = head_size - ?at"
    using at unat_sub_if' [of "of_nat head_size :: 64 word" "m_msg_size p"]
    by (simp add: head_size_def)
  have tmp: "tmp = min (head_size - ?at) (length data)"
    and q: "q = p\<lparr>m_head := take ?at (m_head p) @ take tmp data @ drop (?at + tmp) (m_head p),
                 m_msg_size := m_msg_size p + of_nat tmp\<rparr>"
    using assms(4) room by (auto simp: read_head_i_def Let_def)
  have size: "unat (m_msg_size q) = ?at + tmp"
    using at tmp unat_add_nat [of "m_msg_size p" tmp] by (simp add: q head_size_def)
  show "0 < tmp" "tmp \<le> length data" using at assms(3) tmp by auto
  show "proto_ok q"
    using at body len tmp size by (auto simp: proto_ok_def q Let_def)
  show "unread q @ drop tmp data = unread p @ data"
    unfolding unread_def size using at body len tmp by (simp add: q)
  show "m_is_broken q = m_is_broken p" by (simp add: q)
  have "unread q = unread p @ take tmp data"
    unfolding unread_def size using at body len tmp by (simp add: q)
  then show "\<exists>bs. unread q = unread p @ bs" by blast
  show "m_head q = overlay (unread q) (m_head p)"
    unfolding unread_def size overlay_def using at body len tmp by (simp add: q)
qed

lemma read_body_step:
  assumes "proto_ok p" and "has_read_head_end_i p" and "read_body_i data p = (tmp, q)"
  defines "n \<equiv> unat (hd_len (head_of (m_head p)))"
  shows "tmp = min (n - length (m_body p)) (length data)" "m_body q = m_body p @ take tmp data"
    "m_head q = m_head p" "unat (m_msg_size q) = head_size + length (m_body q)"
    "m_is_broken q = m_is_broken p" "length (m_body p) \<le> n"
proof -
  have size: "unat (m_msg_size p) = head_size + length (m_body p)" and le: "length (m_body p) \<le> n"
    using assms(1,2) by (auto simp: proto_ok_def head_end_iff n_def Let_def split: if_splits)
  have n: "n < 2 ^ 32" unfolding n_def using unsigned_less [of "hd_len (head_of (m_head p))", where 'a = nat] by simp
  have whole: "unat (of_nat head_size + ucast (hd_len (head_of (m_head p))) :: 64 word) = head_size + n"
    using n unat_add_nat [of "ucast (hd_len (head_of (m_head p)))" head_size]
    by (simp add: head_size_def n_def add.commute unat_ucast_len)
  have room: "unat (of_nat head_size + ucast (hd_len (head_of (m_head p))) - m_msg_size p)
      = n - length (m_body p)"
    using whole size le
      unat_sub_if' [of "of_nat head_size + ucast (hd_len (head_of (m_head p)))" "m_msg_size p"] by simp
  show tmp: "tmp = min (n - length (m_body p)) (length data)"
    and body: "m_body q = m_body p @ take tmp data" and "m_head q = m_head p"
    and "m_is_broken q = m_is_broken p"
    using assms(3) room by (auto simp: read_body_i_def Let_def)
  have "m_msg_size q = m_msg_size p + of_nat tmp"
    using assms(3) by (auto simp: read_body_i_def Let_def)
  then show "unat (m_msg_size q) = head_size + length (m_body q)"
    using tmp body size le n unat_add_nat [of "m_msg_size p" tmp] by (simp add: head_size_def)
  show "length (m_body p) \<le> n" by (rule le)
qed

section \<open>The read loop cuts the stream as specified\<close>

lemma split_msgs_step:
  assumes "unread p @ data = head_bytes' @ body @ rest" and "length head_bytes' = head_size"
    and "length body = unat (hd_len (head_of head_bytes'))" and "body \<noteq> [] \<or> rest \<noteq> []"
  shows "split_msgs (unread p @ data)
    = (let (ms, left) = split_msgs rest in ((head_of head_bytes', body) # ms, left))"
  using assms(3,4) unfolding assms(1) using assms(2)
  by (subst split_msgs.simps) (auto simp: Let_def simp flip: length_greater_0_conv split: prod.splits)

definition head_memory :: "proto \<Rightarrow> bytes \<Rightarrow> bytes" where
  "head_memory p data = (let (ms, rest) = split_msgs (unread p @ data)
     in overlay rest (if ms = [] then m_head p else head_bytes zero_head))"

lemma head_memory_idle: "proto_ok p \<Longrightarrow> split_msgs (unread p @ data) = ([], unread q) \<Longrightarrow>
    head_memory p data = overlay (unread q) (m_head p)"
  by (simp add: head_memory_def)

lemma head_memory_nil [simp]: "proto_ok p \<Longrightarrow> head_memory p [] = m_head p"
  by (simp add: head_memory_def proto_ok_idle proto_ok_overlay)

lemma head_memory_cong:
  assumes "unread q @ ys = unread p @ xs" and "unread q = unread p @ bs"
    and "m_head q = overlay (unread q) (m_head p)" and "length (m_head p) = head_size"
  shows "head_memory q ys = head_memory p xs"
proof (cases "fst (split_msgs (unread p @ xs)) = []")
  case True
  then have none: "split_msgs (unread p @ xs) = ([], unread p @ xs)"
    using split_msgs_none [OF True] by (simp add: prod_eq_iff)
  have "overlay (unread q @ ys) (m_head q) = overlay (unread q @ ys) (m_head p)"
    unfolding assms(3) by (rule overlay_overlay [OF assms(4)])
  with none show ?thesis unfolding head_memory_def assms(1) by simp
next
  case False
  then show ?thesis unfolding head_memory_def assms(1) by (simp add: split_beta)
qed

lemma read_loop_splits:
  assumes "proto_ok p"
  shows "\<exists>q. read_loop cv data p = Some (q, events_of cv (fst (split_msgs (unread p @ data))))
    \<and> proto_ok q \<and> unread q = snd (split_msgs (unread p @ data)) \<and> m_is_broken q = m_is_broken p
    \<and> m_head q = head_memory p data"
  using assms
proof (induction "2 * length data + (if has_read_head_end_i p then 1 else 0)"
    arbitrary: data p rule: less_induct)
  case less
  show ?case
  proof (cases "data = []")
    case True
    with less.prems show ?thesis by (subst read_loop.simps) (simp add: proto_ok_idle)
  next
    case False
    show ?thesis
    proof (cases "has_read_head_end_i p")
      case no_head: False
      obtain tmp q where q: "read_head_i data p = (tmp, q)" by fastforce
      note step = read_head_step [OF less.prems no_head False q]
      have "2 * length (drop tmp data) + (if has_read_head_end_i q then 1 else 0)
          < 2 * length data + (if has_read_head_end_i p then 1 else 0)"
        using step(1,2) no_head by auto
      moreover have "head_memory q (drop tmp data) = head_memory p data"
        using step(6) less.prems
        by (elim exE) (rule head_memory_cong [OF step(4) _ step(7)], auto simp: proto_ok_def)
      ultimately show ?thesis using less.hyps [OF _ step(3), of "drop tmp data"] step(4,5)
        using False no_head q by (subst read_loop.simps) simp
    next
      case head: True
      obtain tmp q where q: "read_body_i data p = (tmp, q)" by fastforce
      note step = read_body_step [OF less.prems head q]
      have hlen: "length (m_head p) = head_size" using less.prems by (simp add: proto_ok_def)
      have len: "length (m_body q) = length (m_body p) + tmp" using step(1,2) by simp
      have "m_body p @ data = m_body q @ drop tmp data" using step(2) by simp
      moreover have "unread p = m_head p @ m_body p"
        using less.prems head hlen by (simp add: unread_def head_end_iff)
      ultimately have all: "unread p @ data = m_head p @ m_body q @ drop tmp data" by simp
      show ?thesis
      proof (cases "has_read_body_end_i q")
        case complete: True
        then have n: "length (m_body q) = unat (hd_len (head_of (m_head p)))"
          by (simp add: has_read_body_end_i_def step(3))
        then have tmp: "tmp = unat (hd_len (head_of (m_head p))) - length (m_body p)"
          using len step(1) step(6) by simp
        have more: "m_body q \<noteq> [] \<or> drop tmp data \<noteq> []"
        proof (cases "m_body q = []")
          case True
          with len have "tmp = 0" by simp
          with False show ?thesis by simp
        qed simp
        note split = split_msgs_step [OF all hlen n more]
        have "proto_ok (next_message q)" using hlen step(3) by (intro proto_ok_next) simp
        moreover have "2 * length (drop tmp data) + (if has_read_head_end_i (next_message q) then 1 else 0)
          < 2 * length data + (if has_read_head_end_i p then 1 else 0)"
          using head by (simp add: has_read_head_end_i_def next_message_def head_size_def)
        ultimately obtain u where "read_loop cv (drop tmp data) (next_message q)
            = Some (u, events_of cv (fst (split_msgs (drop tmp data))))" "proto_ok u"
          "unread u = snd (split_msgs (drop tmp data))" "m_is_broken u = m_is_broken p"
          "m_head u = head_memory (next_message q) (drop tmp data)"
          using less.hyps [of "drop tmp data" "next_message q"] step(5) by (auto simp: proto_ok_next)
        moreover have "head_memory (next_message q) (drop tmp data) = head_memory p data"
          using split by (simp add: head_memory_def proto_ok_next) (simp add: next_message_def split_beta)
        ultimately show ?thesis
          using False head q complete split
          by (subst read_loop.simps) (simp add: message_events_def step(3) split_beta)
      next
        case False
        then have "length (m_body q) \<noteq> unat (hd_len (head_of (m_head p)))"
          by (simp add: has_read_body_end_i_def step(3))
        with step(1,6) len have tmp: "tmp = length data"
          and short: "length (m_body q) < unat (hd_len (head_of (m_head p)))" by auto
        have ok: "proto_ok q" using step(3,4) short hlen by (simp add: proto_ok_def Let_def)
        have "unread q = unread p @ data"
          using all tmp step(3,4) hlen by (simp add: unread_def)
        moreover from this have "m_head q = head_memory p data"
          using proto_ok_idle [OF ok] proto_ok_overlay [OF ok] step(3) by (simp add: head_memory_def)
        ultimately show ?thesis
          using ok step(5) tmp \<open>data \<noteq> []\<close> head q \<open>\<not> has_read_body_end_i q\<close> proto_ok_idle [OF ok]
          by (subst read_loop.simps) (simp add: read_loop.simps [of cv "[]"])
      qed
    qed
  qed
qed

lemma split_msgs_append:
  "split_msgs (bs @ cs) = (let (ms, rest) = split_msgs bs; (ms', rest') = split_msgs (rest @ cs)
                           in (ms @ ms', rest'))"
proof (induction bs rule: split_msgs.induct)
  case (1 bs)
  let ?h = "head_of (take head_size bs)" and ?n = "unat (hd_len (head_of (take head_size bs)))"
  show ?case
  proof (cases "head_size \<le> length bs
      \<and> (head_size + ?n < length bs \<or> head_size + ?n = length bs \<and> ?n \<noteq> 0)")
    case True
    then have go: "split_msgs bs = (let (ms, rest) = split_msgs (drop (head_size + ?n) bs)
        in ((?h, take ?n (drop head_size bs)) # ms, rest))"
      by (subst split_msgs.simps) (auto simp: Let_def)
    from True have "split_msgs (bs @ cs) = (let (ms, rest) = split_msgs (drop (head_size + ?n) bs @ cs)
        in ((?h, take ?n (drop head_size bs)) # ms, rest))"
      by (subst split_msgs.simps) (auto simp: Let_def)
    moreover have "split_msgs (drop (head_size + ?n) bs @ cs)
        = (let (ms, rest) = split_msgs (drop (head_size + ?n) bs);
               (ms', rest') = split_msgs (rest @ cs) in (ms @ ms', rest'))"
      using 1 True by (auto simp: Let_def)
    ultimately show ?thesis unfolding go by (simp add: Let_def split_beta)
  next
    case False
    then have "split_msgs bs = ([], bs)" by (subst split_msgs.simps) (auto simp: Let_def)
    then show ?thesis by simp
  qed
qed

lemma split_msgs_make_msg:
  assumes "body \<noteq> []" and "length body < 2 ^ 32"
  shows "split_msgs (make_msg cmd body)
    = ([(\<lparr>hd_len = of_nat (length body), hd_cmd = cmd, hd_res = 0\<rparr>, body)], [])"
  using assms
  by (subst split_msgs.simps)
    (simp add: make_msg_def zero_head_def unat_of_length split_msgs.simps [of "[]"] head_size_def)

section \<open>The connection protocol as a consumer of pieces and of frames\<close>

definition between_msgs :: "proto \<Rightarrow> bool" where
  "between_msgs p \<longleftrightarrow> proto_ok p \<and> unread p = []"

definition sendable :: "16 word \<times> bytes \<Rightarrow> bool" where
  "sendable m \<longleftrightarrow> snd m \<noteq> [] \<and> length (snd m) < 2 ^ 32"

definition msg_events :: "conn_view \<Rightarrow> 16 word \<times> bytes \<Rightarrow> proto_event list" where
  "msg_events cv m = (if monitored cv then [Monitor_update] else [])
     @ [Post_handle_msg 1 (fst m) 0 (snd m)]"

lemma proto_eqI:
  assumes "proto_ok p" and "proto_ok q" and "unread p = unread q" and "m_is_broken p = m_is_broken q"
    and "m_head p = m_head q"
  shows "p = q"
proof -
  have len: "length (unread r) = unat (m_msg_size r) \<and> drop head_size (unread r) = m_body r"
    if "proto_ok r" for r
    using that by (auto simp: proto_ok_def unread_def split: if_splits)
  have "m_msg_size p = m_msg_size q" "m_body p = m_body q"
    using len [OF assms(1)] len [OF assms(2)] assms(3) by (auto simp: word_unat_eq_iff)
  with assms(4,5) show ?thesis by simp
qed

lemma read_loop_append:
  assumes "proto_ok p" and "read_loop cv xs p = Some (q, out)" and "read_loop cv ys q = Some (r, out')"
  shows "read_loop cv (xs @ ys) p = Some (r, out @ out')"
proof -
  obtain ms rest where 1: "split_msgs (unread p @ xs) = (ms, rest)" by fastforce
  obtain ms' rest' where 2: "split_msgs (rest @ ys) = (ms', rest')" by fastforce
  have q: "out = events_of cv ms" "proto_ok q" "unread q = rest" "m_is_broken q = m_is_broken p"
    "m_head q = head_memory p xs"
    using read_loop_splits [OF assms(1), of cv xs] assms(2) 1 by auto
  have r: "out' = events_of cv ms'" "proto_ok r" "unread r = rest'" "m_is_broken r = m_is_broken p"
    "m_head r = head_memory q ys"
    using read_loop_splits [OF q(2), of cv ys] assms(3) 2 q(3,4) by auto
  have all: "split_msgs (unread p @ xs @ ys) = (ms @ ms', rest')"
    using split_msgs_append [of "unread p @ xs" ys] 1 2 by simp
  obtain u where u: "read_loop cv (xs @ ys) p = Some (u, events_of cv (ms @ ms'))" "proto_ok u"
    "unread u = rest'" "m_is_broken u = m_is_broken p" "m_head u = head_memory p (xs @ ys)"
    using read_loop_splits [OF assms(1), of cv "xs @ ys"] all by auto
  let ?mem = "if ms = [] then m_head p else head_bytes zero_head"
  have "m_head q = overlay rest ?mem" using q(5) 1 by (simp add: head_memory_def)
  moreover have "overlay rest' (overlay rest ?mem) = overlay rest' ?mem" if "ms' = []"
    using split_msgs_none [of "rest @ ys"] that 2 assms(1)
    by (auto simp: proto_ok_def intro: overlay_overlay)
  ultimately have "m_head u = m_head r"
    using u(5) r(5) all 2 q(3) by (simp add: head_memory_def)
  with u r have "u = r" by (intro proto_eqI) simp_all
  with u(1) q(1) r(1) show ?thesis by simp
qed

interpretation rd: frame_consumer "\<lambda>p xs. read_loop cv xs p" proto_ok between_msgs
  "\<lambda>m. make_msg (fst m) (snd m)" sendable "msg_events cv" for cv
proof
  show "read_loop cv [] p = Some (p, [])" for p by (simp add: read_loop.simps)
  show "\<exists>q out. read_loop cv xs p = Some (q, out) \<and> proto_ok q" if "proto_ok p" for p xs
    using read_loop_splits [OF that] by blast
  show "read_loop cv (xs @ ys) p = Some (r, out @ out')"
    if "proto_ok p" "read_loop cv xs p = Some (q, out)" "read_loop cv ys q = Some (r, out')"
    for p q r xs ys out out' by (rule read_loop_append [OF that])
  show "proto_ok p" if "between_msgs p" for p using that by (simp add: between_msgs_def)
  show "\<exists>q. read_loop cv (make_msg (fst m) (snd m)) p = Some (q, msg_events cv m) \<and> between_msgs q"
    if "between_msgs p" "sendable m" for p m
    using that read_loop_splits [of p cv "make_msg (fst m) (snd m)"]
      split_msgs_make_msg [of "snd m" "fst m"]
    by (auto simp: between_msgs_def sendable_def msg_events_def)
qed

section \<open>Histories of the protocol object\<close>

text \<open>One call on the object, by the connection it belongs to.\<close>

datatype proto_call = Remote_open | Connect bool | Read bytes | Closed

definition proto_do :: "conn_view \<Rightarrow> proto_call \<Rightarrow> proto \<Rightarrow> (proto \<times> proto_event list) option" where
  "proto_do cv c p = (case c of
      Remote_open \<Rightarrow> Some (snd (on_remote_open cv p))
    | Connect failed \<Rightarrow> Some (snd (on_connect failed p))
    | Read data \<Rightarrow> map_option snd (on_read cv data p)
    | Closed \<Rightarrow> Some (on_closed cv p))"

fun proto_run :: "conn_view \<Rightarrow> proto_call list \<Rightarrow> proto \<Rightarrow> (proto \<times> proto_event list) option" where
  "proto_run cv [] p = Some (p, [])"
| "proto_run cv (c # cs) p = do {
     (q, evs) \<leftarrow> proto_do cv c p;
     (r, evs') \<leftarrow> proto_run cv cs q;
     Some (r, evs @ evs')
   }"

inductive proto_step :: "conn_view \<Rightarrow> proto \<Rightarrow> proto \<Rightarrow> bool" for cv where
  proto_step: "proto_do cv c p = Some (q, evs) \<Longrightarrow> proto_step cv p q"

inductive_cases proto_stepE: "proto_step cv p q"

lemma on_read_splits:
  assumes "proto_ok p"
  shows "\<exists>q. on_read cv data p = Some (0, q, events_of cv (fst (split_msgs (unread p @ data))) @ [Async_read])
    \<and> proto_ok q \<and> unread q = snd (split_msgs (unread p @ data)) \<and> m_is_broken q = m_is_broken p"
  using read_loop_splits [OF assms, of cv data] by (auto simp: on_read_def)

lemma proto_ok_reset: "proto_ok p \<Longrightarrow> proto_ok (reset p)" "unread (reset p) = []"
  "m_is_broken (reset p) = False"
  by (simp_all add: proto_ok_def reset_def unread_def head_size_def)

lemma post_broken: "proto_ok p \<Longrightarrow> proto_ok (fst (post_broken_msg_i p))"
  "unread (fst (post_broken_msg_i p)) = unread p" "m_is_broken (fst (post_broken_msg_i p))"
  by (simp_all add: proto_ok_def post_broken_msg_i_def unread_def)

lemma proto_do_ok:
  assumes "proto_ok p"
  shows "\<exists>q evs. proto_do cv c p = Some (q, evs) \<and> proto_ok q"
proof (cases c)
  case (Read data)
  then show ?thesis using on_read_splits [OF assms, of cv data] by (auto simp: proto_do_def)
next
  case (Connect failed)
  obtain q evs where "post_broken_msg_i p = (q, evs)" by fastforce
  with Connect post_broken(1) [OF assms] proto_ok_reset(1) [OF assms] show ?thesis
    by (simp add: proto_do_def on_connect_def)
qed (use post_broken(1) [OF assms] proto_ok_reset(1) [OF assms] in
  \<open>simp_all add: proto_do_def on_remote_open_def on_closed_def on_connect_def split_beta\<close>)

interpretation ps: inductive_invariant "\<lambda>p. p = init_proto" "proto_step cv" proto_ok for cv
proof
  show "proto_ok q" if step: "proto_step cv p q" and ok: "proto_ok p" for p q
  proof -
    from step obtain c evs where "proto_do cv c p = Some (q, evs)" by (rule proto_stepE)
    with proto_do_ok [OF ok, of cv c] show ?thesis by auto
  qed
qed (simp add: proto_ok_init)

text \<open>C5: In every state that calls on a fresh object can lead to, \<open>on_read\<close> returns 0: its loop
  ends whatever the bytes and the lengths in them. It posts one \<open>handle_msg\<close> for each message
  of the bytes kept and the bytes delivered, in order, and asks for the next read once, last; the
  bytes of the unfinished message are what it keeps.\<close>

theorem on_read_refines:
  assumes "reach (\<lambda>p. p = init_proto) (proto_step cv) p"
  shows "\<exists>q. on_read cv data p = Some (0, q, events_of cv (fst (split_msgs (unread p @ data))) @ [Async_read])
    \<and> unread q = snd (split_msgs (unread p @ data)) \<and> m_is_broken q = m_is_broken p"
  using on_read_splits [OF ps.inv_reach [OF assms]] by blast

text \<open>What a run posts, without the requests for the next read, of which there is one for
  each piece.\<close>

definition posted :: "(proto \<times> proto_event list) option \<Rightarrow> (proto \<times> proto_event list) option" where
  "posted = map_option (\<lambda>(p, evs). (p, filter (\<lambda>e. e \<noteq> Async_read) evs))"

lemma events_of_no_read [simp]:
  "filter (\<lambda>e. e \<noteq> Async_read) (events_of cv ms) = events_of cv ms"
  by (induction ms) auto

lemma posted_reads:
  assumes "proto_ok p"
  shows "posted (proto_run cv (map Read xss) p) = feed_all (\<lambda>p xs. read_loop cv xs p) p xss"
  using assms
proof (induction xss arbitrary: p)
  case Nil
  then show ?case by (simp add: posted_def)
next
  case (Cons xs xss)
  obtain q where q: "read_loop cv xs p = Some (q, events_of cv (fst (split_msgs (unread p @ xs))))"
    "proto_ok q" using read_loop_splits [OF Cons.prems] by blast
  with Cons.IH [OF q(2)] show ?case
    by (cases "proto_run cv (map Read xss) q")
      (auto simp: posted_def proto_do_def on_read_def split_beta simp del: filter_append
        simp flip: Cons.IH [OF q(2)] simp: filter_append)
qed

text \<open>However the bytes of a stream are cut into reads, all the reads return, the object
  ends in the same state, and it has posted the same messages in the same order.\<close>

theorem read_cut_irrelevant:
  assumes "reach (\<lambda>p. p = init_proto) (proto_step cv) p" and "concat xss = concat yss"
  shows "posted (proto_run cv (map Read xss) p) = posted (proto_run cv (map Read yss) p)
    \<and> proto_run cv (map Read xss) p \<noteq> None"
proof -
  note ok = ps.inv_reach [OF assms(1)]
  have "posted (proto_run cv (map Read xss) p) \<noteq> None"
    unfolding posted_reads [OF ok] rd.feed_all_concat [OF ok] using rd.feed_returns [OF ok] by fastforce
  then have "proto_run cv (map Read xss) p \<noteq> None" by (simp add: posted_def)
  with rd.feed_cut_irrelevant [OF ok assms(2)] show ?thesis by (simp add: posted_reads [OF ok])
qed

lemma stream_frames:
  assumes "proto_ok p" and "unread p = []"
    and "list_all sendable ms" and "concat xss = concat (map (\<lambda>(cmd, body). make_msg cmd body) ms)"
  shows "\<exists>q. posted (proto_run cv (map Read xss) p) = Some (q, concat (map (msg_events cv) ms))
    \<and> unread q = []"
proof -
  from assms(1,2) have "between_msgs p" by (simp add: between_msgs_def)
  from rd.feed_all_frames [OF this assms(3), of xss cv] assms(4) show ?thesis
    by (auto simp: posted_reads [OF assms(1)] between_msgs_def case_prod_unfold)
qed

text \<open>The round trip of the wire format: when the messages that \<open>make_msg\<close> builds from
  non-empty bodies are sent one after the other, and arrive at an object that is between two
  messages, in pieces cut anywhere, then exactly these messages are posted, commands and bodies in
  order, and nothing is left in the object.\<close>

theorem stream_round_trip:
  assumes "reach (\<lambda>p. p = init_proto) (proto_step cv) p" and "unread p = []"
    and "list_all sendable ms" and "concat xss = concat (map (\<lambda>(cmd, body). make_msg cmd body) ms)"
  shows "\<exists>q. posted (proto_run cv (map Read xss) p) = Some (q, concat (map (msg_events cv) ms))
    \<and> unread q = []"
  by (rule stream_frames [OF ps.inv_reach [OF assms(1)] assms(2-4)])

text \<open>A message with an empty body is not posted when it has arrived: the read of its eight
  bytes posts nothing, and only the first byte of whatever follows makes the object post it.\<close>

theorem empty_body_waits:
  assumes "reach (\<lambda>p. p = init_proto) (proto_step cv) p" and "unread p = []"
  shows "\<exists>q r. on_read cv (make_msg cmd []) p = Some (0, q, [Async_read])
    \<and> on_read cv [b] q = Some (0, r, msg_events cv (cmd, []) @ [Async_read]) \<and> unread r = [b]"
proof -
  let ?h = "head_bytes \<lparr>hd_len = 0, hd_cmd = cmd, hd_res = 0\<rparr>"
  have m: "make_msg cmd [] = ?h" by (simp add: make_msg_def zero_head_def)
  have none: "split_msgs ?h = ([], ?h)" by (subst split_msgs.simps) simp
  have one: "split_msgs (?h @ [b]) = ([(\<lparr>hd_len = 0, hd_cmd = cmd, hd_res = 0\<rparr>, [])], [b])"
    by (subst split_msgs.simps) (simp add: split_msgs.simps [of "[b]"] head_size_def)
  obtain q where q: "on_read cv (make_msg cmd []) p = Some (0, q, [Async_read])" "proto_ok q" "unread q = ?h"
    using on_read_splits [OF ps.inv_reach [OF assms(1)], of cv "make_msg cmd []"] assms(2) none
    by (auto simp: m)
  from on_read_splits [OF q(2), of cv "[b]"] q one show ?thesis by (auto simp: msg_events_def)
qed

text \<open>Which calls report that the connection is gone, and which start a new one.\<close>

definition breaks :: "proto_call \<Rightarrow> bool" where
  "breaks c \<longleftrightarrow> c = Closed \<or> c = Connect True"

definition renews :: "proto_call \<Rightarrow> bool" where
  "renews c \<longleftrightarrow> c = Remote_open \<or> c = Connect False"

definition broken_posts :: "proto_event list \<Rightarrow> nat" where
  "broken_posts evs = length (filter (\<lambda>e. \<exists>cmd res body. e = Post_handle_msg 0 cmd res body) evs)"

lemma broken_posts_simps [simp]:
  "broken_posts [] = 0" "broken_posts (xs @ ys) = broken_posts xs + broken_posts ys"
  "broken_posts (Post_handle_msg f cmd res body # xs) = (if f = 0 then 1 else 0) + broken_posts xs"
  "broken_posts (Monitor_add # xs) = broken_posts xs" "broken_posts (Monitor_del # xs) = broken_posts xs"
  "broken_posts (Monitor_update # xs) = broken_posts xs" "broken_posts (Async_read # xs) = broken_posts xs"
  by (simp_all add: broken_posts_def)

lemma broken_posts_events [simp]: "broken_posts (events_of cv ms) = 0"
  by (induction ms) auto

lemma proto_do_broken:
  assumes "proto_ok p" and "\<not> renews c" and "proto_do cv c p = Some (q, evs)"
  shows "broken_posts evs = (if \<not> m_is_broken p \<and> breaks c then 1 else 0)"
    and "m_is_broken q \<longleftrightarrow> m_is_broken p \<or> breaks c"
proof -
  have "broken_posts evs = (if \<not> m_is_broken p \<and> breaks c then 1 else 0)
    \<and> (m_is_broken q \<longleftrightarrow> m_is_broken p \<or> breaks c)"
  proof (cases c)
    case (Read data)
    with assms on_read_splits [OF assms(1), of cv data] show ?thesis
      by (auto simp: proto_do_def breaks_def)
  qed (use assms in \<open>auto simp: proto_do_def breaks_def renews_def on_connect_def on_closed_def
    post_broken_msg_i_def split: if_splits\<close>)
  then show "broken_posts evs = (if \<not> m_is_broken p \<and> breaks c then 1 else 0)"
    and "m_is_broken q \<longleftrightarrow> m_is_broken p \<or> breaks c" by blast+
qed

lemma broken_run:
  assumes "proto_ok p" and "\<forall>c \<in> set cs. \<not> renews c"
  shows "\<exists>q evs. proto_run cv cs p = Some (q, evs)
    \<and> broken_posts evs = (if \<not> m_is_broken p \<and> (\<exists>c \<in> set cs. breaks c) then 1 else 0)"
  using assms
proof (induction cs arbitrary: p)
  case (Cons c cs)
  obtain q evs where q: "proto_do cv c p = Some (q, evs)" "proto_ok q"
    using proto_do_ok [OF Cons.prems(1), of cv c] by blast
  from Cons.IH [OF q(2)] Cons.prems(2) obtain r evs' where
    r: "proto_run cv cs q = Some (r, evs')"
      "broken_posts evs' = (if \<not> m_is_broken q \<and> (\<exists>c \<in> set cs. breaks c) then 1 else 0)" by auto
  note d = proto_do_broken [OF Cons.prems(1) _ q(1)]
  from Cons.prems(2) q(1) r d show ?case by auto
qed simp

text \<open>C32: The application hears of a broken connection exactly once: in any run of reads, closes
  and failed connects between two openings, the flag-0 message is posted once if the run has a
  close or a failed connect and it was not posted before, and else not at all.\<close>

theorem broken_posted_once:
  assumes "reach (\<lambda>p. p = init_proto) (proto_step cv) p" and "\<forall>c \<in> set cs. \<not> renews c"
  shows "\<exists>q evs. proto_run cv cs p = Some (q, evs)
    \<and> broken_posts evs = (if \<not> m_is_broken p \<and> (\<exists>c \<in> set cs. breaks c) then 1 else 0)"
  by (rule broken_run [OF ps.inv_reach [OF assms(1)] assms(2)])

section \<open>Instances\<close>

definition passive_view :: conn_view where
  "passive_view = \<lparr>cv_type = RPC_PASSIVE, cv_monitor = True\<rparr>"

lemma fresh_reach: "reach (\<lambda>p. p = init_proto) (proto_step cv) init_proto"
  by (rule reach_init) simp

lemmas fresh_facts = proto_ok_init(2)

theorem on_read_refines_witness:
  "\<exists>q. on_read passive_view (make_msg 7 [1, 2] @ [5, 0]) init_proto
      = Some (0, q, [Monitor_update, Post_handle_msg 1 7 0 [1, 2], Async_read]) \<and> unread q = [5, 0]"
proof -
  have "split_msgs (make_msg 7 [1, 2] @ [5, 0])
      = ([(\<lparr>hd_len = 2, hd_cmd = 7, hd_res = 0\<rparr>, [1, 2])], [5, 0])"
    using split_msgs_append [of "make_msg 7 [1, 2]" "[5, 0]"] split_msgs_make_msg [of "[1, 2]" 7]
    by (simp add: split_msgs.simps [of "[5, 0]"] head_size_def)
  with on_read_refines [OF fresh_reach, of passive_view "make_msg 7 [1, 2] @ [5, 0]"] show ?thesis
    by (auto simp: fresh_facts monitored_def passive_view_def)
qed

theorem read_cut_irrelevant_witness:
  "posted (proto_run passive_view (map Read [[1, 2], [], [3]]) init_proto)
    = posted (proto_run passive_view (map Read [[1], [2, 3]]) init_proto)
    \<and> proto_run passive_view (map Read [[1, 2], [], [3]]) init_proto \<noteq> None"
  by (rule read_cut_irrelevant [OF fresh_reach]) simp

theorem stream_round_trip_witness:
  "\<exists>q. posted (proto_run passive_view (map Read [take 3 (make_msg 7 [1, 2]), drop 3 (make_msg 7 [1, 2])])
      init_proto) = Some (q, [Monitor_update, Post_handle_msg 1 7 0 [1, 2]]) \<and> unread q = []"
  using stream_round_trip [OF fresh_reach fresh_facts, of "[(7, [1, 2])]"
    "[take 3 (make_msg 7 [1, 2]), drop 3 (make_msg 7 [1, 2])]" passive_view]
  by (simp add: sendable_def msg_events_def monitored_def passive_view_def)

theorem empty_body_waits_witness:
  "\<exists>q r. on_read passive_view (make_msg 7 []) init_proto = Some (0, q, [Async_read])
    \<and> on_read passive_view [9] q = Some (0, r, msg_events passive_view (7, []) @ [Async_read])
    \<and> unread r = [9]"
  by (rule empty_body_waits [OF fresh_reach fresh_facts])

theorem broken_posted_once_witness:
  "\<exists>q evs. proto_run passive_view [Read [1], Closed, Connect True, Closed] init_proto = Some (q, evs)
    \<and> broken_posts evs = 1"
  using broken_posted_once [OF fresh_reach, of "[Read [1], Closed, Connect True, Closed]" passive_view]
  by (simp add: renews_def breaks_def init_proto_def)

end
