(* ===== verification/RpcConnecter.thy ===== *)
theory RpcConnecter
  imports ConnProtocol
begin

text \<open>
  One connection, \<open>rpc_connecter_t\<close> of mylib/rpc/rpc\_connecter.h and .cpp: its write
  queue, its reads, and how it is opened.

  \<open>sync_close_i\<close> and \<open>set_write_state\<close> are declared in the class and defined nowhere
  in the repository: they are the arguments \<open>sc\<close> and \<open>sws\<close>. What a member function asks
  of asio is a \<open>conn_event\<close>: start a write of a buffer, start a read, post a task. The strategy
  of the connection is the protocol object of ConnProtocol, whose events are passed on.
\<close>

section \<open>State\<close>

record conn =
  m_strategy :: proto
  m_use_monitor :: bool
  m_write_queue :: "bytes list"
  m_is_writing :: bool
  m_total_wait_write :: "64 word"
  m_connect_type :: rpc_connection_type
  m_status :: rpc_status
  m_pdata :: "ptr option"

datatype conn_task = Sync_write bytes | Sync_close rpc_close_type

datatype conn_event =
    Start_write bytes
  | Start_read
  | Post_task conn_task
  | Strategy proto_event
  | Log_write_full "64 word" "64 word"
  | Delete_data ptr

datatype conn_exception = Strategy_is_null | Resolve_failed

definition init_conn :: "proto option \<Rightarrow> conn_exception + conn" where
  "init_conn strategy = (case strategy of None \<Rightarrow> Inl Strategy_is_null
     | Some p \<Rightarrow> Inr \<lparr>m_strategy = p, m_use_monitor = False, m_write_queue = [],
         m_is_writing = False, m_total_wait_write = 0, m_connect_type = RPC_PASSIVE,
         m_status = RPC_DISCONNECTED, m_pdata = None\<rparr>)"

definition has_status :: "rpc_status \<Rightarrow> conn \<Rightarrow> bool" where
  "has_status st c \<longleftrightarrow> m_status c = st"

definition conn_view_of :: "conn \<Rightarrow> conn_view" where
  "conn_view_of c = \<lparr>cv_type = m_connect_type c, cv_monitor = m_use_monitor c\<rparr>"

definition set_data :: "ptr option \<Rightarrow> conn \<Rightarrow> conn \<times> conn_event list" where
  "set_data pdata c = (c\<lparr>m_pdata := pdata\<rparr>,
     (case m_pdata c of None \<Rightarrow> [] | Some old \<Rightarrow> [Delete_data old]))"

text \<open>The destructor closes the connection and deletes the strategy and the data.\<close>

definition destroy_conn :: "(rpc_close_type \<Rightarrow> conn \<Rightarrow> conn \<times> conn_event list) \<Rightarrow> conn
    \<Rightarrow> conn_event list" where
  "destroy_conn sc c = (let (c, evs) = sc RPC_CLOSE c
     in evs @ (case m_pdata c of None \<Rightarrow> [] | Some old \<Rightarrow> [Delete_data old]))"

section \<open>Reading\<close>

definition async_read :: "conn_event list" where
  "async_read = [Start_read]"

text \<open>The calls that the strategy makes back on its connection.\<close>

definition strategy_event :: "proto_event \<Rightarrow> conn_event list" where
  "strategy_event e = (if e = Async_read then async_read else [Strategy e])"

definition strategy_events :: "proto_event list \<Rightarrow> conn_event list" where
  "strategy_events evs = concat (map strategy_event evs)"

definition remote_open :: "bool \<Rightarrow> conn \<Rightarrow> conn \<times> conn_event list" where
  "remote_open use_monitor c =
     (let c = c\<lparr>m_use_monitor := use_monitor\<rparr>;
          c = c\<lparr>m_status := RPC_CONNECTED\<rparr>;
          (_, p, evs) = on_remote_open (conn_view_of c) (m_strategy c)
      in (c\<lparr>m_strategy := p\<rparr>, strategy_events evs))"

definition close_conn :: "rpc_close_type \<Rightarrow> conn_event list" where
  "close_conn type = [Post_task (Sync_close type)]"

definition read_complete_i :: "(rpc_close_type \<Rightarrow> conn \<Rightarrow> conn \<times> conn_event list) \<Rightarrow> bool \<Rightarrow> bytes
    \<Rightarrow> conn \<Rightarrow> (conn \<times> conn_event list) option" where
  "read_complete_i sc err data c =
     (if err then Some (if \<not> has_status RPC_DISCONNECTED c then sc RPC_CLOSE c else (c, []))
      else do {
        (ret, p, evs) \<leftarrow> on_read (conn_view_of c) data (m_strategy c);
        Some (c\<lparr>m_strategy := p\<rparr>,
              strategy_events evs @ (if ret \<noteq> 0 then close_conn RPC_SHUTDOWN else []))
      })"

section \<open>Writing\<close>

text \<open>Both overloads of \<open>async_write\<close>.\<close>

definition async_write :: "bytes \<Rightarrow> conn_event list" where
  "async_write data = [Post_task (Sync_write data)]"

definition start_sending_buffer_i :: "(bool \<Rightarrow> conn \<Rightarrow> conn) \<Rightarrow> conn \<Rightarrow> conn \<times> conn_event list" where
  "start_sending_buffer_i sws c = (case m_write_queue c of
      [] \<Rightarrow> (c, [])
    | buf # _ \<Rightarrow> (sws True c, [Start_write buf]))"

definition sync_write_i :: "(bool \<Rightarrow> conn \<Rightarrow> conn) \<Rightarrow> bytes \<Rightarrow> conn \<Rightarrow> conn \<times> conn_event list" where
  "sync_write_i sws data c =
     (let c = c\<lparr>m_total_wait_write := m_total_wait_write c + of_nat (length data)\<rparr>;
          log = (if m_total_wait_write c \<ge> 1024 * 1024 * 10
                 then [Log_write_full (of_nat (length data)) (m_total_wait_write c)] else []);
          c = c\<lparr>m_write_queue := m_write_queue c @ [data]\<rparr>;
          (c, evs) = (if \<not> m_is_writing c then start_sending_buffer_i sws c else (c, []))
      in (c, log @ evs))"

text \<open>\<open>None\<close>: \<open>pop_front\<close> of an empty queue.\<close>

definition write_complete_i :: "(bool \<Rightarrow> conn \<Rightarrow> conn) \<Rightarrow> (rpc_close_type \<Rightarrow> conn \<Rightarrow> conn \<times> conn_event list)
    \<Rightarrow> bool \<Rightarrow> nat \<Rightarrow> conn \<Rightarrow> (conn \<times> conn_event list) option" where
  "write_complete_i sws sc err n c =
     (let c = sws False c;
          c = c\<lparr>m_total_wait_write := m_total_wait_write c - of_nat n\<rparr>
      in case m_write_queue c of
           [] \<Rightarrow> None
         | _ # rest \<Rightarrow>
             (let c = c\<lparr>m_write_queue := rest\<rparr>
              in if err
                 then Some (if \<not> has_status RPC_DISCONNECTED c then sc RPC_CLOSE c else (c, []))
                 else Some (start_sending_buffer_i sws c)))"

section \<open>Connecting\<close>

text \<open>The loop over the resolved end points: \<open>fails ep\<close> is the error of connecting to one;
  the result is the error left and the end points tried.\<close>

fun connect_loop :: "('ep \<Rightarrow> bool) \<Rightarrow> bool \<Rightarrow> 'ep list \<Rightarrow> bool \<times> 'ep list" where
  "connect_loop fails err [] = (err, [])"
| "connect_loop fails err (ep # eps) =
     (if err then (let (err, tried) = connect_loop fails (fails ep) eps in (err, ep # tried))
      else (err, []))"

text \<open>\<open>resolve\<close> is the resolver's answer for the address and port, \<open>None\<close> when it
  throws.\<close>

definition sync_connect :: "'ep list option \<Rightarrow> ('ep \<Rightarrow> bool) \<Rightarrow> conn
    \<Rightarrow> conn_exception + int \<times> conn \<times> conn_event list" where
  "sync_connect resolved fails c = (case resolved of
      None \<Rightarrow> Inl Resolve_failed
    | Some eps \<Rightarrow>
        (let (err, _) = connect_loop fails True eps in
         if err then Inr (-1, c\<lparr>m_status := RPC_DISCONNECTED\<rparr>, [])
         else Inr (0, c\<lparr>m_status := RPC_CONNECTED, m_connect_type := RPC_ACTIVE\<rparr>, async_read)))"

section \<open>A connection and its io service\<close>

text \<open>
  The connection with what it has outstanding in asio: the tasks posted for it, in order (one
  thread runs the io service), the writes and reads that have been started, what the socket has
  taken, and what the strategy has asked for.
\<close>

record world =
  w_conn :: conn
  w_tasks :: "conn_task list"
  w_writes :: "bytes list"
  w_reads :: nat
  w_wire :: bytes
  w_posted :: "proto_event list"

fun absorb :: "conn_event list \<Rightarrow> world \<Rightarrow> world" where
  "absorb [] w = w"
| "absorb (e # es) w = absorb es (case e of
      Start_write buf \<Rightarrow> w\<lparr>w_writes := w_writes w @ [buf]\<rparr>
    | Start_read \<Rightarrow> w\<lparr>w_reads := Suc (w_reads w)\<rparr>
    | Post_task t \<Rightarrow> w\<lparr>w_tasks := w_tasks w @ [t]\<rparr>
    | Strategy ev \<Rightarrow> w\<lparr>w_posted := w_posted w @ [ev]\<rparr>
    | Log_write_full _ _ \<Rightarrow> w
    | Delete_data _ \<Rightarrow> w)"

text \<open>
  What can happen next: a client calls \<open>async_write\<close> or \<open>close\<close>, the io service runs the
  oldest task, the oldest write completes after \<open>n\<close> bytes (all of them unless it failed,
  as asio's \<open>async_write\<close> promises), or a read completes. \<open>None\<close>: not possible in this
  state, or undefined behaviour.
\<close>

datatype happening =
    Client_write bytes
  | Client_close rpc_close_type
  | Run_task
  | Written bool nat
  | Received bool bytes

definition happen :: "(bool \<Rightarrow> conn \<Rightarrow> conn) \<Rightarrow> (rpc_close_type \<Rightarrow> conn \<Rightarrow> conn \<times> conn_event list)
    \<Rightarrow> happening \<Rightarrow> world \<Rightarrow> world option" where
  "happen sws sc h w = (case h of
      Client_write data \<Rightarrow> Some (absorb (async_write data) w)
    | Client_close type \<Rightarrow> Some (absorb (close_conn type) w)
    | Run_task \<Rightarrow> (case w_tasks w of
          [] \<Rightarrow> None
        | t # ts \<Rightarrow>
            (let (c, evs) = (case t of Sync_write data \<Rightarrow> sync_write_i sws data (w_conn w)
                                     | Sync_close type \<Rightarrow> sc type (w_conn w))
             in Some (absorb evs (w\<lparr>w_tasks := ts, w_conn := c\<rparr>))))
    | Written err n \<Rightarrow> (case w_writes w of
          [] \<Rightarrow> None
        | buf # bufs \<Rightarrow>
            if (if err then n \<le> length buf else n = length buf) then do {
              (c, evs) \<leftarrow> write_complete_i sws sc err n (w_conn w);
              Some (absorb evs (w\<lparr>w_writes := bufs, w_wire := w_wire w @ take n buf, w_conn := c\<rparr>))
            } else None)
    | Received err data \<Rightarrow>
        if w_reads w = 0 then None
        else do {
          (c, evs) \<leftarrow> read_complete_i sc err data (w_conn w);
          Some (absorb evs (w\<lparr>w_reads := w_reads w - 1, w_conn := c\<rparr>))
        })"

fun happens :: "(bool \<Rightarrow> conn \<Rightarrow> conn) \<Rightarrow> (rpc_close_type \<Rightarrow> conn \<Rightarrow> conn \<times> conn_event list)
    \<Rightarrow> happening list \<Rightarrow> world \<Rightarrow> world option" where
  "happens sws sc [] w = Some w"
| "happens sws sc (h # hs) w = do { w \<leftarrow> happen sws sc h w; happens sws sc hs w }"

text \<open>What the strategy has asked for since \<open>w\<close>.\<close>

definition new_events :: "world \<Rightarrow> world \<Rightarrow> proto_event list" where
  "new_events w w' = drop (length (w_posted w)) (w_posted w')"

text \<open>A connection that the acceptor has handed over: constructed with the strategy \<open>p\<close>, then
  \<open>remote_open\<close>.\<close>

definition accepted_world :: "bool \<Rightarrow> proto \<Rightarrow> world" where
  "accepted_world use_monitor p =
     (let (c, evs) = remote_open use_monitor (projr (init_conn (Some p)))
      in absorb evs \<lparr>w_conn = c, w_tasks = [], w_writes = [], w_reads = 0, w_wire = [], w_posted = []\<rparr>)"

section \<open>The write queue\<close>

text \<open>What \<open>set_write_state\<close> is for, by its name and argument.\<close>

definition sets_flag :: "(bool \<Rightarrow> conn \<Rightarrow> conn) \<Rightarrow> bool" where
  "sets_flag sws \<longleftrightarrow> (\<forall>b c. sws b c = c\<lparr>m_is_writing := b\<rparr>)"

definition bytes_in :: "bytes list \<Rightarrow> nat" where
  "bytes_in bufs = sum_list (map length bufs)"

definition task_data :: "conn_task \<Rightarrow> bytes" where
  "task_data t = (case t of Sync_write data \<Rightarrow> data | Sync_close _ \<Rightarrow> [])"

text \<open>The state of the writing side: exactly the front of the queue is being written, the flag
  says so, and the total counts the bytes queued.\<close>

definition writing_ok :: "world \<Rightarrow> bool" where
  "writing_ok w \<longleftrightarrow> (let c = w_conn w in
     (m_is_writing c \<longleftrightarrow> m_write_queue c \<noteq> [])
     \<and> w_writes w = (if m_is_writing c then [hd (m_write_queue c)] else [])
     \<and> m_total_wait_write c = of_nat (bytes_in (m_write_queue c)))
     \<and> (\<forall>t \<in> set (w_tasks w). \<exists>data. t = Sync_write data)"

text \<open>Happenings of a connection that nobody closes and on which no operation fails.\<close>

definition healthy :: "happening \<Rightarrow> bool" where
  "healthy h \<longleftrightarrow> (case h of Client_write _ \<Rightarrow> True | Run_task \<Rightarrow> True | Client_close _ \<Rightarrow> False
     | Written err _ \<Rightarrow> \<not> err | Received err _ \<Rightarrow> \<not> err)"

text \<open>Everything handed to \<open>async_write\<close>: on the wire, queued, or posted.\<close>

definition accepted_bytes :: "world \<Rightarrow> bytes" where
  "accepted_bytes w = w_wire w @ concat (m_write_queue (w_conn w)) @ concat (map task_data (w_tasks w))"

definition client_data :: "happening \<Rightarrow> bytes" where
  "client_data h = (case h of Client_write data \<Rightarrow> data | _ \<Rightarrow> [])"

lemma bytes_in_simps [simp]: "bytes_in [] = 0" "bytes_in (b # bs) = length b + bytes_in bs"
  "bytes_in (bs @ bs') = bytes_in bs + bytes_in bs'"
  by (simp_all add: bytes_in_def)

lemma strategy_events_simps [simp]:
  "strategy_events [] = []" "strategy_events (xs @ ys) = strategy_events xs @ strategy_events ys"
  "strategy_events (e # es) = strategy_event e @ strategy_events es"
  by (simp_all add: strategy_events_def)

lemma absorb_append [simp]: "absorb (es @ es') w = absorb es' (absorb es w)"
  by (induction es arbitrary: w) simp_all

lemma absorb_strategy:
  "absorb (strategy_events evs) w = w\<lparr>w_reads := w_reads w + length (filter (\<lambda>e. e = Async_read) evs),
     w_posted := w_posted w @ filter (\<lambda>e. e \<noteq> Async_read) evs\<rparr>"
  by (induction evs arbitrary: w) (auto simp: strategy_event_def async_read_def)

text \<open>The calls of the strategy among what an operation asks for.\<close>

definition strategy_calls :: "conn_event list \<Rightarrow> proto_event list" where
  "strategy_calls evs = concat (map (\<lambda>e. case e of Strategy ev \<Rightarrow> [ev] | _ \<Rightarrow> []) evs)"

lemma strategy_calls_simps [simp]:
  "strategy_calls [] = []" "strategy_calls (xs @ ys) = strategy_calls xs @ strategy_calls ys"
  "strategy_calls (e # es) = (case e of Strategy ev \<Rightarrow> [ev] | _ \<Rightarrow> []) @ strategy_calls es"
  by (simp_all add: strategy_calls_def)

lemma strategy_calls_in: "ev \<in> set (strategy_calls evs) \<longleftrightarrow> Strategy ev \<in> set evs"
  by (induction evs) (auto split: conn_event.splits)

lemma strategy_calls_events: "strategy_calls (strategy_events evs) = filter (\<lambda>e. e \<noteq> Async_read) evs"
  by (induction evs) (auto simp: strategy_event_def async_read_def)

text \<open>
  \<open>sync_close_i\<close> is declared in the class and defined nowhere. \<open>reports_close sc\<close>: the one thing that it does with its strategy, if
  anything, is to call \<open>on_closed\<close>, the function that the strategy interface has for this.
\<close>

definition reports_close :: "(rpc_close_type \<Rightarrow> conn \<Rightarrow> conn \<times> conn_event list) \<Rightarrow> bool" where
  "reports_close sc \<longleftrightarrow> (\<forall>type c. let (c', evs) = sc type c in
     (m_strategy c', strategy_calls evs) = (m_strategy c, [])
     \<or> (m_strategy c', strategy_calls evs) = on_closed (conn_view_of c) (m_strategy c))"

lemma reports_closeD:
  assumes "reports_close sc" and "sc type c = (c', evs)"
  shows "(m_strategy c', strategy_calls evs) = (m_strategy c, [])
    \<or> (m_strategy c', strategy_calls evs) = on_closed (conn_view_of c) (m_strategy c)"
  using assms(1) [unfolded reports_close_def, THEN spec, of type, THEN spec, of c] assms(2) by simp

lemma absorb_posted: "w_posted (absorb evs w) = w_posted w @ strategy_calls evs"
  by (induction evs w rule: absorb.induct) (simp_all split: conn_event.split)

lemma absorb_conn: "w_conn (absorb evs w) = w_conn w"
  by (induction evs w rule: absorb.induct) (simp_all split: conn_event.split)

lemma sync_write_ok:
  assumes "sets_flag sws" and "writing_ok w" and "w_tasks w = Sync_write data # ts"
    and "sync_write_i sws data (w_conn w) = (c, evs)"
  defines "w' \<equiv> absorb evs (w\<lparr>w_tasks := ts, w_conn := c\<rparr>)"
  shows "writing_ok w'" "accepted_bytes w' = accepted_bytes w" "w_reads w' = w_reads w"
    "m_strategy (w_conn w') = m_strategy (w_conn w)"
  using assms
  by (auto simp: sync_write_i_def start_sending_buffer_i_def writing_ok_def sets_flag_def Let_def
      accepted_bytes_def task_data_def split: if_splits list.splits)

lemma write_complete_returns:
  assumes "sets_flag sws" and "writing_ok w" and "w_writes w = buf # bufs"
  obtains c evs where "write_complete_i sws sc False n (w_conn w) = Some (c, evs)"
proof -
  from assms obtain rest where "m_write_queue (w_conn w) = buf # rest"
    by (cases "m_write_queue (w_conn w)") (auto simp: writing_ok_def Let_def split: if_splits)
  with assms(1) that show thesis
    by (cases "start_sending_buffer_i sws ((w_conn w)\<lparr>m_is_writing := False,
      m_total_wait_write := m_total_wait_write (w_conn w) - of_nat n, m_write_queue := rest\<rparr>)")
      (simp add: write_complete_i_def sets_flag_def)
qed

lemma write_complete_ok:
  assumes "sets_flag sws" and "writing_ok w" and "w_writes w = buf # bufs"
    and "write_complete_i sws sc False (length buf) (w_conn w) = Some (c, evs)"
  defines "w' \<equiv> absorb evs (w\<lparr>w_writes := bufs, w_wire := w_wire w @ take (length buf) buf, w_conn := c\<rparr>)"
  shows "writing_ok w'" "accepted_bytes w' = accepted_bytes w" "w_reads w' = w_reads w"
    "w_wire w' = w_wire w @ buf" "w_tasks w' = w_tasks w"
    "m_write_queue (w_conn w') = tl (m_write_queue (w_conn w))"
    "m_strategy (w_conn w') = m_strategy (w_conn w)"
  using assms
  by (auto simp: write_complete_i_def start_sending_buffer_i_def writing_ok_def sets_flag_def Let_def
      accepted_bytes_def split: if_splits list.splits)

definition conn_ok :: "world \<Rightarrow> bool" where
  "conn_ok w \<longleftrightarrow> writing_ok w \<and> proto_ok (m_strategy (w_conn w))"

lemma events_of_reads [simp]: "filter (\<lambda>e. e = Async_read) (events_of cv ms) = []"
  by (induction ms) auto

lemma received_ok:
  assumes "conn_ok w" and "0 < w_reads w"
  shows "\<exists>w'. happen sws sc (Received False data) w = Some w' \<and> conn_ok w'
    \<and> accepted_bytes w' = accepted_bytes w \<and> w_reads w' = w_reads w
    \<and> w_posted w' = w_posted w @ events_of (conn_view_of (w_conn w))
         (fst (split_msgs (unread (m_strategy (w_conn w)) @ data)))
    \<and> unread (m_strategy (w_conn w')) = snd (split_msgs (unread (m_strategy (w_conn w)) @ data))"
proof -
  have "proto_ok (m_strategy (w_conn w))" using assms(1) by (simp add: conn_ok_def)
  from on_read_splits [OF this, of "conn_view_of (w_conn w)" data] assms show ?thesis
    by (auto simp: happen_def read_complete_i_def absorb_strategy strategy_event_def async_read_def
        conn_ok_def writing_ok_def accepted_bytes_def Let_def)
qed

lemma happen_healthy:
  assumes "sets_flag sws" and "conn_ok w" and "healthy h" and "happen sws sc h w = Some w'"
  shows "conn_ok w' \<and> accepted_bytes w' = accepted_bytes w @ client_data h \<and> w_reads w' = w_reads w"
proof (cases h)
  case (Client_write data)
  with assms show ?thesis
    by (auto simp: happen_def async_write_def conn_ok_def writing_ok_def accepted_bytes_def client_data_def
        task_data_def Let_def)
next
  case Run_task
  with assms(2,4) obtain data ts where t: "w_tasks w = Sync_write data # ts"
    by (auto simp: happen_def conn_ok_def writing_ok_def split: list.splits)
  obtain c evs where "sync_write_i sws data (w_conn w) = (c, evs)" by fastforce
  with sync_write_ok [OF assms(1) _ t this] Run_task t assms(2,4) show ?thesis
    by (simp add: happen_def client_data_def conn_ok_def)
next
  case (Written err n)
  with assms(3,4) obtain buf bufs where b: "w_writes w = buf # bufs" "\<not> err" "n = length buf"
    by (auto simp: happen_def healthy_def split: list.splits if_splits)
  have ok: "writing_ok w" using assms(2) by (simp add: conn_ok_def)
  obtain c evs where "write_complete_i sws sc False (length buf) (w_conn w) = Some (c, evs)"
    by (rule write_complete_returns [OF assms(1) ok b(1)])
  with write_complete_ok [OF assms(1) ok b(1) this] Written b assms(2,4) show ?thesis
    by (simp add: happen_def client_data_def conn_ok_def)
next
  case (Received err data)
  with assms(3,4) have "\<not> err" "0 < w_reads w"
    by (auto simp: happen_def healthy_def split: if_splits)
  with received_ok [OF assms(2), of sws sc data] Received assms(4) show ?thesis
    by (auto simp: client_data_def)
qed (use assms(3) in \<open>simp add: healthy_def\<close>)

inductive healthy_step :: "(bool \<Rightarrow> conn \<Rightarrow> conn) \<Rightarrow> (rpc_close_type \<Rightarrow> conn \<Rightarrow> conn \<times> conn_event list)
    \<Rightarrow> world \<Rightarrow> world \<Rightarrow> bool" for sws sc where
  healthy_step: "healthy h \<Longrightarrow> happen sws sc h w = Some w' \<Longrightarrow> healthy_step sws sc w w'"

inductive_cases healthy_stepE: "healthy_step sws sc w w'"

lemma accepted_world_ok:
  assumes "proto_ok p"
  shows "conn_ok (accepted_world um p)" "accepted_bytes (accepted_world um p) = []"
    "w_reads (accepted_world um p) = 1" "w_wire (accepted_world um p) = []"
    "m_strategy (w_conn (accepted_world um p)) = reset p"
  using proto_ok_reset(1) [OF assms]
  by (simp_all add: accepted_world_def remote_open_def init_conn_def on_remote_open_def absorb_strategy
      strategy_event_def async_read_def conn_ok_def writing_ok_def accepted_bytes_def)

interpretation cn: inductive_invariant "\<lambda>w. \<exists>um. w = accepted_world um init_proto"
  "healthy_step sws sc" "\<lambda>w. sets_flag sws \<longrightarrow> conn_ok w \<and> w_reads w = 1" for sws sc
proof
  show "sets_flag sws \<longrightarrow> conn_ok w' \<and> w_reads w' = 1"
    if step: "healthy_step sws sc w w'" and ok: "sets_flag sws \<longrightarrow> conn_ok w \<and> w_reads w = 1" for w w'
    using step by (rule healthy_stepE) (use happen_healthy ok in auto)
qed (auto simp: accepted_world_ok proto_ok_init)

text \<open>C19: In every state of an accepted connection that is not closed and on which nothing
  fails: one read is outstanding; at most one write is outstanding, of the front of the queue, which
  stays in the queue until it completes; the writing flag says whether there is one; a queue that
  is not empty is being written; and the total is the number of bytes queued.\<close>

theorem write_discipline:
  assumes "sets_flag sws" and "reach (\<lambda>w. \<exists>um. w = accepted_world um init_proto) (healthy_step sws sc) w"
  shows "w_reads w = 1 \<and> w_writes w = take 1 (m_write_queue (w_conn w))
    \<and> (m_is_writing (w_conn w) \<longleftrightarrow> m_write_queue (w_conn w) \<noteq> [])
    \<and> m_total_wait_write (w_conn w) = of_nat (bytes_in (m_write_queue (w_conn w)))"
  using cn.inv_reach [OF assms(2)] assms(1)
  by (cases "m_write_queue (w_conn w)") (auto simp: conn_ok_def writing_ok_def Let_def)

lemma happens_healthy:
  assumes "sets_flag sws" and "list_all healthy hs" and "conn_ok w" and "happens sws sc hs w = Some w'"
  shows "conn_ok w' \<and> accepted_bytes w' = accepted_bytes w @ concat (map client_data hs)"
  using assms(2-4)
proof (induction hs arbitrary: w)
  case (Cons h hs)
  from Cons.prems obtain v where v: "happen sws sc h w = Some v" "happens sws sc hs v = Some w'"
    by (auto simp: bind_eq_Some_conv)
  with happen_healthy [OF assms(1) Cons.prems(2) _ v(1)] Cons.IH [of v] Cons.prems(1) show ?case by simp
qed simp

lemma wire_complete:
  assumes "sets_flag sws" and "list_all healthy hs"
    and "happens sws sc hs (accepted_world um init_proto) = Some w"
  shows "w_wire w @ concat (m_write_queue (w_conn w)) @ concat (map task_data (w_tasks w))
      = concat (map client_data hs)"
    and "w_tasks w = [] \<Longrightarrow> w_writes w = [] \<Longrightarrow> w_wire w = concat (map client_data hs)"
proof -
  from happens_healthy [OF assms(1,2) _ assms(3)]
  have ok: "conn_ok w" "accepted_bytes w = concat (map client_data hs)"
    by (simp_all add: accepted_world_ok proto_ok_init)
  moreover from ok(1) have "m_write_queue (w_conn w) = []" if "w_writes w = []"
    using that by (auto simp: conn_ok_def writing_ok_def Let_def split: if_splits)
  ultimately show "w_wire w @ concat (m_write_queue (w_conn w)) @ concat (map task_data (w_tasks w))
      = concat (map client_data hs)"
    "w_tasks w = [] \<Longrightarrow> w_writes w = [] \<Longrightarrow> w_wire w = concat (map client_data hs)"
    by (auto simp: accepted_bytes_def)
qed

text \<open>C16: On a connection that nobody closes and on which no read and no write fails, the bytes of the \<open>async_write\<close>
  calls reach the wire in the order of the calls, each call's bytes in one piece and once: what is on the wire, queued
  and posted together is at any time all that was handed over, and when nothing is outstanding, it is all on the wire.\<close>

theorem writes_fifo:
  assumes "sets_flag sws" and "list_all healthy hs"
    and "happens sws sc hs (accepted_world um init_proto) = Some w"
  shows "w_wire w @ concat (m_write_queue (w_conn w)) @ concat (map task_data (w_tasks w))
      = concat (map client_data hs)
    \<and> (w_tasks w = [] \<and> w_writes w = [] \<longrightarrow> w_wire w = concat (map client_data hs))"
  using wire_complete [OF assms] by simp

lemma happens_append:
  "happens sws sc (xs @ ys) u = Option.bind (happens sws sc xs u) (happens sws sc ys)"
  by (induction xs arbitrary: u) (auto split: Option.bind_splits)

lemma drain_tasks:
  assumes "sets_flag sws" and "conn_ok w"
  shows "\<exists>w'. happens sws sc (replicate (length (w_tasks w)) Run_task) w = Some w' \<and> conn_ok w'
    \<and> w_tasks w' = [] \<and> accepted_bytes w' = accepted_bytes w
    \<and> m_write_queue (w_conn w') = m_write_queue (w_conn w) @ map task_data (w_tasks w)"
  using assms(2)
proof (induction "w_tasks w" arbitrary: w)
  case Nil
  then show ?case by simp
next
  case (Cons t ts)
  then obtain data where t: "t = Sync_write data"
    by (auto simp: conn_ok_def writing_ok_def simp flip: Cons.hyps(2))
  obtain c evs where sw: "sync_write_i sws data (w_conn w) = (c, evs)" by fastforce
  let ?v = "absorb evs (w\<lparr>w_tasks := ts, w_conn := c\<rparr>)"
  have run: "happen sws sc Run_task w = Some ?v" using sw t by (simp add: happen_def flip: Cons.hyps(2))
  have more: "w_tasks ?v = ts" "m_write_queue (w_conn ?v) = m_write_queue (w_conn w) @ [data]"
    using sw assms(1)
    by (auto simp: sync_write_i_def start_sending_buffer_i_def sets_flag_def Let_def
        split: if_splits list.splits)
  have ok: "conn_ok ?v" "accepted_bytes ?v = accepted_bytes w"
    using happen_healthy [OF assms(1) Cons.prems _ run] by (simp_all add: healthy_def client_data_def)
  from Cons.hyps(1) [OF more(1) [symmetric] ok(1)] run more ok t show ?case
    by (simp add: task_data_def flip: Cons.hyps(2))
qed

lemma drain_writes:
  assumes "sets_flag sws" and "conn_ok w" and "w_tasks w = []"
  shows "\<exists>w'. happens sws sc (map (\<lambda>b. Written False (length b)) (m_write_queue (w_conn w))) w = Some w'
    \<and> conn_ok w' \<and> w_tasks w' = [] \<and> m_write_queue (w_conn w') = [] \<and> accepted_bytes w' = accepted_bytes w"
  using assms(2,3)
proof (induction "m_write_queue (w_conn w)" arbitrary: w)
  case Nil
  then show ?case by simp
next
  case (Cons b bs)
  have ok: "writing_ok w" using Cons.prems(1) by (simp add: conn_ok_def)
  have b: "w_writes w = [b]"
    using ok by (auto simp: writing_ok_def Let_def simp flip: Cons.hyps(2))
  obtain c evs where wc: "write_complete_i sws sc False (length b) (w_conn w) = Some (c, evs)"
    by (rule write_complete_returns [OF assms(1) ok b])
  let ?v = "absorb evs (w\<lparr>w_writes := [], w_wire := w_wire w @ take (length b) b, w_conn := c\<rparr>)"
  have run: "happen sws sc (Written False (length b)) w = Some ?v" using b wc by (simp add: happen_def)
  note step = write_complete_ok [OF assms(1) ok b wc]
  have v: "conn_ok ?v" "accepted_bytes ?v = accepted_bytes w" "w_tasks ?v = []"
    "bs = m_write_queue (w_conn ?v)"
    using step Cons.prems by (simp_all add: conn_ok_def flip: Cons.hyps(2))
  from Cons.hyps(1) [OF v(4,1,3)] run v show ?case by (simp flip: Cons.hyps(2))
qed

text \<open>No write is stuck: from every such state, running the posted tasks and completing the
  writes of the queue one after the other, without any further call, puts everything that was
  handed over on the wire and leaves the queue empty, not writing, with the total at 0.\<close>

theorem queue_drains:
  assumes "sets_flag sws" and "reach (\<lambda>w. \<exists>um. w = accepted_world um init_proto) (healthy_step sws sc) w"
  shows "\<exists>w'. happens sws sc (replicate (length (w_tasks w)) Run_task
        @ map (\<lambda>b. Written False (length b)) (m_write_queue (w_conn w) @ map task_data (w_tasks w))) w = Some w'
    \<and> w_wire w' = accepted_bytes w \<and> m_write_queue (w_conn w') = []
    \<and> \<not> m_is_writing (w_conn w') \<and> m_total_wait_write (w_conn w') = 0"
proof -
  have ok: "conn_ok w" using cn.inv_reach [OF assms(2)] assms(1) by blast
  obtain v where v: "happens sws sc (replicate (length (w_tasks w)) Run_task) w = Some v" "conn_ok v"
    "w_tasks v = []" "accepted_bytes v = accepted_bytes w"
    "m_write_queue (w_conn v) = m_write_queue (w_conn w) @ map task_data (w_tasks w)"
    using drain_tasks [OF assms(1) ok, of sc] by blast
  obtain u where "happens sws sc (map (\<lambda>b. Written False (length b)) (m_write_queue (w_conn v))) v = Some u"
    "conn_ok u" "w_tasks u = []" "m_write_queue (w_conn u) = []" "accepted_bytes u = accepted_bytes v"
    using drain_writes [OF assms(1) v(2,3), of sc] by blast
  then show ?thesis
    using v by (auto simp: happens_append conn_ok_def writing_ok_def accepted_bytes_def Let_def)
qed

text \<open>A write that fails after \<open>n\<close> of its bytes is dropped whole, but only \<open>n\<close> bytes are
  taken off the total: on a connection that is already disconnected nothing else happens, the next
  buffer is not started, and the total stays above what is queued by the bytes not sent; on any
  other the connection is closed in that state.\<close>

theorem failed_write_leaves_total:
  assumes "sets_flag sws" and "m_write_queue c = buf # rest"
    and "m_total_wait_write c = of_nat (bytes_in (m_write_queue c))" and "n \<le> length buf"
  shows "\<exists>c'. write_complete_i sws sc True n c
      = Some (if m_status c = RPC_DISCONNECTED then (c', []) else sc RPC_CLOSE c')
    \<and> m_write_queue c' = rest \<and> \<not> m_is_writing c'
    \<and> m_total_wait_write c' = of_nat (bytes_in rest + (length buf - n))"
  using assms
  by (auto simp: write_complete_i_def sets_flag_def has_status_def Let_def of_nat_diff algebra_simps)

section \<open>Connecting\<close>

lemma connect_loop_tries:
  "connect_loop fails err eps = (if err then
     (list_all fails eps, takeWhile fails eps @ take 1 (dropWhile fails eps)) else (False, []))"
  by (induction fails err eps rule: connect_loop.induct) (auto simp: Let_def)

text \<open>\<open>sync_connect\<close> tries the end points in the resolver's order and stops at the first that
  accepts; it returns 0, with the connection active, connected and reading, exactly if there is one,
  and else -1, disconnected, for an empty list too.\<close>

theorem sync_connect_outcome:
  assumes "resolved = Some eps"
  shows "(if \<exists>ep \<in> set eps. \<not> fails ep
       then \<exists>c'. sync_connect resolved fails c = Inr (0, c', [Start_read])
         \<and> m_status c' = RPC_CONNECTED \<and> m_connect_type c' = RPC_ACTIVE
       else \<exists>c'. sync_connect resolved fails c = Inr (-1, c', []) \<and> m_status c' = RPC_DISCONNECTED
         \<and> m_connect_type c' = m_connect_type c)
    \<and> connect_loop fails True eps
        = (list_all fails eps, takeWhile fails eps @ take 1 (dropWhile fails eps))"
  using assms
  by (auto simp: sync_connect_def connect_loop_tries list_all_iff async_read_def)

text \<open>\<open>sync_connect\<close> does not tell the strategy, so it is not reset: the bytes of a message that
  was cut off by the loss of an earlier connection are still there, and the first bytes of the new
  connection are read behind them; and once a loss has been reported, no later one is.\<close>

theorem reconnect_keeps_stale_state:
  assumes "proto_ok (m_strategy c)" and "sync_connect (Some eps) fails c = Inr (0, c', evs)"
  shows "(\<exists>c'' evs'. read_complete_i sc False data c' = Some (c'', evs')
      \<and> unread (m_strategy c'') = snd (split_msgs (unread (m_strategy c) @ data)))
    \<and> (m_is_broken (m_strategy c) \<longrightarrow> broken_posts (snd (on_closed cv (m_strategy c'))) = 0)"
proof -
  have same: "m_strategy c' = m_strategy c"
    using assms(2) by (auto simp: sync_connect_def split: prod.splits if_splits)
  from on_read_splits [OF assms(1), of "conn_view_of c'" data] same show ?thesis
    by (auto simp: read_complete_i_def on_closed_def post_broken_msg_i_def)
qed

section \<open>Instances\<close>

definition put_flag :: "bool \<Rightarrow> conn \<Rightarrow> conn" where
  "put_flag b c = c\<lparr>m_is_writing := b\<rparr>"

definition drop_conn :: "rpc_close_type \<Rightarrow> conn \<Rightarrow> conn \<times> conn_event list" where
  "drop_conn type c = (c\<lparr>m_status := RPC_DISCONNECTED\<rparr>, [])"

lemma put_flag_sets: "sets_flag put_flag"
  by (simp add: sets_flag_def put_flag_def)

text \<open>Two writes are called, and the first runs and has begun.\<close>

definition busy_world :: world where
  "busy_world = the (happens put_flag drop_conn [Client_write [1, 2], Client_write [3], Run_task]
     (accepted_world True init_proto))"

text \<open>A \<open>sync_close_i\<close> as its callers expect it.\<close>

definition tell_close :: "rpc_close_type \<Rightarrow> conn \<Rightarrow> conn \<times> conn_event list" where
  "tell_close type c = (if has_status RPC_DISCONNECTED c then (c, [])
     else let (p, evs) = on_closed (conn_view_of c) (m_strategy c)
          in (c\<lparr>m_status := RPC_DISCONNECTED, m_strategy := p\<rparr>, strategy_events evs))"

lemmas world_defs = accepted_world_def init_conn_def remote_open_def on_remote_open_def
  happen_def async_write_def strategy_event_def async_read_def monitored_def conn_view_of_def
  sync_write_i_def start_sending_buffer_i_def put_flag_def write_complete_i_def

lemma busy_steps:
  "happens put_flag drop_conn [Client_write [1, 2], Client_write [3], Run_task]
    (accepted_world True init_proto) = Some busy_world"
  by (simp add: busy_world_def world_defs)

lemma happens_reach:
  assumes "happens sws sc hs w = Some w'" and "list_all healthy hs"
    and "reach (\<lambda>w. \<exists>um. w = accepted_world um init_proto) (healthy_step sws sc) w"
  shows "reach (\<lambda>w. \<exists>um. w = accepted_world um init_proto) (healthy_step sws sc) w'"
  using assms
proof (induction hs arbitrary: w)
  case (Cons h hs)
  then obtain v where "happen sws sc h w = Some v" "happens sws sc hs v = Some w'"
    by (auto simp: bind_eq_Some_conv)
  moreover have "healthy_step sws sc w v"
    using Cons.prems(2) calculation(1) by (auto intro: healthy_step)
  ultimately show ?case using Cons.IH [of v] Cons.prems(2) reach_step [OF Cons.prems(3)] by simp
qed simp

lemma busy_world_reach:
  "reach (\<lambda>w. \<exists>um. w = accepted_world um init_proto) (healthy_step put_flag drop_conn) busy_world"
  by (rule happens_reach [OF busy_steps]) (auto simp: healthy_def intro: reach_init)

lemma busy_parts:
  "m_write_queue (w_conn busy_world) = [[1, 2]]" "w_tasks busy_world = [Sync_write [3]]"
  "w_wire busy_world = []" "w_writes busy_world = [[1, 2]]" "m_total_wait_write (w_conn busy_world) = 2"
  by (simp_all add: busy_world_def world_defs)

theorem write_discipline_witness:
  "w_writes busy_world = [[1, 2]] \<and> m_is_writing (w_conn busy_world) \<and> w_reads busy_world = 1
    \<and> m_total_wait_write (w_conn busy_world) = 2"
  using write_discipline [OF put_flag_sets busy_world_reach] by (simp add: busy_parts)

theorem writes_fifo_witness:
  "w_wire busy_world @ concat (m_write_queue (w_conn busy_world))
    @ concat (map task_data (w_tasks busy_world)) = [1, 2, 3]"
  using writes_fifo [OF put_flag_sets _ busy_steps] by (simp add: healthy_def client_data_def)

theorem queue_drains_witness:
  "\<exists>w'. happens put_flag drop_conn [Run_task, Written False 2, Written False 1] busy_world = Some w'
    \<and> w_wire w' = [1, 2, 3] \<and> m_write_queue (w_conn w') = []"
  using queue_drains [OF put_flag_sets busy_world_reach]
  by (auto simp: busy_parts task_data_def accepted_bytes_def numeral_2_eq_2)

theorem failed_write_leaves_total_witness:
  "\<exists>c'. write_complete_i put_flag drop_conn True 1 ((w_conn busy_world)\<lparr>m_status := RPC_DISCONNECTED\<rparr>)
      = Some (c', []) \<and> m_write_queue c' = [] \<and> m_total_wait_write c' = 1"
  using failed_write_leaves_total [OF put_flag_sets,
    of "(w_conn busy_world)\<lparr>m_status := RPC_DISCONNECTED\<rparr>" "[1, 2]" "[]" 1 drop_conn]
  by (auto simp: busy_parts)

theorem sync_connect_outcome_witness:
  "\<exists>c'. sync_connect (Some [1, 2, 3 :: nat]) (\<lambda>ep. ep < 2) (w_conn busy_world) = Inr (0, c', [Start_read])
    \<and> connect_loop (\<lambda>ep. ep < 2) True [1, 2, 3 :: nat] = (False, [1, 2])"
  using sync_connect_outcome [of "Some [1, 2, 3]" "[1, 2, 3]" "\<lambda>ep. ep < (2 :: nat)" "w_conn busy_world"]
  by auto

text \<open>Three bytes of a message, the loss reported, then a new connection.\<close>

definition cut_conn :: conn where
  "cut_conn = (w_conn busy_world)\<lparr>m_strategy :=
     \<lparr>m_msg_size = 3, m_head = [2, 0, 0, 0, 0, 0, 0, 0], m_body = [], m_is_broken = True\<rparr>\<rparr>"

theorem reconnect_keeps_stale_state_witness:
  "\<exists>c' evs c'' evs'. sync_connect (Some [()]) (\<lambda>_. False) cut_conn = Inr (0, c', evs)
    \<and> read_complete_i drop_conn False [7] c' = Some (c'', evs')
    \<and> unread (m_strategy c'') = [2, 0, 0, 7]
    \<and> broken_posts (snd (on_closed passive_view (m_strategy c'))) = 0"
proof -
  have ok: "proto_ok (m_strategy cut_conn)"
    by (simp add: cut_conn_def proto_ok_def head_size_def)
  obtain c' evs where c': "sync_connect (Some [()]) (\<lambda>_. False) cut_conn = Inr (0, c', evs)"
    by (simp add: sync_connect_def)
  have "split_msgs [2, 0, 0, 7] = ([], [2, 0, 0, 7])" by (subst split_msgs.simps) (simp add: head_size_def)
  with reconnect_keeps_stale_state [OF ok c', of drop_conn "[7]" passive_view] c' show ?thesis
    by (auto simp: cut_conn_def unread_def)
qed

end
