(* ===== verification/RpcDispatch.thy ===== *)
theory RpcDispatch
  imports RpcConnecter
begin

text \<open>
  Dispatching of messages, \<open>rpc_t\<close> of mylib/rpc/rpc.h and rpc.cpp: the table of registered
  calls, \<open>handle_msg\<close>, and the sending side \<open>async_send\<close>.

  A registered call is the unpacking operator of its message type (\<open>None\<close> where it throws a
  \<open>std::exception\<close>) with the name of its method. The answer of the virtual
  \<open>on_unknown_msg\<close> is an argument; its default is -1. The repository's functions
  \<open>async_call\<close> and \<open>async_send\<close> have no return statement, so their results are not modelled.
\<close>

section \<open>The table of calls\<close>

record ('m, 'f) call =
  unpack :: "bytes \<Rightarrow> 'm option"
  cb :: 'f

type_synonym ('m, 'f) calls = "16 word \<rightharpoonup> ('m, 'f) call"

datatype ('m, 'f) rpc_event =
    On_broken
  | Invoke 'f 'm
  | On_unknown "16 word" bytes
  | Close_conn rpc_close_type

definition reg_call :: "16 word \<Rightarrow> (bytes \<Rightarrow> 'm option) \<Rightarrow> 'f \<Rightarrow> ('m, 'f) calls \<Rightarrow> ('m, 'f) calls" where
  "reg_call cmd up f calls = calls(cmd \<mapsto> \<lparr>unpack = up, cb = f\<rparr>)"

definition call_happen :: "('m, 'f) call \<Rightarrow> bytes \<Rightarrow> bool \<times> ('m, 'f) rpc_event list" where
  "call_happen c buff = (case unpack c buff of
      None \<Rightarrow> (False, [])
    | Some msg \<Rightarrow> (True, [Invoke (cb c) msg]))"

definition on_unknown_default :: "16 word \<Rightarrow> bytes \<Rightarrow> int" where
  "on_unknown_default cmd body = -1"

definition handle_msg :: "('m, 'f) calls \<Rightarrow> (16 word \<Rightarrow> bytes \<Rightarrow> int) \<Rightarrow> 8 word \<Rightarrow> 16 word \<Rightarrow> 16 word
    \<Rightarrow> bytes \<Rightarrow> ('m, 'f) rpc_event list" where
  "handle_msg calls unknown flag cmd res body =
     (if flag = 0 then [On_broken]
      else case calls cmd of
          Some c \<Rightarrow>
            (let (ok, evs) = call_happen c body
             in if \<not> ok then evs @ [Close_conn RPC_SHUTDOWN] else evs)
        | None \<Rightarrow> On_unknown cmd body
            # (if unknown cmd body \<noteq> 0 then [Close_conn RPC_SHUTDOWN] else []))"

definition async_send :: "16 word \<Rightarrow> bytes \<Rightarrow> conn_event list" where
  "async_send cmd body = async_write (make_msg cmd body)"

definition async_call :: "('m \<Rightarrow> bytes) \<Rightarrow> 16 word \<Rightarrow> 'm \<Rightarrow> conn_event list" where
  "async_call pack cmd msg = async_send cmd (pack msg)"

text \<open>The tasks the protocol object has posted, run in order.\<close>

fun run_posted :: "('m, 'f) calls \<Rightarrow> (16 word \<Rightarrow> bytes \<Rightarrow> int) \<Rightarrow> proto_event list
    \<Rightarrow> ('m, 'f) rpc_event list" where
  "run_posted calls unknown [] = []"
| "run_posted calls unknown (Post_handle_msg flag cmd res body # evs) =
     handle_msg calls unknown flag cmd res body @ run_posted calls unknown evs"
| "run_posted calls unknown (_ # evs) = run_posted calls unknown evs"

text \<open>The posted tasks among what the object asks for.\<close>

fun is_post :: "proto_event \<Rightarrow> bool" where
  "is_post (Post_handle_msg flag cmd res body) \<longleftrightarrow> True"
| "is_post _ \<longleftrightarrow> False"

section \<open>What a message leads to\<close>

text \<open>A table built by a sequence of registrations.\<close>

definition reg_all :: "(16 word \<times> (bytes \<Rightarrow> 'm option) \<times> 'f) list \<Rightarrow> ('m, 'f) calls" where
  "reg_all rs = foldl (\<lambda>calls (cmd, up, f). reg_call cmd up f calls) (\<lambda>_. None) rs"

lemma reg_all_map_of:
  "reg_all rs = map_of (rev (map (\<lambda>(cmd, up, f). (cmd, \<lparr>unpack = up, cb = f\<rparr>)) rs))"
proof (induction rs rule: rev_induct)
  case (snoc r rs)
  then show ?case by (cases r) (simp add: reg_all_def reg_call_def)
qed (simp add: reg_all_def)

lemma reg_all_none: "reg_all rs cmd = None \<longleftrightarrow> cmd \<notin> fst ` set rs"
proof -
  have "fst ` set (rev (map (\<lambda>(cmd, up, f). (cmd, \<lparr>unpack = up, cb = f\<rparr>)) rs)) = fst ` set rs" by force
  then show ?thesis by (simp add: reg_all_map_of map_of_eq_None_iff)
qed

lemma reg_all_last:
  assumes "cmd \<notin> fst ` set rs'"
  shows "reg_all (rs @ (cmd, up, f) # rs') cmd = Some \<lparr>unpack = up, cb = f\<rparr>"
  using assms unfolding reg_all_none [symmetric] by (simp add: reg_all_map_of map_add_def)

text \<open>C36: Each message has one outcome. A broken connection is reported whatever the rest of the
  call says. Otherwise the last registration of the command counts: its method is called once with
  the unpacked message, and a body that does not unpack shuts the connection down and calls nothing.
  A command that is not registered goes to \<open>on_unknown_msg\<close>, which shuts the connection down
  unless it returns 0, as its default does not.\<close>

theorem handle_msg_outcome:
  assumes "cmd \<notin> fst ` set rs'" and "other \<notin> fst ` set rs" and "flag \<noteq> 0"
  shows "handle_msg (reg_all rs) unknown 0 other res body = [On_broken]
    \<and> handle_msg (reg_all (rs @ (cmd, up, f) # rs')) unknown flag cmd res body
       = (case up body of Some msg \<Rightarrow> [Invoke f msg] | None \<Rightarrow> [Close_conn RPC_SHUTDOWN])
    \<and> handle_msg (reg_all rs) on_unknown_default flag other res body
       = [On_unknown other body, Close_conn RPC_SHUTDOWN]"
  using assms(3) reg_all_last [OF assms(1), of rs up f] reg_all_none [THEN iffD2, OF assms(2)]
  by (simp_all add: handle_msg_def call_happen_def on_unknown_default_def split: option.split)

lemma run_posted_append [simp]:
  "run_posted calls unknown (xs @ ys) = run_posted calls unknown xs @ run_posted calls unknown ys"
  by (induction calls unknown xs rule: run_posted.induct) simp_all

lemma run_posted_filter [simp]: "run_posted calls unknown (filter is_post evs) = run_posted calls unknown evs"
  by (induction calls unknown evs rule: run_posted.induct) simp_all

lemma run_posted_reads:
  "run_posted calls unknown (filter (\<lambda>e. e \<noteq> Async_read) evs) = run_posted calls unknown evs"
  by (induction calls unknown evs rule: run_posted.induct) simp_all

lemma run_posted_messages:
  "run_posted calls unknown (concat (map (msg_events cv) ms))
    = concat (map (\<lambda>m. handle_msg calls unknown 1 (fst m) 0 (snd m)) ms)"
  by (induction ms) (auto simp: msg_events_def)

section \<open>From the sender's calls to the receiver's methods\<close>

text \<open>The client calls of the sender: one \<open>async_send\<close> each.\<close>

definition send_happening :: "16 word \<times> bytes \<Rightarrow> happening" where
  "send_happening m = Client_write (make_msg (fst m) (snd m))"

text \<open>The client's calls among the happenings.\<close>

definition client_calls :: "happening list \<Rightarrow> happening list" where
  "client_calls hs = filter (\<lambda>h. \<exists>data. h = Client_write data) hs"

lemma client_data_calls: "concat (map client_data hs) = concat (map client_data (client_calls hs))"
  by (induction hs) (auto simp: client_calls_def client_data_def split: happening.split)

lemma healthy_wire:
  assumes "sets_flag sws" and "list_all healthy hs" and "client_calls hs = map send_happening ms"
    and "happens sws sc hs (accepted_world um init_proto) = Some w" and "w_tasks w = []" and "w_writes w = []"
  shows "w_wire w = concat (map (\<lambda>(cmd, body). make_msg cmd body) ms)"
proof -
  have "concat (map client_data hs) = concat (map (\<lambda>(cmd, body). make_msg cmd body) ms)"
    by (subst client_data_calls)
      (simp add: assms(3) send_happening_def client_data_def comp_def case_prod_unfold)
  with wire_complete(2) [OF assms(1,2,4-6)] show ?thesis by simp
qed

text \<open>C1: End to end. A sender's connection runs, healthy, through any interleaving of
  \<open>async_send\<close> calls, tasks and completions until nothing is outstanding. The receiver's object
  is between two messages, and the sender's wire reaches it cut into reads anywhere. Then running
  what the receiver has posted handles exactly the messages sent, each once, with its command and
  body, in the order of the calls.\<close>

theorem sent_messages_are_handled:
  assumes "sets_flag sws" and "list_all healthy hs" and "client_calls hs = map send_happening ms"
    and "list_all sendable ms" and "happens sws sc hs (accepted_world um init_proto) = Some w"
    and "w_tasks w = []" and "w_writes w = []"
    and "reach (\<lambda>p. p = init_proto) (proto_step cv) p" and "unread p = []" and "concat reads = w_wire w"
  shows "\<exists>q evs. proto_run cv (map Read reads) p = Some (q, evs)
    \<and> run_posted calls unknown evs = concat (map (\<lambda>m. handle_msg calls unknown 1 (fst m) 0 (snd m)) ms)"
proof -
  have wire: "concat reads = concat (map (\<lambda>(cmd, body). make_msg cmd body) ms)"
    using healthy_wire [OF assms(1-3,5-7)] assms(10) by simp
  obtain q where q: "posted (proto_run cv (map Read reads) p) = Some (q, concat (map (msg_events cv) ms))"
    using stream_frames [OF ps.inv_reach [OF assms(8)] assms(9,4) wire] by blast
  then obtain evs where "proto_run cv (map Read reads) p = Some (q, evs)"
    "filter (\<lambda>e. e \<noteq> Async_read) evs = concat (map (msg_events cv) ms)"
    by (auto simp: posted_def)
  with run_posted_messages [of calls unknown cv ms] run_posted_reads [of calls unknown evs]
  show ?thesis by metis
qed

text \<open>\<open>handle_msg\<close> does not look at the flag that \<open>compress_msg\<close> puts into a message
  it has compressed, and no receiver calls \<open>uncompress_msg\<close>: the compressed bytes are
  handed to the method as the body.\<close>

theorem compressed_body_not_restored:
  assumes "zc data = Some (len, dest)" and "0 < len" and "nat len \<le> length dest" and "len < 2 ^ 31"
    and "opened u" and "ZLIB_SIZE_LIMIT u \<le> length data" and "length data < 2 ^ 32"
    and "unat cmd < length (cmd_filter u)" and "cmd_filter u ! unat cmd = 0"
    and "reach (\<lambda>p. p = init_proto) (proto_step cv) p" and "unread p = []"
  shows "\<exists>msg q evs. compress_msg u zc cmd data = Some msg \<and> on_read cv msg p = Some (0, q, evs)
    \<and> run_posted calls unknown evs = handle_msg calls unknown 1 cmd 0 (take (nat len) dest)"
proof -
  let ?h = "\<lparr>hd_len = of_int len, hd_cmd = cmd, hd_res = ZLIB_FLAG_MASK\<rparr>" and ?body = "take (nat len) dest"
  have "take (unat (of_nat (length data) :: 32 word)) data = data"
    using unat_of_length [OF assms(7)] by simp
  then have msg: "compress_msg u zc cmd data = Some (head_bytes ?h @ ?body)"
    using assms by (simp add: compress_msg_def Let_def zero_head_def)
  have len: "unat (of_int len :: 32 word) = length ?body"
    using unat_of_int_len [of len dest] assms by simp
  have "?body \<noteq> []" using assms(2,3) by auto
  with len have "split_msgs (head_bytes ?h @ ?body) = ([(?h, ?body)], [])"
    using assms(3) by (subst split_msgs.simps) (simp add: split_msgs.simps [of "[]"] head_size_def)
  with on_read_splits [OF ps.inv_reach [OF assms(10)], of cv "head_bytes ?h @ ?body"] assms(11)
  obtain q where "on_read cv (head_bytes ?h @ ?body) p
      = Some (0, q, events_of cv [(?h, ?body)] @ [Async_read])" by auto
  with msg show ?thesis by (auto simp: handle_msg_def)
qed

section \<open>Instances\<close>

text \<open>A message type with one byte that must be there, and a text type.\<close>

definition byte_msg :: "bytes \<Rightarrow> bytes option" where
  "byte_msg buff = (if length buff = 1 then Some buff else None)"

definition two_calls :: "(16 word \<times> (bytes \<Rightarrow> bytes option) \<times> string) list" where
  "two_calls = [(3, byte_msg, ''on_byte''), (4, Some, ''on_text'')]"

theorem handle_msg_outcome_witness:
  "handle_msg (reg_all (two_calls @ [(3, Some, ''on_any'')])) on_unknown_default 1 3 0 [1, 2]
    = [Invoke ''on_any'' [1, 2]]"
  using handle_msg_outcome [where cmd = 3 and rs' = "[]" and other = 5 and rs = two_calls and flag = 1
    and unknown = on_unknown_default and res = 0 and body = "[1, 2]" and up = Some and f = "''on_any''"]
  by (simp add: two_calls_def)

definition one_send :: "happening list" where
  "one_send = [Client_write (make_msg 4 [7, 8]), Run_task, Written False 10]"

definition sent_world :: world where
  "sent_world = the (happens put_flag drop_conn one_send (accepted_world True init_proto))"

lemma length_make_msg [simp]: "length (make_msg cmd body) = 8 + length body"
  by (simp add: make_msg_def head_size_def)

lemma sent_steps:
  "happens put_flag drop_conn one_send (accepted_world True init_proto) = Some sent_world"
  "w_tasks sent_world = []" "w_writes sent_world = []" "w_wire sent_world = make_msg 4 [7, 8]"
  by (simp_all add: sent_world_def one_send_def world_defs)

theorem sent_messages_are_handled_witness:
  "\<exists>q evs. proto_run passive_view (map Read [take 5 (make_msg 4 [7, 8]), drop 5 (make_msg 4 [7, 8])]) init_proto
      = Some (q, evs)
    \<and> run_posted (reg_all two_calls) on_unknown_default evs = [Invoke ''on_text'' [7, 8]]"
proof -
  have "handle_msg (reg_all two_calls) on_unknown_default 1 4 0 [7, 8] = [Invoke ''on_text'' [7, 8]]"
    by (simp add: two_calls_def reg_all_def reg_call_def handle_msg_def call_happen_def)
  with sent_messages_are_handled [OF put_flag_sets _ _ _ sent_steps(1-3) fresh_reach fresh_facts,
      where ms = "[(4, [7, 8])]" and reads = "[take 5 (make_msg 4 [7, 8]), drop 5 (make_msg 4 [7, 8])]"
        and calls = "reg_all two_calls" and unknown = on_unknown_default and cv = passive_view]
  show ?thesis
    by (simp add: sent_steps(4) one_send_def healthy_def client_calls_def send_happening_def sendable_def
        del: proto_run.simps)
qed

theorem compressed_body_not_restored_witness:
  "\<exists>msg q evs. compress_msg open_util (\<lambda>d. Some (2, [1, 2, 3])) 4 [5, 5, 5, 5, 5] = Some msg
    \<and> on_read passive_view msg init_proto = Some (0, q, evs)
    \<and> run_posted (reg_all two_calls) on_unknown_default evs = [Invoke ''on_text'' [1, 2]]"
proof -
  have "handle_msg (reg_all two_calls) on_unknown_default 1 4 0 [1, 2] = [Invoke ''on_text'' [1, 2]]"
    by (simp add: two_calls_def reg_all_def reg_call_def handle_msg_def call_happen_def)
  moreover have "\<exists>msg q evs. compress_msg open_util (\<lambda>d. Some (2, [1, 2, 3])) 4 [5, 5, 5, 5, 5] = Some msg
    \<and> on_read passive_view msg init_proto = Some (0, q, evs)
    \<and> run_posted (reg_all two_calls) on_unknown_default evs
      = handle_msg (reg_all two_calls) on_unknown_default 1 4 0 (take (nat 2) [1, 2, 3])"
    by (rule compressed_body_not_restored [OF _ _ _ _ _ _ _ _ _ fresh_reach fresh_facts])
      (simp_all add: open_util_def)
  ultimately show ?thesis by simp
qed

end
