(* ===== verification/RpcServer.thy ===== *)
theory RpcServer
  imports RpcDispatch IoServicePool
begin

text \<open>
  Accepting connections, \<open>rpc_acceptor_t\<close> of mylib/rpc/rpc\_acceptor.h and .cpp, and the server
  on top of it, \<open>rpc_server_t\<close> of rpc\_server.h.

  Of asio's acceptor the model keeps what the code depends on: whether it is open, bound and
  listening, the connections that wait in \<open>async_accept\<close>, and those for which it has completed, with its error, while
  the handler has not run yet. Which of asio's calls throw is an argument, \<open>listen_env\<close> for those of \<open>start\<close> and
  \<open>cancel_ok\<close> for \<open>cancel\<close>; opening an open acceptor throws, and so does cancelling on a closed one. Cancelling completes the
  waiting accepts with an error, and an accept on an acceptor that does not listen completes with one at once.
  \<open>strategy\<close> is what the strategy creator returns, a protocol object or NULL. \<open>None\<close> is
  the undefined behaviour of taking a service from an empty pool.
\<close>

section \<open>State\<close>

record asio_acceptor =
  as_open :: bool
  as_bound :: bool
  as_listening :: bool
  as_accepts :: "conn list"
  as_completed :: "(conn \<times> bool) list"

definition closed_acceptor :: asio_acceptor where
  "closed_acceptor = \<lparr>as_open = False, as_bound = False, as_listening = False, as_accepts = [], as_completed = []\<rparr>"

text \<open>What asio does: an accept, \<open>cancel\<close>, \<open>close\<close>.\<close>

definition asio_accept :: "conn \<Rightarrow> asio_acceptor \<Rightarrow> asio_acceptor" where
  "asio_accept c s = (if as_listening s then s\<lparr>as_accepts := as_accepts s @ [c]\<rparr>
     else s\<lparr>as_completed := as_completed s @ [(c, True)]\<rparr>)"

definition asio_cancel :: "asio_acceptor \<Rightarrow> asio_acceptor" where
  "asio_cancel s = s\<lparr>as_accepts := [], as_completed := as_completed s @ map (\<lambda>c. (c, True)) (as_accepts s)\<rparr>"

definition asio_close :: "asio_acceptor \<Rightarrow> asio_acceptor" where
  "asio_close s = s\<lparr>as_open := False, as_bound := False, as_listening := False\<rparr>"

record acceptor =
  m_acceptor :: asio_acceptor
  m_ip :: string
  m_port :: string
  acc_use_monitor :: bool
  m_started :: bool

record listen_env =
  resolve_ok :: bool
  open_ok :: bool
  option_ok :: bool
  bind_ok :: bool
  listen_ok :: bool

definition init_acceptor :: acceptor where
  "init_acceptor = \<lparr>m_acceptor = closed_acceptor, m_ip = [], m_port = [], acc_use_monitor = False,
     m_started = False\<rparr>"

section \<open>Operations of the acceptor\<close>

text \<open>A new connection on a service of the pool.\<close>

definition new_conn :: "proto option \<Rightarrow> io_service_pool \<Rightarrow> ((conn_exception + conn) \<times> io_service_pool) option" where
  "new_conn strategy pool = do { (_, pool) \<leftarrow> get_io_service pool; Some (init_conn strategy, pool) }"

definition put_accept :: "conn \<Rightarrow> acceptor \<Rightarrow> acceptor" where
  "put_accept c a = a\<lparr>m_acceptor := asio_accept c (m_acceptor a)\<rparr>"

definition sync_start_listen_i :: "listen_env \<Rightarrow> proto option \<Rightarrow> io_service_pool \<Rightarrow> acceptor
    \<Rightarrow> (acceptor \<times> io_service_pool) option" where
  "sync_start_listen_i env strategy pool a =
     (if \<not> resolve_ok env then Some (a, pool)
      else if as_open (m_acceptor a) \<or> \<not> open_ok env then Some (a, pool)
      else let a = a\<lparr>m_acceptor := (m_acceptor a)\<lparr>as_open := True\<rparr>\<rparr> in
      if \<not> option_ok env then Some (a, pool)
      else if \<not> bind_ok env then Some (a, pool)
      else let a = a\<lparr>m_acceptor := (m_acceptor a)\<lparr>as_bound := True\<rparr>\<rparr> in
      if \<not> listen_ok env then Some (a, pool)
      else let a = a\<lparr>m_acceptor := (m_acceptor a)\<lparr>as_listening := True\<rparr>\<rparr> in
      do {
        (made, pool) \<leftarrow> new_conn strategy pool;
        case made of Inl _ \<Rightarrow> Some (a, pool) | Inr c \<Rightarrow> Some (put_accept c a, pool)
      })"

definition acceptor_start :: "listen_env \<Rightarrow> proto option \<Rightarrow> string \<Rightarrow> string \<Rightarrow> bool \<Rightarrow> io_service_pool
    \<Rightarrow> acceptor \<Rightarrow> (int \<times> acceptor \<times> io_service_pool) option" where
  "acceptor_start env strategy ip port use_monitor pool a =
     (if m_started a then Some (0, a, pool)
      else do {
        (a, pool) \<leftarrow> sync_start_listen_i env strategy pool
          (a\<lparr>acc_use_monitor := use_monitor, m_ip := ip, m_port := port\<rparr>);
        Some (0, a\<lparr>m_started := True\<rparr>, pool)
      })"

text \<open>The completion of an accept; the result has what the accepted connection does.\<close>

definition sync_accept_i :: "proto option \<Rightarrow> io_service_pool \<Rightarrow> conn \<Rightarrow> bool \<Rightarrow> acceptor
    \<Rightarrow> (acceptor \<times> io_service_pool \<times> (conn \<times> conn_event list) option) option" where
  "sync_accept_i strategy pool c err a =
     (if err then Some (a, pool, None)
      else do {
        (made, pool) \<leftarrow> new_conn strategy pool;
        case made of
          Inl _ \<Rightarrow> Some (a, pool, None)
        | Inr tmp \<Rightarrow> Some (put_accept tmp a, pool, Some (remote_open (acc_use_monitor a) c))
      })"

text \<open>If \<open>cancel\<close> throws, \<open>close\<close> is not called.\<close>

definition sync_close_i :: "bool \<Rightarrow> acceptor \<Rightarrow> acceptor" where
  "sync_close_i cancel_ok a =
     (if \<not> as_open (m_acceptor a) \<or> \<not> cancel_ok then a
      else a\<lparr>m_acceptor := asio_close (asio_cancel (m_acceptor a))\<rparr>)"

definition acceptor_stop :: "bool \<Rightarrow> acceptor \<Rightarrow> acceptor" where
  "acceptor_stop cancel_ok a =
     (if \<not> m_started a then a else sync_close_i cancel_ok (a\<lparr>m_started := False\<rparr>))"

definition destroy_acceptor :: "bool \<Rightarrow> acceptor \<Rightarrow> acceptor" where
  "destroy_acceptor cancel_ok a =
     (if m_started a then sync_close_i cancel_ok (a\<lparr>m_started := False\<rparr>) else a)"

text \<open>The accept that has waited longest completes; and the io service runs the handler of one that has
  completed, in whatever order.\<close>

definition accept_completes :: "bool \<Rightarrow> acceptor \<Rightarrow> acceptor option" where
  "accept_completes err a = (case as_accepts (m_acceptor a) of
      [] \<Rightarrow> None
    | c # cs \<Rightarrow> Some (a\<lparr>m_acceptor := (m_acceptor a)\<lparr>as_accepts := cs,
        as_completed := as_completed (m_acceptor a) @ [(c, err)]\<rparr>\<rparr>))"

definition accept_handled :: "nat \<Rightarrow> proto option \<Rightarrow> io_service_pool \<Rightarrow> acceptor
    \<Rightarrow> (acceptor \<times> io_service_pool \<times> (conn \<times> conn_event list) option) option" where
  "accept_handled k strategy pool a = (let cs = as_completed (m_acceptor a) in
     if k < length cs
     then sync_accept_i strategy pool (fst (cs ! k)) (snd (cs ! k))
       (a\<lparr>m_acceptor := (m_acceptor a)\<lparr>as_completed := take k cs @ drop (Suc k) cs\<rparr>\<rparr>)
     else None)"

section \<open>The server\<close>

text \<open>\<open>m_io\<close> is the number of its service in the pool.\<close>

record server =
  m_io :: nat
  m_sp_acc :: "acceptor option"

definition new_server_on :: "nat \<Rightarrow> server" where
  "new_server_on io = \<lparr>m_io = io, m_sp_acc = None\<rparr>"

definition new_server :: "io_service_pool \<Rightarrow> (server \<times> io_service_pool) option" where
  "new_server pool = do { (io, pool) \<leftarrow> get_io_service pool; Some (new_server_on io, pool) }"

definition server_get_io :: "server \<Rightarrow> nat" where
  "server_get_io sv = m_io sv"

text \<open>The strategy creator: the class \<open>Listener\<close> constructed on the server's service, never NULL.\<close>

definition create_listener :: "(nat \<Rightarrow> proto) \<Rightarrow> nat \<Rightarrow> proto option" where
  "create_listener Listener io = Some (Listener io)"

text \<open>\<open>listen\<close>. The exceptions that \<open>listen\<close> catches are caught in
  \<open>sync_start_listen_i\<close> already, so its handlers are not reached.\<close>

definition server_listen :: "listen_env \<Rightarrow> (nat \<Rightarrow> proto) \<Rightarrow> string \<Rightarrow> string \<Rightarrow> bool \<Rightarrow> io_service_pool
    \<Rightarrow> server \<Rightarrow> (int \<times> server \<times> io_service_pool) option" where
  "server_listen env Listener host port use_monitor pool sv = do {
     (acc, pool) \<leftarrow> (case m_sp_acc sv of
         Some acc \<Rightarrow> Some (acc, pool)
       | None \<Rightarrow> do { (_, pool) \<leftarrow> get_io_service pool; Some (init_acceptor, pool) });
     (_, acc, pool) \<leftarrow> acceptor_start env (create_listener Listener (m_io sv)) host port use_monitor pool acc;
     Some (0, sv\<lparr>m_sp_acc := Some acc\<rparr>, pool)
   }"

definition server_close :: "bool \<Rightarrow> server \<Rightarrow> server" where
  "server_close cancel_ok sv = sv\<lparr>m_sp_acc := map_option (acceptor_stop cancel_ok) (m_sp_acc sv)\<rparr>"

definition server_async_call :: "msg_util \<Rightarrow> (bytes \<Rightarrow> (int \<times> bytes) option) \<Rightarrow> int \<Rightarrow> bytes
    \<Rightarrow> conn_event list option" where
  "server_async_call u zc cmd body = map_option async_write (compress_msg u zc (word_of_int cmd) body)"

definition server_async_call_msg :: "msg_util \<Rightarrow> (bytes \<Rightarrow> (int \<times> bytes) option) \<Rightarrow> ('m \<Rightarrow> bytes) \<Rightarrow> int \<Rightarrow> 'm
    \<Rightarrow> conn_event list option" where
  "server_async_call_msg u zc pack cmd msg = server_async_call u zc cmd (pack msg)"

text \<open>
  \<open>async_do\<close>: the function and copies of its arguments, as \<open>bind\<close> makes them, go to the queue of the server's
  service; the service runs \<open>handle_do\<close> on them. \<open>'s\<close> is what the functions work on, \<open>'a\<close> the arguments.
\<close>

datatype ('a, 's) io_task = Handle_do "'a \<Rightarrow> 's \<Rightarrow> 's" 'a

type_synonym ('a, 's) io_queues = "nat \<Rightarrow> ('a, 's) io_task list"

definition server_async_do :: "('a \<Rightarrow> 's \<Rightarrow> 's) \<Rightarrow> 'a \<Rightarrow> server \<Rightarrow> ('a, 's) io_queues \<Rightarrow> ('a, 's) io_queues" where
  "server_async_do f args sv qs = qs(m_io sv := qs (m_io sv) @ [Handle_do f args])"

definition handle_do :: "('a \<Rightarrow> 's \<Rightarrow> 's) \<Rightarrow> 'a \<Rightarrow> 's \<Rightarrow> 's" where
  "handle_do f args s = f args s"

text \<open>A service with one thread runs the oldest task of its queue.\<close>

fun run_io :: "nat \<Rightarrow> ('a, 's) io_queues \<times> 's \<Rightarrow> (('a, 's) io_queues \<times> 's) option" where
  "run_io io (qs, s) = (case qs io of [] \<Rightarrow> None | Handle_do f args # ts \<Rightarrow> Some (qs(io := ts), handle_do f args s))"

text \<open>Calls of \<open>async_do\<close> on servers, and turns of services, in any order.\<close>

datatype ('a, 's) io_happening = Do_call server "'a \<Rightarrow> 's \<Rightarrow> 's" 'a | Io_turn nat

fun io_history :: "('a, 's) io_happening list \<Rightarrow> ('a, 's) io_queues \<times> 's \<Rightarrow> (('a, 's) io_queues \<times> 's) option" where
  "io_history [] w = Some w"
| "io_history (Do_call sv f args # hs) w = io_history hs (server_async_do f args sv (fst w), snd w)"
| "io_history (Io_turn io # hs) w = do { w \<leftarrow> run_io io w; io_history hs w }"

section \<open>States of the acceptor\<close>

datatype acceptor_event =
    Acc_start listen_env "proto option" string string bool
  | Acc_stop bool
  | Acc_complete bool
  | Acc_handle nat "proto option"

fun acceptor_do :: "acceptor_event \<Rightarrow> acceptor \<times> io_service_pool \<Rightarrow> (acceptor \<times> io_service_pool) option" where
  "acceptor_do (Acc_start env strategy ip port um) (a, pool) =
     map_option snd (acceptor_start env strategy ip port um pool a)"
| "acceptor_do (Acc_stop cancel_ok) (a, pool) = Some (acceptor_stop cancel_ok a, pool)"
| "acceptor_do (Acc_complete err) (a, pool) = map_option (\<lambda>a. (a, pool)) (accept_completes err a)"
| "acceptor_do (Acc_handle k strategy) (a, pool) =
     map_option (\<lambda>(a, pool, conn). (a, pool)) (accept_handled k strategy pool a)"

fun acceptor_run :: "acceptor_event list \<Rightarrow> acceptor \<times> io_service_pool \<Rightarrow> (acceptor \<times> io_service_pool) option" where
  "acceptor_run [] ap = Some ap"
| "acceptor_run (ev # evs) ap = Option.bind (acceptor_do ev ap) (acceptor_run evs)"

text \<open>The calls of \<open>stop\<close>, and whether \<open>cancel\<close> has thrown in one.\<close>

fun stop_calls :: "acceptor_event list \<Rightarrow> bool list" where
  "stop_calls [] = []"
| "stop_calls (Acc_stop cancel_ok # evs) = cancel_ok # stop_calls evs"
| "stop_calls (_ # evs) = stop_calls evs"

text \<open>Accepts that will be followed by another: they wait, or have succeeded and are still to be handled.\<close>

definition live_accepts :: "acceptor \<Rightarrow> nat" where
  "live_accepts a = length (as_accepts (m_acceptor a)) + length (filter (\<lambda>(c, err). \<not> err) (as_completed (m_acceptor a)))"

definition fresh_conn :: "conn \<Rightarrow> bool" where
  "fresh_conn c \<longleftrightarrow> (\<exists>p. init_conn (Some p) = Inr c)"

lemma fresh_connD: "fresh_conn c \<Longrightarrow> m_connect_type c = RPC_PASSIVE \<and> m_status c = RPC_DISCONNECTED \<and> m_write_queue c = []"
  by (auto simp: fresh_conn_def init_conn_def)

definition accepting_conns :: "acceptor \<Rightarrow> conn set" where
  "accepting_conns a = set (as_accepts (m_acceptor a)) \<union> fst ` set (as_completed (m_acceptor a))"

definition acceptor_ok :: "bool list \<Rightarrow> acceptor \<Rightarrow> bool" where
  "acceptor_ok stops a \<longleftrightarrow> (let s = m_acceptor a in
     (as_bound s \<longrightarrow> as_open s) \<and> (as_listening s \<longrightarrow> as_bound s) \<and> (as_accepts s \<noteq> [] \<longrightarrow> as_listening s)
     \<and> (as_open s \<and> \<not> m_started a \<longrightarrow> False \<in> set stops)
     \<and> live_accepts a \<le> length stops + (if m_started a then 1 else 0)
     \<and> (\<forall>c \<in> accepting_conns a. fresh_conn c))"

lemmas acceptor_ops = acceptor_start_def sync_start_listen_i_def acceptor_stop_def sync_close_i_def
  accept_completes_def accept_handled_def sync_accept_i_def new_conn_def put_accept_def asio_accept_def asio_cancel_def
  asio_close_def

text \<open>How far \<open>start\<close> gets with an acceptor that is not open.\<close>

inductive listens_up :: "asio_acceptor \<Rightarrow> asio_acceptor \<Rightarrow> bool" for s where
  "listens_up s s"
| "listens_up s (s\<lparr>as_open := True\<rparr>)"
| "listens_up s (s\<lparr>as_open := True, as_bound := True\<rparr>)"
| "listens_up s (s\<lparr>as_open := True, as_bound := True, as_listening := True\<rparr>)"
| "fresh_conn c
    \<Longrightarrow> listens_up s (asio_accept c (s\<lparr>as_open := True, as_bound := True, as_listening := True\<rparr>))"

lemma start_listens_up:
  assumes "acceptor_start env strategy ip port um pool a = Some (ret, b, pool')" and "\<not> m_started a"
  shows "m_started b \<and> (if as_open (m_acceptor a) then m_acceptor b = m_acceptor a
    else listens_up (m_acceptor a) (m_acceptor b))"
proof (cases "init_conn strategy")
  case (Inl e)
  with assms show ?thesis
    by (auto simp: acceptor_start_def sync_start_listen_i_def new_conn_def Let_def bind_eq_Some_conv
        intro: listens_up.intros split: if_splits)
next
  case (Inr c)
  then have "fresh_conn c" by (cases strategy) (auto simp: fresh_conn_def init_conn_def)
  with assms Inr show ?thesis
    by (auto simp: acceptor_start_def sync_start_listen_i_def new_conn_def put_accept_def Let_def bind_eq_Some_conv
        intro: listens_up.intros split: if_splits)
qed

lemma acceptor_stop_ok:
  assumes "acceptor_ok stops a"
  shows "acceptor_ok (cancel_ok # stops) (acceptor_stop cancel_ok a)"
proof -
  let ?b = "acceptor_stop cancel_ok a"
  have "accepting_conns ?b = accepting_conns a" "live_accepts ?b \<le> live_accepts a"
    by (auto simp: acceptor_stop_def sync_close_i_def asio_close_def asio_cancel_def accepting_conns_def live_accepts_def
        image_Un image_image)
  moreover have "\<not> m_started ?b" by (simp add: acceptor_stop_def sync_close_i_def)
  moreover have "m_acceptor ?b = m_acceptor a \<and> (as_open (m_acceptor a) \<longrightarrow> m_started a \<longrightarrow> \<not> cancel_ok)
      \<or> \<not> as_open (m_acceptor ?b) \<and> \<not> as_bound (m_acceptor ?b) \<and> \<not> as_listening (m_acceptor ?b)
        \<and> as_accepts (m_acceptor ?b) = []"
    by (auto simp: acceptor_stop_def sync_close_i_def asio_close_def asio_cancel_def)
  ultimately show ?thesis using assms unfolding acceptor_ok_def Let_def
    by (elim disjE conjE) (simp_all split: if_splits)
qed

lemma accept_completes_ok:
  assumes "acceptor_ok stops a" and "accept_completes err a = Some b"
  shows "acceptor_ok stops b"
proof -
  obtain c cs where c: "as_accepts (m_acceptor a) = c # cs"
    "b = a\<lparr>m_acceptor := (m_acceptor a)\<lparr>as_accepts := cs, as_completed := as_completed (m_acceptor a) @ [(c, err)]\<rparr>\<rparr>"
    using assms(2) by (auto simp: accept_completes_def split: list.splits)
  then have "accepting_conns b = accepting_conns a" "live_accepts b \<le> live_accepts a"
    by (auto simp: accepting_conns_def live_accepts_def)
  with c assms(1) show ?thesis by (auto simp: acceptor_ok_def Let_def)
qed

text \<open>Handling the completion of an accept takes it away and, if it has succeeded, puts one more in its place.\<close>

lemma accepting_conns_simps [simp]:
  "accepting_conns (a\<lparr>m_acceptor := asio_accept c s\<rparr>) = insert c (accepting_conns (a\<lparr>m_acceptor := s\<rparr>))"
  by (auto simp: accepting_conns_def asio_accept_def)

lemma live_accepts_simps [simp]:
  "live_accepts (a\<lparr>m_acceptor := asio_accept c s\<rparr>) = (if as_listening s then 1 else 0) + live_accepts (a\<lparr>m_acceptor := s\<rparr>)"
  by (simp add: live_accepts_def asio_accept_def)

lemma acceptor_ok_accept:
  assumes "acceptor_ok stops a" and "fresh_conn c"
    and "live_accepts a < length stops + (if m_started a then 1 else 0)"
  shows "acceptor_ok stops (put_accept c a)"
proof -
  have [simp]: "a\<lparr>m_acceptor := m_acceptor a\<rparr> = a" by simp
  have "as_open (asio_accept c s) = as_open s" "as_bound (asio_accept c s) = as_bound s"
    "as_listening (asio_accept c s) = as_listening s" "as_accepts (asio_accept c s) \<noteq> [] \<longrightarrow> as_listening s \<or> as_accepts s \<noteq> []" for s
    by (simp_all add: asio_accept_def)
  with assms show ?thesis by (auto simp: put_accept_def acceptor_ok_def Let_def)
qed

lemma accept_handled_ok:
  assumes "acceptor_ok stops a" and "accept_handled k strategy pool a = Some (b, pool', cn)"
  shows "acceptor_ok stops b"
proof -
  let ?cs = "as_completed (m_acceptor a)" and ?live = "\<lambda>cs. length (filter (\<lambda>(c, err). \<not> err) cs)"
  obtain c err where c: "k < length ?cs" "?cs ! k = (c, err)"
    using assms(2) by (cases "?cs ! k") (auto simp: accept_handled_def Let_def split: if_splits)
  let ?rest = "take k ?cs @ drop (Suc k) ?cs"
  let ?a = "a\<lparr>m_acceptor := (m_acceptor a)\<lparr>as_completed := ?rest\<rparr>\<rparr>"
  have cs: "?cs = take k ?cs @ (c, err) # drop (Suc k) ?cs" using c by (metis id_take_nth_drop)
  then have "?live ?cs = ?live (take k ?cs @ (c, err) # drop (Suc k) ?cs)" by (rule arg_cong)
  then have live: "live_accepts a = live_accepts ?a + (if err then 0 else 1)" by (simp add: live_accepts_def)
  have "set ?rest \<subseteq> set ?cs" by (auto dest: in_set_takeD in_set_dropD)
  then have "accepting_conns ?a \<subseteq> accepting_conns a" by (auto simp: accepting_conns_def)
  with live assms(1) have ok: "acceptor_ok stops ?a" by (auto simp: acceptor_ok_def Let_def)
  have run: "sync_accept_i strategy pool c err ?a = Some (b, pool', cn)"
    using assms(2) c by (simp add: accept_handled_def Let_def)
  show ?thesis
  proof (cases "err \<or> (\<exists>e. init_conn strategy = Inl e)")
    case True
    with run ok show ?thesis by (auto simp: sync_accept_i_def new_conn_def bind_eq_Some_conv split: if_splits)
  next
    case False
    then obtain tmp where tmp: "init_conn strategy = Inr tmp" "\<not> err" by (cases "init_conn strategy") auto
    then have "fresh_conn tmp" by (cases strategy) (auto simp: fresh_conn_def init_conn_def)
    moreover have "b = put_accept tmp ?a"
      using run tmp by (auto simp: sync_accept_i_def new_conn_def bind_eq_Some_conv)
    moreover have "live_accepts ?a < length stops + (if m_started ?a then 1 else 0)"
      using live tmp(2) assms(1) by (simp add: acceptor_ok_def Let_def)
    ultimately show ?thesis using acceptor_ok_accept [OF ok] by simp
  qed
qed

lemma acceptor_start_ok:
  assumes "acceptor_ok stops a" and "acceptor_start env strategy ip port um pool a = Some (ret, b, pool')"
  shows "acceptor_ok stops b"
proof (cases "m_started a")
  case True
  with assms show ?thesis by (simp add: acceptor_start_def)
next
  case False
  note up = start_listens_up [OF assms(2) False]
  show ?thesis
  proof (cases "as_open (m_acceptor a)")
    case True
    with assms(1) up False show ?thesis by (simp add: acceptor_ok_def live_accepts_def accepting_conns_def Let_def)
  next
    case closed: False
    with assms(1) have "as_accepts (m_acceptor a) = []" by (auto simp: acceptor_ok_def Let_def)
    from up closed have "listens_up (m_acceptor a) (m_acceptor b)" "m_started b" by simp_all
    then show ?thesis using assms(1) False closed \<open>as_accepts _ = []\<close>
      by cases (auto simp: acceptor_ok_def live_accepts_def accepting_conns_def Let_def asio_accept_def)
  qed
qed

lemma acceptor_do_ok:
  assumes "acceptor_ok stops (fst ap)" and "acceptor_do ev ap = Some bq"
  shows "acceptor_ok (stop_calls [ev] @ stops) (fst bq)"
proof (cases ap)
  case (Pair a pool)
  with assms show ?thesis
    by (cases ev) (auto intro: acceptor_start_ok acceptor_stop_ok accept_completes_ok accept_handled_ok)
qed

lemma acceptor_ok_more:
  "acceptor_ok stops a \<Longrightarrow> length stops = length stops' \<Longrightarrow> set stops = set stops' \<Longrightarrow> acceptor_ok stops' a"
  by (simp add: acceptor_ok_def Let_def)

lemma stop_calls_Cons: "stop_calls (ev # evs) = stop_calls [ev] @ stop_calls evs"
  by (cases ev) simp_all

lemma acceptor_run_ok:
  assumes "acceptor_ok stops (fst ap)" and "acceptor_run evs ap = Some bq"
  shows "acceptor_ok (stop_calls evs @ stops) (fst bq)"
  using assms
proof (induction evs arbitrary: ap stops)
  case (Cons ev evs)
  then obtain u where u: "acceptor_do ev ap = Some u" "acceptor_run evs u = Some bq" by (auto simp: bind_eq_Some_conv)
  from Cons.IH [OF acceptor_do_ok [OF Cons.prems(1) u(1)] u(2)] show ?case
    by (rule acceptor_ok_more) (auto simp: stop_calls_Cons [of ev evs])
qed simp

lemma acceptor_init_ok: "acceptor_ok [] init_acceptor"
  by (simp add: acceptor_ok_def init_acceptor_def closed_acceptor_def live_accepts_def accepting_conns_def)

definition listens :: "listen_env \<Rightarrow> proto option \<Rightarrow> bool" where
  "listens env strategy \<longleftrightarrow> resolve_ok env \<and> open_ok env \<and> option_ok env \<and> bind_ok env \<and> listen_ok env
     \<and> strategy \<noteq> None"

lemma get_io_service_some: "pool_ok pool \<Longrightarrow> 0 < get_io_size pool \<Longrightarrow>
    \<exists>s pool'. get_io_service pool = Some (s, pool') \<and> pool_ok pool' \<and> get_io_size pool' = get_io_size pool"
  using get_io_service_ok [of pool] by (auto simp: pool_ok_def get_io_size_def)

lemma new_conn_some: "pool_ok pool \<Longrightarrow> 0 < get_io_size pool \<Longrightarrow>
    \<exists>pool'. new_conn strategy pool = Some (init_conn strategy, pool')"
  using get_io_service_some [of pool] by (auto simp: new_conn_def)

lemma start_closed:
  assumes "\<not> m_started a" and "\<not> as_open (m_acceptor a)" and "as_accepts (m_acceptor a) = []"
    and "pool_ok pool" and "0 < get_io_size pool"
  shows "\<exists>b pool'. acceptor_start env strategy ip port um pool a = Some (0, b, pool')
    \<and> m_started b \<and> acc_use_monitor b = um \<and> (as_accepts (m_acceptor b) \<noteq> [] \<longleftrightarrow> listens env strategy)"
proof -
  obtain pool' where n: "new_conn strategy pool = Some (init_conn strategy, pool')"
    using new_conn_some [OF assms(4,5)] by blast
  with assms(1-3) show ?thesis
    by (cases strategy) (auto simp: acceptor_start_def sync_start_listen_i_def put_accept_def asio_accept_def
        listens_def Let_def init_conn_def)
qed

text \<open>C37: In any history of an acceptor, with every call of asio failing or throwing wherever it can: accepts are outstanding
  only while the acceptor listens; those outstanding, with those that have succeeded and are still to be handled, are at most one
  while it has not been stopped, and never more than one and the calls of \<open>stop\<close>; once it is not started, nothing is
  open and nothing waits, unless \<open>cancel\<close> has thrown in a \<open>stop\<close>; and a connection that is to be accepted is a fresh
  one: passive, not connected, with nothing to write.\<close>

theorem acceptor_states:
  assumes "acceptor_run evs (init_acceptor, pool) = Some (a, pool')"
  shows "(as_accepts (m_acceptor a) \<noteq> [] \<longrightarrow> as_open (m_acceptor a) \<and> as_listening (m_acceptor a))
    \<and> live_accepts a \<le> length (stop_calls evs) + (if m_started a then 1 else 0)
    \<and> (\<not> m_started a \<and> False \<notin> set (stop_calls evs)
        \<longrightarrow> \<not> as_open (m_acceptor a) \<and> as_accepts (m_acceptor a) = [])
    \<and> (\<forall>c \<in> accepting_conns a. m_connect_type c = RPC_PASSIVE \<and> m_status c = RPC_DISCONNECTED \<and> m_write_queue c = [])"
proof -
  have "acceptor_ok (stop_calls evs) a" using acceptor_run_ok [where ap = "(init_acceptor, pool)" and stops = "[]", OF _ assms] acceptor_init_ok by simp
  then show ?thesis unfolding acceptor_ok_def Let_def by (blast dest: fresh_connD)
qed

text \<open>\<open>listen\<close> does not tell whether the server listens: for every outcome of resolving,
  opening, binding and listening it returns 0 with the acceptor marked as started, while an accept is
  outstanding only if all of them succeeded and the creator made a strategy. Calling it again returns
  0 and changes nothing.\<close>

theorem listen_hides_failure:
  assumes "pool_ok pool" and "1 \<le> get_io_size pool" and "m_sp_acc sv = None"
  shows "\<exists>acc pool'. server_listen env Listener host port um pool sv = Some (0, sv\<lparr>m_sp_acc := Some acc\<rparr>, pool')
    \<and> m_started acc \<and> (as_accepts (m_acceptor acc) \<noteq> [] \<longleftrightarrow> listens env (Some (Listener (m_io sv))))
    \<and> server_listen env' Listener' host' port' um' pool'' (sv\<lparr>m_sp_acc := Some acc\<rparr>)
      = Some (0, sv\<lparr>m_sp_acc := Some acc\<rparr>, pool'')"
proof -
  obtain s p1 where p1: "get_io_service pool = Some (s, p1)" "pool_ok p1" "0 < get_io_size p1"
    using get_io_service_some [of pool] assms by auto
  have "\<not> m_started init_acceptor" "\<not> as_open (m_acceptor init_acceptor)" "as_accepts (m_acceptor init_acceptor) = []"
    by (simp_all add: init_acceptor_def closed_acceptor_def)
  then obtain b p2 where
    b: "acceptor_start env (Some (Listener (m_io sv))) host port um p1 init_acceptor = Some (0, b, p2)"
    "m_started b" "as_accepts (m_acceptor b) \<noteq> [] \<longleftrightarrow> listens env (Some (Listener (m_io sv)))"
    using start_closed [of init_acceptor p1 env "Some (Listener (m_io sv))" host port um] p1(2,3) by blast
  then have "server_listen env Listener host port um pool sv = Some (0, sv\<lparr>m_sp_acc := Some b\<rparr>, p2)"
    using p1(1) assms(3) by (simp add: server_listen_def create_listener_def)
  moreover have "server_listen env' Listener' host' port' um' pool'' (sv\<lparr>m_sp_acc := Some b\<rparr>)
      = Some (0, sv\<lparr>m_sp_acc := Some b\<rparr>, pool'')"
    using b(2) by (simp add: server_listen_def acceptor_start_def)
  ultimately show ?thesis using b(2,3) by blast
qed

text \<open>An accept that succeeds opens the connection that waited for it, with the acceptor's
  monitor setting: it is connected and passive, its read is outstanding and it is put under the
  monitor if the acceptor uses one; and exactly one new connection waits in its place.\<close>

theorem accept_opens_connection:
  assumes "acceptor_run evs (init_acceptor, pool0) = Some (a, pool)" and "as_accepts (m_acceptor a) = c # cs"
    and "as_completed (m_acceptor a) = []" and "pool_ok pool" and "0 < get_io_size pool"
  shows "\<exists>b d pool' c' evs tmp. accept_completes False a = Some b
    \<and> accept_handled 0 (Some p) pool b = Some (d, pool', Some (c', evs))
    \<and> m_status c' = RPC_CONNECTED \<and> m_connect_type c' = RPC_PASSIVE
    \<and> evs = (if acc_use_monitor a then [Strategy Monitor_add, Start_read] else [Start_read])
    \<and> as_accepts (m_acceptor d) = cs @ [tmp] \<and> init_conn (Some p) = Inr tmp"
proof -
  have ok: "acceptor_ok (stop_calls evs) a" using acceptor_run_ok [where ap = "(init_acceptor, pool0)" and stops = "[]", OF _ assms(1)] acceptor_init_ok by simp
  then obtain q where q: "init_conn (Some q) = Inr c" "as_listening (m_acceptor a)"
    using assms(2) by (auto simp: acceptor_ok_def accepting_conns_def fresh_conn_def Let_def)
  obtain pool' where "new_conn (Some p) pool = Some (init_conn (Some p), pool')"
    using new_conn_some [OF assms(4,5)] by blast
  with q assms(2,3) show ?thesis
    by (auto simp: accept_completes_def accept_handled_def sync_accept_i_def put_accept_def asio_accept_def init_conn_def
        remote_open_def on_remote_open_def conn_view_of_def monitored_def strategy_event_def async_read_def)
qed

text \<open>One accept that fails ends the server: nothing waits for connections any more although the
  acceptor is still marked as started, and \<open>start\<close> does nothing but return 0. Only \<open>stop\<close>
  followed by \<open>start\<close> makes it accept again.\<close>

theorem failed_accept_is_final:
  assumes "m_started a" and "as_open (m_acceptor a)" and "as_accepts (m_acceptor a) = [c]" and "as_completed (m_acceptor a) = []"
    and "pool_ok pool'" and "0 < get_io_size pool'" and "listens env strategy'"
  shows "\<exists>b d. accept_completes True a = Some b \<and> accept_handled 0 strategy pool b = Some (d, pool, None)
    \<and> as_accepts (m_acceptor d) = [] \<and> as_completed (m_acceptor d) = [] \<and> m_started d
    \<and> acceptor_start env strategy' ip port um pool' d = Some (0, d, pool')
    \<and> (\<exists>e pool''. acceptor_start env strategy' ip port um pool' (acceptor_stop True d) = Some (0, e, pool'')
         \<and> as_accepts (m_acceptor e) \<noteq> [])"
proof -
  let ?d = "a\<lparr>m_acceptor := (m_acceptor a)\<lparr>as_accepts := [], as_completed := []\<rparr>\<rparr>"
  have "accept_completes True a = Some (a\<lparr>m_acceptor := (m_acceptor a)\<lparr>as_accepts := [], as_completed := [(c, True)]\<rparr>\<rparr>)"
    "accept_handled 0 strategy pool (a\<lparr>m_acceptor := (m_acceptor a)\<lparr>as_accepts := [], as_completed := [(c, True)]\<rparr>\<rparr>)
      = Some (?d, pool, None)"
    using assms(3,4) by (simp_all add: accept_completes_def accept_handled_def sync_accept_i_def)
  moreover have "acceptor_start env strategy' ip port um pool' ?d = Some (0, ?d, pool')"
    using assms(1) by (simp add: acceptor_start_def)
  moreover have "\<not> m_started (acceptor_stop True ?d)" "\<not> as_open (m_acceptor (acceptor_stop True ?d))"
    "as_accepts (m_acceptor (acceptor_stop True ?d)) = []" using assms(1,2) by (simp_all add: acceptor_ops)
  then obtain e pool'' where "acceptor_start env strategy' ip port um pool' (acceptor_stop True ?d) = Some (0, e, pool'')"
    "as_accepts (m_acceptor e) \<noteq> []"
    using start_closed [OF _ _ _ assms(5,6), of "acceptor_stop True ?d" env strategy' ip port um] assms(7) by blast
  ultimately show ?thesis using assms(1) by (intro exI conjI) simp_all
qed

text \<open>What goes wrong around \<open>stop\<close>. If \<open>cancel\<close> throws, the stopped acceptor stays open and goes on accepting: its accept
  completes, the connection is opened and the next accept waits. And if an accept has succeeded before the \<open>stop\<close> and its
  handler runs after the next \<open>start\<close>, two accepts wait from then on.\<close>

theorem stopped_acceptor_accepts:
  assumes "m_started a" and "as_listening (m_acceptor a)" and "as_accepts (m_acceptor a) = [c]"
    and "as_completed (m_acceptor a) = []" and "pool_ok pool" and "0 < get_io_size pool"
  shows "\<exists>b d pool' c'. accept_completes False (acceptor_stop False a) = Some b
    \<and> accept_handled 0 (Some p) pool b = Some (d, pool', Some c') \<and> m_status (fst c') = RPC_CONNECTED
    \<and> \<not> m_started d \<and> as_accepts (m_acceptor d) \<noteq> []"
proof -
  obtain pool' where "new_conn (Some p) pool = Some (init_conn (Some p), pool')"
    using new_conn_some [OF assms(5,6)] by blast
  with assms(1-4) show ?thesis
    by (simp add: acceptor_ops init_conn_def remote_open_def split_beta Let_def)
qed

theorem restarted_acceptor_accepts_twice:
  assumes "m_started a" and "as_open (m_acceptor a)" and "as_accepts (m_acceptor a) = [c]"
    and "as_completed (m_acceptor a) = []" and "pool_ok pool" and "0 < get_io_size pool" and "listens env (Some p)"
  shows "\<exists>b pool'. acceptor_run [Acc_complete False, Acc_stop True, Acc_start env (Some p) ip port um, Acc_handle 0 (Some p)] (a, pool)
      = Some (b, pool') \<and> length (as_accepts (m_acceptor b)) = 2"
proof -
  obtain p1 where p1: "get_io_service pool = Some (unat (m_next_io_service pool) mod get_io_size pool, p1)" "pool_ok p1"
    "get_io_size p1 = get_io_size pool"
    using get_io_service_some [OF assms(5,6)] get_io_service_ok [OF assms(5,6)] by auto
  obtain s2 p2 where p2: "get_io_service p1 = Some (s2, p2)"
    using get_io_service_some [OF p1(2)] assms(6) p1(3) by auto
  show ?thesis using assms(1-4,7) p1(1) p2
    by (simp add: acceptor_ops listens_def init_conn_def Let_def)
qed

section \<open>Functions run on the server's service\<close>

fun calls_on :: "nat \<Rightarrow> ('a, 's) io_happening list \<Rightarrow> ('a \<times> ('a \<Rightarrow> 's \<Rightarrow> 's)) list" where
  "calls_on io [] = []"
| "calls_on io (Do_call sv f args # hs) = (if server_get_io sv = io then [(args, f)] else []) @ calls_on io hs"
| "calls_on io (Io_turn _ # hs) = calls_on io hs"

definition turns_of :: "nat \<Rightarrow> ('a, 's) io_happening list \<Rightarrow> nat" where
  "turns_of io hs = length (filter (\<lambda>h. h = Io_turn io) hs)"

fun call_of :: "('a, 's) io_task \<Rightarrow> 'a \<times> ('a \<Rightarrow> 's \<Rightarrow> 's)" where
  "call_of (Handle_do f args) = (args, f)"

definition apply_call :: "'a \<times> ('a \<Rightarrow> 's \<Rightarrow> 's) \<Rightarrow> 's \<Rightarrow> 's" where
  "apply_call c s = snd c (fst c) s"

lemma io_history_queue:
  fixes io :: nat
  assumes "io_history hs (qs, s) = Some (qs', s')"
  defines "cs \<equiv> map call_of (qs io) @ calls_on io hs"
  shows "turns_of io hs \<le> length cs \<and> map call_of (qs' io) = drop (turns_of io hs) cs
    \<and> ((\<forall>io'. io' \<noteq> io \<longrightarrow> turns_of io' hs = 0) \<longrightarrow> s' = fold apply_call (take (turns_of io hs) cs) s)"
  using assms(1) unfolding cs_def
proof (induction hs "(qs, s)" arbitrary: qs s rule: io_history.induct)
  case (2 sv f args hs)
  then show ?case by (auto simp: server_async_do_def server_get_io_def turns_of_def)
next
  case (3 io' hs)
  from 3(2) obtain f args ts where ts: "qs io' = Handle_do f args # ts"
    by (auto simp: bind_eq_Some_conv split: list.splits io_task.splits)
  have run: "run_io io' (qs, s) = Some (qs(io' := ts), handle_do f args s)" using ts by simp
  with 3(2) have "io_history hs (qs(io' := ts), handle_do f args s) = Some (qs', s')" by simp
  note IH = 3(1) [OF run this]
  show ?case
  proof (cases "io' = io")
    case True
    then have "turns_of io (Io_turn io' # hs) = Suc (turns_of io hs)" "turns_of k hs \<le> turns_of k (Io_turn io' # hs)" for k
      by (simp_all add: turns_of_def)
    with IH ts True show ?thesis by (auto simp: handle_do_def apply_call_def turns_of_def)
  next
    case False
    then have "turns_of io (Io_turn io' # hs) = turns_of io hs" "turns_of io' (Io_turn io' # hs) \<noteq> 0"
      by (simp_all add: turns_of_def)
    with IH False show ?thesis by (auto simp: turns_of_def)
  qed
qed (simp add: turns_of_def)

text \<open>\<open>async_do\<close>: each service runs the functions given to the servers on it, each once, in the order of the
  calls and with the arguments of the call; those that have not run yet wait in that order. A service's functions never run
  because another service has a turn.\<close>

theorem async_do_in_order:
  assumes "io_history hs (\<lambda>_. [], s) = Some (qs, s')"
  shows "turns_of io hs \<le> length (calls_on io hs) \<and> map call_of (qs io) = drop (turns_of io hs) (calls_on io hs)
    \<and> ((\<forall>io'. io' \<noteq> io \<longrightarrow> turns_of io' hs = 0) \<longrightarrow> s' = fold apply_call (take (turns_of io hs) (calls_on io hs)) s)"
  using io_history_queue [OF assms, of io] by simp

section \<open>Instances\<close>

definition good_env :: listen_env where
  "good_env = \<lparr>resolve_ok = True, open_ok = True, option_ok = True, bind_ok = True, listen_ok = True\<rparr>"

lemma two_services_ok: "pool_ok two_services" "0 < get_io_size two_services"
  using pool.inv_reach [OF two_services_reach] by (simp_all add: two_services_def get_io_size_def)

definition listening :: acceptor where
  "listening = \<lparr>m_acceptor = \<lparr>as_open = True, as_bound = True, as_listening = True,
     as_accepts = [projr (init_conn (Some init_proto))], as_completed = []\<rparr>, m_ip = ''0.0.0.0'', m_port = ''80'',
     acc_use_monitor = True, m_started = True\<rparr>"

abbreviation start_listening :: acceptor_event where
  "start_listening \<equiv> Acc_start good_env (Some init_proto) ''0.0.0.0'' ''80'' True"

lemma listening_run: "\<exists>pool. acceptor_run [start_listening] (init_acceptor, two_services) = Some (listening, pool)
    \<and> pool_ok pool \<and> 0 < get_io_size pool"
proof -
  obtain s pool where pool: "get_io_service two_services = Some (s, pool)" "pool_ok pool" "get_io_size pool = get_io_size two_services"
    using get_io_service_some [OF two_services_ok] by blast
  then have "acceptor_run [start_listening] (init_acceptor, two_services) = Some (listening, pool)"
    by (simp add: acceptor_ops good_env_def init_acceptor_def closed_acceptor_def listening_def init_conn_def Let_def)
  with pool(2,3) two_services_ok(2) show ?thesis by auto
qed

lemma listening_state: "m_started listening" "as_open (m_acceptor listening)" "as_listening (m_acceptor listening)"
  "as_accepts (m_acceptor listening) = [projr (init_conn (Some init_proto))]" "as_completed (m_acceptor listening) = []"
  "acc_use_monitor listening"
  by (simp_all add: listening_def)

lemma good_env_listens: "listens good_env (Some p)"
  by (simp add: listens_def good_env_def)

text \<open>The bound is reached: an accept has succeeded before the \<open>stop\<close>, and is handled after the next \<open>start\<close>.\<close>

theorem acceptor_states_witness:
  "\<exists>a pool'. acceptor_run [start_listening, Acc_complete False, Acc_stop True, start_listening, Acc_handle 0 (Some init_proto)]
      (init_acceptor, two_services) = Some (a, pool')
    \<and> live_accepts a \<le> 2 \<and> length (as_accepts (m_acceptor a)) = 2 \<and> as_listening (m_acceptor a)"
proof -
  obtain pool where pool: "acceptor_run [start_listening] (init_acceptor, two_services) = Some (listening, pool)" "pool_ok pool"
    "0 < get_io_size pool" using listening_run by blast
  obtain b pool' where b: "acceptor_run [Acc_complete False, Acc_stop True, start_listening, Acc_handle 0 (Some init_proto)]
      (listening, pool) = Some (b, pool')" "length (as_accepts (m_acceptor b)) = 2"
    using restarted_acceptor_accepts_twice [OF listening_state(1,2,4,5) pool(2,3) good_env_listens] by blast
  have run: "acceptor_run [start_listening, Acc_complete False, Acc_stop True, start_listening, Acc_handle 0 (Some init_proto)]
      (init_acceptor, two_services) = Some (b, pool')"
    using pool(1) b(1) by (auto simp: bind_eq_Some_conv simp del: acceptor_do.simps)
  from acceptor_states [OF run] b(2) have "live_accepts b \<le> 2" "as_listening (m_acceptor b)"
    by (auto split: if_splits)
  with run b(2) show ?thesis by blast
qed

theorem listen_hides_failure_witness:
  "\<exists>acc pool'. server_listen (good_env\<lparr>bind_ok := False\<rparr>) (\<lambda>_. init_proto) ''0.0.0.0'' ''80'' False two_services
      (new_server_on 0) = Some (0, (new_server_on 0)\<lparr>m_sp_acc := Some acc\<rparr>, pool')
    \<and> m_started acc \<and> as_accepts (m_acceptor acc) = []"
  using listen_hides_failure [of two_services "new_server_on 0" "good_env\<lparr>bind_ok := False\<rparr>" "\<lambda>_. init_proto"
      "''0.0.0.0''" "''80''" False] two_services_ok
  by (simp add: listens_def new_server_on_def) blast

theorem accept_opens_connection_witness:
  "\<exists>b pool d pool' c' evs. accept_completes False listening = Some b
    \<and> accept_handled 0 (Some init_proto) pool b = Some (d, pool', Some (c', evs))
    \<and> m_status c' = RPC_CONNECTED \<and> evs = [Strategy Monitor_add, Start_read]"
proof -
  obtain pool where pool: "acceptor_run [start_listening] (init_acceptor, two_services) = Some (listening, pool)" "pool_ok pool"
    "0 < get_io_size pool" using listening_run by blast
  show ?thesis using accept_opens_connection [OF pool(1) listening_state(4,5) pool(2,3), of init_proto] listening_state(6)
    by fastforce
qed

theorem failed_accept_is_final_witness:
  "\<exists>b d. accept_completes True listening = Some b \<and> accept_handled 0 (Some init_proto) two_services b = Some (d, two_services, None)
    \<and> as_accepts (m_acceptor d) = [] \<and> m_started d"
  using failed_accept_is_final [OF listening_state(1,2,4,5) two_services_ok good_env_listens,
      of "Some init_proto" two_services init_proto "''0.0.0.0''" "''80''" False] by blast

theorem stopped_acceptor_accepts_witness:
  "\<exists>b d pool' c'. accept_completes False (acceptor_stop False listening) = Some b
    \<and> accept_handled 0 (Some init_proto) two_services b = Some (d, pool', Some c') \<and> as_accepts (m_acceptor d) \<noteq> []"
  using stopped_acceptor_accepts [OF listening_state(1,3,4,5) two_services_ok, of init_proto] by blast

theorem restarted_acceptor_accepts_twice_witness:
  "\<exists>b pool'. acceptor_run [Acc_complete False, Acc_stop True, start_listening, Acc_handle 0 (Some init_proto)]
      (listening, two_services) = Some (b, pool') \<and> length (as_accepts (m_acceptor b)) = 2"
  using restarted_acceptor_accepts_twice [OF listening_state(1,2,4,5) two_services_ok good_env_listens] by blast

definition do_twice :: "(int, int list) io_happening list" where
  "do_twice = [Do_call (new_server_on 0) (#) 5, Do_call (new_server_on 1) (#) 6, Do_call (new_server_on 0) (#) 7,
     Io_turn 0, Io_turn 0]"

lemma do_twice_run: "io_history do_twice (\<lambda>_. [], [])
    = Some ((\<lambda>_. [])(0 := [], 1 := [Handle_do (#) 6]), [7, 5])"
  by (simp add: do_twice_def server_async_do_def handle_do_def new_server_on_def fun_upd_twist)

theorem async_do_in_order_witness:
  "turns_of 0 do_twice \<le> length (calls_on 0 do_twice) \<and> [7, 5] = fold apply_call (take 2 (calls_on 0 do_twice)) []"
proof -
  have "turns_of 0 do_twice = 2" "\<forall>io'. io' \<noteq> 0 \<longrightarrow> turns_of io' do_twice = 0"
    by (simp_all add: turns_of_def do_twice_def)
  with async_do_in_order [OF do_twice_run, of 0] show ?thesis by simp
qed

end
