(* ===== verification/ConnTracking.thy ===== *)
theory ConnTracking
  imports ConnMonitor RpcServer
begin

text \<open>
  The connections of a process together with the one connection monitor: the protocol objects of accepted connections
  tell the monitor of their beats (rpc\_common\_conn\_protocol.cpp), the monitor closes connections through its callback
  (rpc\_conn\_monitor.cpp), and the connections, the monitor's thread and its timer take turns in any order.

  A connection is a number, the identity of the object that the shared pointers point to; a pointer that the monitor holds
  keeps the object alive, so the number is not reused. \<open>sync_close_i\<close> is defined nowhere in the repository; of the
  parameter \<open>sc\<close> that stands for it, \<open>closes\<close> says that it disconnects, and calls \<open>on_closed\<close> of the strategy of a connection
  that was not disconnected. What the monitor hears of a close comes from the repository's \<open>on_closed\<close>.
\<close>

section \<open>The system\<close>

type_synonym conn_id = nat

record system =
  sy_conns :: "conn_id \<rightharpoonup> world"
  sy_monitor :: "conn_id conn_monitor"
  sy_clock :: int

text \<open>The protocol object's calls of the monitor.\<close>

definition hear :: "conn_id asyn_ops \<Rightarrow> conn_id \<Rightarrow> proto_event \<Rightarrow> conn_id conn_monitor \<Rightarrow> conn_id conn_monitor" where
  "hear asyn e ev m = (case ev of
      Monitor_add \<Rightarrow> monitor_add asyn e m
    | Monitor_update \<Rightarrow> monitor_update asyn e m
    | Monitor_del \<Rightarrow> monitor_del asyn e m
    | _ \<Rightarrow> m)"

text \<open>The acceptor hands a connection over.\<close>

definition sys_accept :: "conn_id asyn_ops \<Rightarrow> conn_id \<Rightarrow> bool \<Rightarrow> proto \<Rightarrow> system \<Rightarrow> system option" where
  "sys_accept asyn e use_monitor p st = (case sy_conns st e of
      Some _ \<Rightarrow> None
    | None \<Rightarrow> (let w = accepted_world use_monitor p
       in Some (st\<lparr>sy_conns := (sy_conns st)(e \<mapsto> w), sy_monitor := fold (hear asyn e) (w_posted w) (sy_monitor st)\<rparr>)))"

text \<open>Something happens to a connection.\<close>

definition sys_conn :: "conn_id asyn_ops \<Rightarrow> (bool \<Rightarrow> conn \<Rightarrow> conn) \<Rightarrow> (rpc_close_type \<Rightarrow> conn \<Rightarrow> conn \<times> conn_event list)
    \<Rightarrow> conn_id \<Rightarrow> happening \<Rightarrow> system \<Rightarrow> system option" where
  "sys_conn asyn sws sc e h st = do {
     w \<leftarrow> sy_conns st e;
     w' \<leftarrow> happen sws sc h w;
     Some (st\<lparr>sy_conns := (sy_conns st)(e \<mapsto> w'), sy_monitor := fold (hear asyn e) (new_events w w') (sy_monitor st)\<rparr>)
   }"

text \<open>The monitor's callback calls \<open>close\<close> of the connection, with \<open>RPC_CLOSE\<close>.\<close>

definition close_one :: "conn_id \<Rightarrow> (conn_id \<rightharpoonup> world) \<Rightarrow> (conn_id \<rightharpoonup> world)" where
  "close_one e cs = (case cs e of None \<Rightarrow> cs | Some w \<Rightarrow> cs(e \<mapsto> absorb (close_conn RPC_CLOSE) w))"

definition sys_turn :: "conn_id allocator \<Rightarrow> int \<Rightarrow> system \<Rightarrow> system option" where
  "sys_turn construct now st = (if now < sy_clock st then None else do {
     m \<leftarrow> monitor_turn construct now (sy_monitor st);
     Some (st\<lparr>sy_conns := fold close_one (drop (length (mon_closed (sy_monitor st))) (mon_closed m)) (sy_conns st),
       sy_monitor := m, sy_clock := now\<rparr>)
   })"

definition sys_timer :: "int \<Rightarrow> system \<Rightarrow> system option" where
  "sys_timer now st = (if now < sy_clock st then None else do {
     s \<leftarrow> timer_turn now (mon_service (sy_monitor st));
     Some (st\<lparr>sy_monitor := (sy_monitor st)\<lparr>mon_service := s\<rparr>, sy_clock := now\<rparr>)
   })"

definition sys_close_all :: "system \<Rightarrow> system" where
  "sys_close_all st = st\<lparr>sy_monitor := monitor_close_all (sy_monitor st)\<rparr>"

primrec sys_turns :: "conn_id allocator \<Rightarrow> int \<Rightarrow> nat \<Rightarrow> system \<Rightarrow> system option" where
  "sys_turns construct now 0 st = Some st"
| "sys_turns construct now (Suc n) st = Option.bind (sys_turn construct now st) (sys_turns construct now n)"

text \<open>The monitor started with its default setting: no timeout, 50000 connections.\<close>

definition started_system :: "(ptr \<Rightarrow> conn_id list) \<Rightarrow> bool \<Rightarrow> int \<Rightarrow> system" where
  "started_system vts garbage now =
     \<lparr>sy_conns = (\<lambda>_. None), sy_monitor = start_monitor now None (init_monitor vts garbage), sy_clock = now\<rparr>"

inductive sys_step :: "conn_id allocator \<Rightarrow> conn_id asyn_ops \<Rightarrow> (bool \<Rightarrow> conn \<Rightarrow> conn)
    \<Rightarrow> (rpc_close_type \<Rightarrow> conn \<Rightarrow> conn \<times> conn_event list) \<Rightarrow> system \<Rightarrow> system \<Rightarrow> bool"
  for construct asyn sws sc where
  on_accept: "sys_accept asyn e um p st = Some st' \<Longrightarrow> sys_step construct asyn sws sc st st'"
| on_conn: "sys_conn asyn sws sc e h st = Some st' \<Longrightarrow> sys_step construct asyn sws sc st st'"
| on_turn: "sys_turn construct now st = Some st' \<Longrightarrow> clock_ok now \<Longrightarrow> sys_step construct asyn sws sc st st'"
| on_timer: "sys_timer now st = Some st' \<Longrightarrow> clock_ok now \<Longrightarrow> sys_step construct asyn sws sc st st'"

section \<open>What a connection tells the monitor\<close>

text \<open>What is taken of \<open>sync_close_i\<close>: it disconnects, it leaves the kind of the connection as it is, and a connection that
  was not disconnected it reports to its strategy.\<close>

definition closes :: "(rpc_close_type \<Rightarrow> conn \<Rightarrow> conn \<times> conn_event list) \<Rightarrow> bool" where
  "closes sc \<longleftrightarrow> reports_close sc \<and> (\<forall>type c. let (c', evs) = sc type c in
     m_status c' = RPC_DISCONNECTED \<and> conn_view_of c' = conn_view_of c
     \<and> (m_status c \<noteq> RPC_DISCONNECTED \<longrightarrow> (m_strategy c', strategy_calls evs) = on_closed (conn_view_of c) (m_strategy c)))"

lemma closesD:
  assumes "closes sc" and "sc type c = (c', evs)"
  shows "m_status c' = RPC_DISCONNECTED" "conn_view_of c' = conn_view_of c"
    "m_status c \<noteq> RPC_DISCONNECTED \<Longrightarrow> (m_strategy c', strategy_calls evs) = on_closed (conn_view_of c) (m_strategy c)"
    "(m_strategy c', strategy_calls evs) = (m_strategy c, [])
      \<or> (m_strategy c', strategy_calls evs) = on_closed (conn_view_of c) (m_strategy c)"
  using assms(1) [unfolded closes_def, THEN conjunct2, THEN spec, of type, THEN spec, of c] assms(2)
    reports_closeD [of sc type c c' evs] assms(1) by (simp_all add: closes_def)

definition open_conn :: "world \<Rightarrow> bool" where
  "open_conn w \<longleftrightarrow> m_status (w_conn w) \<noteq> RPC_DISCONNECTED \<and> monitored (conn_view_of (w_conn w))"

text \<open>How a connection and what it posts go together: it is never added again, it stays the kind of connection it is,
  once it is forgotten it is disconnected, and when it ceases to be open it is forgotten.\<close>

definition tells :: "conn \<Rightarrow> conn \<Rightarrow> proto_event list \<Rightarrow> bool" where
  "tells c c' evs \<longleftrightarrow> Monitor_add \<notin> set evs \<and> conn_view_of c' = conn_view_of c
     \<and> (Monitor_del \<in> set evs \<longrightarrow> m_status c' = RPC_DISCONNECTED)
     \<and> (if m_status c' = m_status c then True else m_status c' = RPC_DISCONNECTED
          \<and> (monitored (conn_view_of c) \<longrightarrow> Monitor_del \<in> set evs))"

declare absorb_conn [simp]

text \<open>A read tells the monitor of beats at most.\<close>

lemma read_loop_beats:
  assumes "read_loop cv data p = Some y"
  shows "Monitor_add \<notin> set (snd y) \<and> Monitor_del \<notin> set (snd y)"
  by (rule read_loop.raw_induct [where P = "\<lambda>cv data p y. Monitor_add \<notin> set (snd y) \<and> Monitor_del \<notin> set (snd y)",
        OF _ assms])
    (auto simp: bind_eq_Some_conv message_events_def split: if_splits prod.splits)

lemma tells_refl: "Monitor_add \<notin> set evs \<Longrightarrow> Monitor_del \<notin> set evs \<Longrightarrow> m_status c' = m_status c
    \<Longrightarrow> conn_view_of c' = conn_view_of c \<Longrightarrow> tells c c' evs"
  by (simp add: tells_def)

text \<open>\<open>on_closed\<close> asks the monitor to forget a monitored connection, and never to add one; and marks the object as broken.\<close>

lemma on_closed_tells:
  assumes "on_closed cv p = (q, evs)"
  shows "Monitor_add \<notin> set evs" "monitored cv \<Longrightarrow> Monitor_del \<in> set evs" "m_is_broken q"
  using assms by (auto simp: on_closed_def post_broken_msg_i_def Let_def split: if_splits)

lemma closes_tells:
  assumes "closes sc" and "sc type c = (c', evs)"
  shows "tells c c' (strategy_calls evs)"
proof -
  obtain q told where told: "on_closed (conn_view_of c) (m_strategy c) = (q, told)" by fastforce
  note law = closesD [OF assms, unfolded told]
  from law(4) on_closed_tells(1) [OF told] have "Monitor_add \<notin> set (strategy_calls evs)" by auto
  moreover have "monitored (conn_view_of c) \<Longrightarrow> Monitor_del \<in> set (strategy_calls evs)" if "m_status c \<noteq> RPC_DISCONNECTED"
    using law(3) [OF that] on_closed_tells(2) [OF told] by simp
  ultimately show ?thesis using law(1,2) by (auto simp: tells_def)
qed

lemma tells_before: "tells c0 c' evs \<Longrightarrow> m_status c0 = m_status c \<Longrightarrow> conn_view_of c0 = conn_view_of c \<Longrightarrow> tells c c' evs"
  by (simp add: tells_def)

lemma conn_view_updates [simp]:
  "conn_view_of (c\<lparr>m_write_queue := q\<rparr>) = conn_view_of c" "conn_view_of (c\<lparr>m_is_writing := b\<rparr>) = conn_view_of c"
  "conn_view_of (c\<lparr>m_total_wait_write := n\<rparr>) = conn_view_of c" "conn_view_of (c\<lparr>m_strategy := p\<rparr>) = conn_view_of c"
  by (simp_all add: conn_view_of_def)

lemma sync_write_tells:
  assumes "sets_flag sws" and "sync_write_i sws data c = (c', evs)"
  shows "tells c c' (strategy_calls evs)"
  using assms
  by (auto simp: sync_write_i_def start_sending_buffer_i_def sets_flag_def Let_def split: if_splits list.splits
      intro!: tells_refl)

lemma on_error_tells:
  assumes "closes sc" and "(if \<not> has_status RPC_DISCONNECTED c then sc RPC_CLOSE c else (c, [])) = (c', evs)"
  shows "tells c c' (strategy_calls evs)"
  using assms closes_tells [OF assms(1)] by (auto split: if_splits intro: tells_refl)

lemma write_complete_tells:
  assumes "sets_flag sws" and "closes sc" and "write_complete_i sws sc err n c = Some (c', evs)"
  shows "tells c c' (strategy_calls evs)"
proof -
  obtain buf rest where q: "m_write_queue c = buf # rest"
    using assms(1,3) by (auto simp: write_complete_i_def sets_flag_def Let_def split: list.splits)
  let ?c = "c\<lparr>m_is_writing := False, m_total_wait_write := m_total_wait_write c - of_nat n, m_write_queue := rest\<rparr>"
  have "tells ?c c' (strategy_calls evs)"
  proof (cases err)
    case True
    with assms(1,3) q have "(if \<not> has_status RPC_DISCONNECTED ?c then sc RPC_CLOSE ?c else (?c, [])) = (c', evs)"
      by (simp add: write_complete_i_def sets_flag_def Let_def)
    then show ?thesis by (rule on_error_tells [OF assms(2)])
  next
    case False
    with assms(1,3) q show ?thesis
      by (auto simp: write_complete_i_def start_sending_buffer_i_def sets_flag_def Let_def split: list.splits
          intro!: tells_refl)
  qed
  then show ?thesis by (rule tells_before) simp_all
qed

lemma read_complete_tells:
  assumes "closes sc" and "read_complete_i sc err data c = Some (c', evs)"
  shows "tells c c' (strategy_calls evs)"
proof (cases err)
  case True
  with assms(2) have "(if \<not> has_status RPC_DISCONNECTED c then sc RPC_CLOSE c else (c, [])) = (c', evs)"
    by (simp add: read_complete_i_def)
  then show ?thesis by (rule on_error_tells [OF assms(1)])
next
  case False
  with assms(2) show ?thesis
    by (auto simp: read_complete_i_def on_read_def bind_eq_Some_conv strategy_calls_events close_conn_def
        strategy_event_def async_read_def dest!: read_loop_beats intro!: tells_refl split: if_splits)
qed

lemma happen_tells:
  assumes "sets_flag sws" and "closes sc" and "happen sws sc h w = Some w'"
  shows "w_posted w' = w_posted w @ new_events w w' \<and> tells (w_conn w) (w_conn w') (new_events w w')"
proof -
  note defs = happen_def async_write_def close_conn_def new_events_def absorb_posted
  show ?thesis
  proof (cases h)
    case Run_task
    with assms(3) obtain t ts c evs where t: "w_tasks w = t # ts"
      "(case t of Sync_write data \<Rightarrow> sync_write_i sws data (w_conn w) | Sync_close type \<Rightarrow> sc type (w_conn w)) = (c, evs)"
      "w' = absorb evs (w\<lparr>w_tasks := ts, w_conn := c\<rparr>)"
      by (auto simp: happen_def split: list.splits prod.splits)
    then have "tells (w_conn w) c (strategy_calls evs)"
      by (cases t) (auto intro: sync_write_tells [OF assms(1)] closes_tells [OF assms(2)])
    with t(3) show ?thesis by (simp add: defs)
  next
    case (Written err n)
    with assms(3) show ?thesis
      by (auto simp: defs bind_eq_Some_conv split: list.splits if_splits dest: write_complete_tells [OF assms(1,2)])
  next
    case (Received err data)
    with assms(3) show ?thesis
      by (auto simp: defs bind_eq_Some_conv split: if_splits dest: read_complete_tells [OF assms(2)])
  qed (use assms(3) in \<open>auto simp: defs intro: tells_refl\<close>)
qed

section \<open>What the monitor makes of it\<close>

text \<open>The tasks that an event of connection \<open>e\<close> queues at the monitor, and the calls of the manager they run.\<close>

definition event_tasks :: "conn_id \<Rightarrow> proto_event \<Rightarrow> conn_id svc_task list" where
  "event_tasks e ev = (case ev of Monitor_add \<Rightarrow> [Task_add e] | Monitor_update \<Rightarrow> [Task_update e]
     | Monitor_del \<Rightarrow> [Task_del e] | _ \<Rightarrow> [])"

definition queue_tasks :: "conn_id svc_task list \<Rightarrow> conn_id conn_monitor \<Rightarrow> conn_id conn_monitor" where
  "queue_tasks ts m = m\<lparr>mon_service := (mon_service m)\<lparr>s_tasks := s_tasks (mon_service m) @ ts\<rparr>\<rparr>"

lemma queue_tasks_simps [simp]:
  "queue_tasks [] m = m" "queue_tasks ts' (queue_tasks ts m) = queue_tasks (ts @ ts') m"
  "mon_started (queue_tasks ts m) = mon_started m" "mon_closed (queue_tasks ts m) = mon_closed m"
  "s_tasks (mon_service (queue_tasks ts m)) = s_tasks (mon_service m) @ ts"
  "s_manager (mon_service (queue_tasks ts m)) = s_manager (mon_service m)"
  "s_thread_runs (mon_service (queue_tasks ts m)) = s_thread_runs (mon_service m)"
  by (simp_all add: queue_tasks_def)

lemma hear_queues:
  "mon_started m \<Longrightarrow> meant_for_async asyn \<Longrightarrow> hear asyn e ev m = queue_tasks (event_tasks e ev) m"
  by (simp add: hear_def event_tasks_def monitor_add_def monitor_update_def monitor_del_def meant_for_async_def
      async_add_element_def async_update_element_def async_del_element_def post_def queue_tasks_def
      split: proto_event.split)

lemma hear_all_queues:
  "mon_started m \<Longrightarrow> meant_for_async asyn
    \<Longrightarrow> fold (hear asyn e) evs m = queue_tasks (concat (map (event_tasks e) evs)) m"
  by (induction evs arbitrary: m) (simp_all add: hear_queues)

text \<open>The connections that the monitor will hold: a call changes them like this, without a limit or a timeout.\<close>

fun track :: "'e mgr_call \<Rightarrow> 'e set \<Rightarrow> 'e set" where
  "track (Add e) A = insert e A"
| "track (Update e) A = A"
| "track (Del e) A = A - {e}"
| "track Handle_timeout A = A"

fun call_subject :: "'e mgr_call \<Rightarrow> 'e set" where
  "call_subject (Add e) = {e}"
| "call_subject (Update e) = {e}"
| "call_subject (Del e) = {e}"
| "call_subject Handle_timeout = {}"

definition task_calls :: "'e svc_task list \<Rightarrow> 'e mgr_call list" where
  "task_calls ts = map (\<lambda>t. the (task_call t)) ts"

lemma task_calls_simps [simp]:
  "task_calls [] = []" "task_calls (ts @ ts') = task_calls ts @ task_calls ts'"
  "task_calls (t # ts) = the (task_call t) # task_calls ts"
  by (simp_all add: task_calls_def)

text \<open>With room for all of them and no timeout, the reference manager makes the same change, and fires nothing.\<close>

lemma elements_but: "ed_element ` {x \<in> A. ed_element x \<noteq> e} = ed_element ` A - {e}"
  by auto

lemma spec_call_tracks:
  assumes "spec_mgr_call (Some lim) None now c xs = (r, ys, fired)" and "distinct (map ed_element xs)"
    and "ed_element ` set xs \<union> call_subject c \<subseteq> A" and "finite A" and "card A \<le> lim"
  shows "ed_element ` set ys = track c (ed_element ` set xs) \<and> fired = [] \<and> ed_element ` set ys \<subseteq> A
    \<and> distinct (map ed_element ys)"
proof (cases c)
  case (Add e)
  show ?thesis
  proof (cases "e \<in> ed_element ` set xs")
    case False
    have "card (ed_element ` set xs) = length xs"
      using distinct_card [OF assms(2)] by simp
    moreover have "card (insert e (ed_element ` set xs)) \<le> card A"
      using assms(3,4) Add by (intro card_mono) auto
    ultimately have "\<not> over_limit (Some lim) (length xs)"
      using False assms(5) by (simp add: over_limit_def)
    with False assms(1-3) Add show ?thesis by (auto simp: stamped_def image_subset_iff)
  qed (use assms(1-3) Add in auto)
next
  case (Update e)
  with assms(1-3) show ?thesis
    by (auto simp: stamped_def elements_but insert_absorb image_subset_iff distinct_map_filter split: if_splits)
next
  case (Del e)
  with assms(1-3) show ?thesis
    by (auto simp: elements_but distinct_map_filter split: if_splits)
qed (use assms(1-3) in auto)

lemma spec_history_tracks:
  assumes "spec_history (Some lim) None (at_once now ts) xs = (rs, ys, fired)" and "distinct (map ed_element xs)"
    and "ed_element ` set xs \<subseteq> A" and "\<forall>t \<in> set ts. call_subject (the (task_call t)) \<subseteq> A"
    and "finite A" and "card A \<le> lim"
  shows "ed_element ` set ys = fold track (task_calls ts) (ed_element ` set xs) \<and> fired = []
    \<and> distinct (map ed_element ys)"
  using assms(1-4)
proof (induction ts arbitrary: xs rs fired)
  case Nil
  then show ?case by (simp add: at_once_def)
next
  case (Cons t ts)
  obtain r zs f1 where z: "spec_mgr_call (Some lim) None now (the (task_call t)) xs = (r, zs, f1)"
    by (cases "spec_mgr_call (Some lim) None now (the (task_call t)) xs")
  with Cons.prems(1) obtain rs' f2 where rest: "spec_history (Some lim) None (at_once now ts) zs = (rs', ys, f2)"
    "fired = f1 @ f2" by (auto simp: at_once_def split: prod.splits)
  have "ed_element ` set xs \<union> call_subject (the (task_call t)) \<subseteq> A" using Cons.prems(3,4) by simp
  note one = spec_call_tracks [OF z Cons.prems(2) this assms(5,6)]
  then have "distinct (map ed_element zs)" "ed_element ` set zs \<subseteq> A" by blast+
  note IH = Cons.IH [OF rest(1) this]
  from one rest(2) IH Cons.prems(4) show ?case by simp
qed

lemma track_tasks_event:
  "fold track (task_calls (event_tasks e ev)) A
    = (case ev of Monitor_add \<Rightarrow> insert e A | Monitor_del \<Rightarrow> A - {e} | _ \<Rightarrow> A)"
  by (simp add: event_tasks_def split: proto_event.split)

lemma track_tasks_events:
  assumes "Monitor_add \<notin> set evs"
  shows "fold track (task_calls (concat (map (event_tasks e) evs))) A = (if Monitor_del \<in> set evs then A - {e} else A)"
  using assms by (induction evs arbitrary: A) (auto simp: track_tasks_event split: proto_event.split)

lemma event_tasks_plain: "t \<in> set (event_tasks e ev) \<Longrightarrow>
    \<exists>c. task_call t = Some c \<and> call_subject c = {e} \<and> \<not> is_timeout t"
  by (auto simp: event_tasks_def split: proto_event.splits)

section \<open>The invariant\<close>

definition open_conns :: "system \<Rightarrow> conn_id set" where
  "open_conns st = {e. \<exists>w. sy_conns st e = Some w \<and> open_conn w}"

text \<open>The monitor holds \<open>xs\<close>, and after the queued tasks it will hold the open connections.\<close>

definition follows :: "system \<Rightarrow> conn_id element_data list \<Rightarrow> bool" where
  "follows st xs \<longleftrightarrow> (let s = mon_service (sy_monitor st) in
     in_use (sy_clock st) (s_manager s) xs \<and> ed_element ` set xs \<subseteq> dom (sy_conns st)
     \<and> fold track (task_calls (s_tasks s)) (ed_element ` set xs) = open_conns st)"

definition tracking :: "nat \<Rightarrow> system \<Rightarrow> bool" where
  "tracking lim st \<longleftrightarrow> (let m = sy_monitor st; s = mon_service m in
     mon_started m \<and> monitor_ok m \<and> s_thread_runs s \<and> plain_tasks s
     \<and> limit_of (s_manager s) = Some lim \<and> timeout_of (s_manager s) = None \<and> lim + 1 < 2 ^ 64
     \<and> finite (dom (sy_conns st)) \<and> (\<forall>c \<in> set (queued_calls s). call_subject c \<subseteq> dom (sy_conns st))
     \<and> (card (dom (sy_conns st)) \<le> lim \<longrightarrow> (\<exists>xs. follows st xs)))"

lemma trackingE:
  assumes "tracking lim st"
  obtains "mon_started (sy_monitor st)" "monitor_ok (sy_monitor st)" "s_thread_runs (mon_service (sy_monitor st))"
    "plain_tasks (mon_service (sy_monitor st))" "limit_of (s_manager (mon_service (sy_monitor st))) = Some lim"
    "timeout_of (s_manager (mon_service (sy_monitor st))) = None" "lim + 1 < 2 ^ 64" "finite (dom (sy_conns st))"
    "\<forall>c \<in> set (queued_calls (mon_service (sy_monitor st))). call_subject c \<subseteq> dom (sy_conns st)"
    "card (dom (sy_conns st)) \<le> lim \<longrightarrow> (\<exists>xs. follows st xs)"
  using assms unfolding tracking_def Let_def by (elim conjE) (rule that; assumption)

lemma queue_ok:
  assumes "monitor_ok m" and "mon_started m" and "\<forall>t \<in> set ts. task_call t \<noteq> None \<and> \<not> is_timeout t"
  shows "monitor_ok (queue_tasks ts m)"
proof -
  have "Task_stop_service \<notin> set ts" using assms(3) by auto
  moreover have "filter is_timeout ts = []" using assms(3) by (simp add: filter_empty_conv)
  ultimately show ?thesis using assms(1,2) by (auto simp: monitor_ok_def queue_tasks_def svc_ok_def passes_def)
qed

lemma queue_plain: "plain_tasks (mon_service m) \<Longrightarrow> \<forall>t \<in> set ts. task_call t \<noteq> None
    \<Longrightarrow> plain_tasks (mon_service (queue_tasks ts m))"
  by (auto simp: plain_tasks_def)

text \<open>A connection \<open>e\<close> gets a new state and posts events.\<close>

lemma tracking_events:
  assumes "tracking lim st" and "meant_for_async asyn"
    and "open_conns st' = fold track (task_calls (concat (map (event_tasks e) evs))) (open_conns st)"
    and "st' = st\<lparr>sy_conns := (sy_conns st)(e \<mapsto> w'), sy_monitor := fold (hear asyn e) evs (sy_monitor st)\<rparr>"
  shows "tracking lim st'"
proof -
  let ?ts = "concat (map (event_tasks e) evs)"
  have ts: "\<forall>t \<in> set ?ts. task_call t \<noteq> None \<and> \<not> is_timeout t \<and> call_subject (the (task_call t)) = {e}"
    using event_tasks_plain by fastforce
  from assms(1) show ?thesis
  proof (rule trackingE)
    assume st: "mon_started (sy_monitor st)" "monitor_ok (sy_monitor st)" "s_thread_runs (mon_service (sy_monitor st))"
      "plain_tasks (mon_service (sy_monitor st))" "limit_of (s_manager (mon_service (sy_monitor st))) = Some lim"
      "timeout_of (s_manager (mon_service (sy_monitor st))) = None" "lim + 1 < 2 ^ 64" "finite (dom (sy_conns st))"
      "\<forall>c \<in> set (queued_calls (mon_service (sy_monitor st))). call_subject c \<subseteq> dom (sy_conns st)"
      "card (dom (sy_conns st)) \<le> lim \<longrightarrow> (\<exists>xs. follows st xs)"
    have m: "sy_monitor st' = queue_tasks ?ts (sy_monitor st)"
      using assms(4) hear_all_queues [OF st(1) assms(2)] by simp
    have conns: "dom (sy_conns st') = insert e (dom (sy_conns st))" "sy_clock st' = sy_clock st"
      using assms(4) by simp_all
    have "\<exists>xs. follows st' xs" if small: "card (dom (sy_conns st')) \<le> lim"
    proof -
      have "card (dom (sy_conns st)) \<le> lim"
        using small st(8) conns(1) card_mono [OF finite.insertI [OF st(8)] subset_insertI, of e] by simp
      with st(10) obtain xs where "follows st xs" by blast
      then have "follows st' xs" using m conns assms(3) by (auto simp: follows_def Let_def)
      then show ?thesis ..
    qed
    moreover have "\<forall>c \<in> set (queued_calls (mon_service (sy_monitor st'))). call_subject c \<subseteq> dom (sy_conns st')"
      unfolding m conns queue_tasks_simps queued_calls_def map_append set_append ball_Un
      using st(9) [unfolded queued_calls_def] ts by auto
    moreover have "monitor_ok (sy_monitor st')" unfolding m by (rule queue_ok [OF st(2,1)]) (use ts in blast)
    moreover have "plain_tasks (mon_service (sy_monitor st'))" unfolding m by (rule queue_plain [OF st(4)]) (use ts in blast)
    ultimately show ?thesis using st m conns by (simp add: tracking_def)
  qed
qed

lemma accepted_tells:
  "w_posted (accepted_world um p) = (if um then [Monitor_add] else []) \<and> (open_conn (accepted_world um p) \<longleftrightarrow> um)"
  by (simp add: accepted_world_def remote_open_def init_conn_def on_remote_open_def absorb_posted
      strategy_calls_events open_conn_def monitored_def conn_view_of_def strategy_event_def async_read_def split_beta)

lemma open_conns_upd:
  assumes "st' = st\<lparr>sy_conns := (sy_conns st)(e \<mapsto> w'), sy_monitor := m\<rparr>"
  shows "open_conns st' = (if open_conn w' then insert e (open_conns st) else open_conns st - {e})"
  using assms by (auto simp: open_conns_def)

lemma sys_accept_tracking:
  assumes "tracking lim st" and "meant_for_async asyn" and "sys_accept asyn e um p st = Some st'"
  shows "tracking lim st'"
proof -
  let ?w = "accepted_world um p"
  from assms(3) have e: "sy_conns st e = None"
    and st': "st' = st\<lparr>sy_conns := (sy_conns st)(e \<mapsto> ?w), sy_monitor := fold (hear asyn e) (w_posted ?w) (sy_monitor st)\<rparr>"
    by (auto simp: sys_accept_def Let_def split: option.splits)
  have "e \<notin> open_conns st" using e by (simp add: open_conns_def)
  then have "open_conns st' = fold track (task_calls (concat (map (event_tasks e) (w_posted ?w)))) (open_conns st)"
    using open_conns_upd [OF st'] accepted_tells [of um p] by (simp add: track_tasks_event)
  from tracking_events [OF assms(1,2) this st'] show ?thesis .
qed

lemma sys_conn_tracking:
  assumes "tracking lim st" and "meant_for_async asyn" and "sets_flag sws" and "closes sc"
    and "sys_conn asyn sws sc e h st = Some st'"
  shows "tracking lim st'"
proof -
  obtain w w' where w: "sy_conns st e = Some w" "happen sws sc h w = Some w'"
    and st': "st' = st\<lparr>sy_conns := (sy_conns st)(e \<mapsto> w'), sy_monitor := fold (hear asyn e) (new_events w w') (sy_monitor st)\<rparr>"
    using assms(5) by (auto simp: sys_conn_def bind_eq_Some_conv)
  let ?evs = "new_events w w'"
  have t: "tells (w_conn w) (w_conn w') ?evs" using happen_tells [OF assms(3,4) w(2)] by simp
  have "e \<in> open_conns st \<longleftrightarrow> open_conn w" using w(1) by (simp add: open_conns_def)
  then have "open_conns st' = (if Monitor_del \<in> set ?evs then open_conns st - {e} else open_conns st)"
    using open_conns_upd [OF st'] t by (auto simp: open_conn_def tells_def split: if_splits)
  with track_tasks_events [of ?evs e "open_conns st"] t
  have "open_conns st' = fold track (task_calls (concat (map (event_tasks e) ?evs))) (open_conns st)"
    by (simp add: tells_def)
  from tracking_events [OF assms(1,2) this st'] show ?thesis .
qed

text \<open>Closing a connection from the callback only posts a task to it.\<close>

lemma close_one_all:
  "distinct es \<Longrightarrow> fold close_one es cs e
    = (if e \<in> set es then map_option (absorb (close_conn RPC_CLOSE)) (cs e) else cs e)"
  by (induction es arbitrary: cs) (auto simp: close_one_def split: option.split)

lemma close_all_same:
  "dom (fold close_one es cs) = dom cs
    \<and> {e. \<exists>w. fold close_one es cs e = Some w \<and> open_conn w} = {e. \<exists>w. cs e = Some w \<and> open_conn w}"
  by (induction es arbitrary: cs) (auto simp: close_one_def open_conn_def split: option.splits if_splits)

lemma queued_task_calls: "queued_calls s = task_calls (s_tasks s)"
  by (simp add: queued_calls_def task_calls_def)

lemma follows_length:
  assumes "follows st xs" and "finite (dom (sy_conns st))" and "card (dom (sy_conns st)) \<le> lim"
  shows "length xs \<le> lim" "distinct (map ed_element xs)"
proof -
  obtain ps where "mgr_wf (s_manager (mon_service (sy_monitor st))) ps" "view (s_manager (mon_service (sy_monitor st))) ps = xs"
    using assms(1) by (auto simp: follows_def in_use_def Let_def)
  then show d: "distinct (map ed_element xs)"
    using held_distinct mgr_wf_indexes mgr_wf_distinct unfolding view_def by metis
  have "card (ed_element ` set xs) = length xs" using distinct_card [OF d] by simp
  moreover have "card (ed_element ` set xs) \<le> card (dom (sy_conns st))"
    using assms(1,2) by (intro card_mono) (simp_all add: follows_def Let_def)
  ultimately show "length xs \<le> lim" using assms(3) by simp
qed

lemma sys_turn_tracking:
  assumes "tracking lim st" and "fresh_allocator construct" and "never_exhausted construct" and "clock_ok now"
    and "sys_turn construct now st = Some st'"
  shows "tracking lim st'"
  using assms(1)
proof (rule trackingE)
  let ?m = "sy_monitor st" and ?s = "mon_service (sy_monitor st)"
  assume st: "mon_started ?m" "monitor_ok ?m" "s_thread_runs ?s" "plain_tasks ?s"
    "limit_of (s_manager ?s) = Some lim" "timeout_of (s_manager ?s) = None" "lim + 1 < 2 ^ 64" "finite (dom (sy_conns st))"
    "\<forall>c \<in> set (queued_calls ?s). call_subject c \<subseteq> dom (sy_conns st)"
    "card (dom (sy_conns st)) \<le> lim \<longrightarrow> (\<exists>xs. follows st xs)"
  obtain m where m: "monitor_turn construct now ?m = Some m" "sy_clock st \<le> now" "sy_monitor st' = m" "sy_clock st' = now"
    "sy_conns st' = fold close_one (drop (length (mon_closed ?m)) (mon_closed m)) (sy_conns st)"
    using assms(5) by (auto simp: sys_turn_def bind_eq_Some_conv split: if_splits)
  obtain u where u: "thread_turn construct now ?s = Some u" "mon_service m = u" "mon_started m"
    using m(1) st(1) by (auto simp: monitor_turn_closes)
  have ok: "svc_ok ?s" using st(2) by (simp add: monitor_ok_def)
  obtain c where c: "queued_calls ?s = c # queued_calls u" "plain_tasks u" "s_thread_runs u"
    using plain_turn [OF ok st(4) u(1)] by blast
  then obtain t ts where t: "s_tasks ?s = t # ts" "task_call t = Some c"
    using st(4) by (cases "s_tasks ?s") (auto simp: queued_calls_def plain_tasks_def)
  have config: "limit_of (s_manager u) = Some lim" "timeout_of (s_manager u) = None"
    using grows_turn [OF u(1)] st(5,6) by (auto simp: grows_def limit_of_def timeout_of_def dest: effect_config split: if_splits)
  have same: "dom (sy_conns st') = dom (sy_conns st)" "open_conns st' = open_conns st"
    using close_all_same [of "drop (length (mon_closed ?m)) (mon_closed m)" "sy_conns st"] m(5)
    by (simp_all add: open_conns_def)
  have "\<exists>ys. follows st' ys" if "card (dom (sy_conns st')) \<le> lim"
  proof -
    have small: "card (dom (sy_conns st)) \<le> lim" using that same(1) by simp
    with st(10) obtain xs where xs: "follows st xs" by blast
    note len = follows_length [OF xs st(8) small]
    obtain r ys fired where y: "spec_mgr_call (Some lim) None now c xs = (r, ys, fired)"
      by (cases "spec_mgr_call (Some lim) None now c xs")
    have "ed_element ` set xs \<union> call_subject c \<subseteq> dom (sy_conns st)"
      using xs st(9) c(1) by (simp add: follows_def Let_def)
    note tr = spec_call_tracks [OF y len(2) this st(8) small]
    have "in_use (sy_clock st) (s_manager ?s) xs" using xs by (simp add: follows_def Let_def)
    from head_turn [OF ok st(3) t this m(2) assms(4) _ assms(2,3)] len(1) st(5-7) y u(1)
    have "in_use now (s_manager u) ys" by auto
    moreover have "fold track (queued_calls u) (ed_element ` set ys) = open_conns st"
      using xs c(1) tr by (simp add: follows_def Let_def flip: queued_task_calls)
    moreover have "ed_element ` set ys \<subseteq> dom (sy_conns st)" using tr by blast
    ultimately have "follows st' ys"
      unfolding follows_def Let_def m(3,4) u(2) same queued_task_calls by (intro conjI)
    then show ?thesis ..
  qed
  moreover have "monitor_ok m" using monitor_turn_ok [OF st(2) m(1)] .
  ultimately show ?thesis using c st(7-9) config same(1) m(3) u(2,3) by (simp add: tracking_def)
qed

lemma sys_timer_tracking:
  fixes asyn :: "conn_id asyn_ops"
  assumes "tracking lim st" and "meant_for_async asyn" and "clock_ok now" and "sys_timer now st = Some st'"
  shows "tracking lim st'"
  using assms(1)
proof (rule trackingE)
  let ?m = "sy_monitor st" and ?s = "mon_service (sy_monitor st)"
  assume st: "mon_started ?m" "monitor_ok ?m" "s_thread_runs ?s" "plain_tasks ?s"
    "limit_of (s_manager ?s) = Some lim" "timeout_of (s_manager ?s) = None" "lim + 1 < 2 ^ 64" "finite (dom (sy_conns st))"
    "\<forall>c \<in> set (queued_calls ?s). call_subject c \<subseteq> dom (sy_conns st)"
    "card (dom (sy_conns st)) \<le> lim \<longrightarrow> (\<exists>xs. follows st xs)"
  obtain s where s: "timer_turn now ?s = Some s" "sy_clock st \<le> now"
    "st' = st\<lparr>sy_monitor := ?m\<lparr>mon_service := s\<rparr>, sy_clock := now\<rparr>"
    using assms(4) by (auto simp: sys_timer_def bind_eq_Some_conv split: if_splits)
  have s': "s_tasks s = s_tasks ?s @ [Task_timeout False]" "s_manager s = s_manager ?s" "s_thread_runs s = s_thread_runs ?s"
    using s(1) by (auto simp: timer_turn_def post_def split: if_splits)
  have "monitor_ok (?m\<lparr>mon_service := s\<rparr>)"
    by (rule monitor_step_ok [OF _ assms(2) st(2)], rule mon_timer, rule s(1))
  moreover have "follows st' xs" if "follows st xs" for xs
    using that s(2,3) s' timed_mono [of "sy_clock st" xs now]
    by (auto simp: follows_def Let_def in_use_def open_conns_def)
  moreover have "plain_tasks s" "queued_calls s = queued_calls ?s @ [Handle_timeout]"
    using st(4) s'(1) by (simp_all add: plain_tasks_def queued_calls_def)
  ultimately show ?thesis using st s' s(3) by (simp add: tracking_def) blast
qed

lemma sys_step_tracking:
  assumes "sys_step construct asyn sws sc st st'" and "tracking lim st" and "meant_for_async asyn"
    and "sets_flag sws" and "closes sc" and "fresh_allocator construct" and "never_exhausted construct"
  shows "tracking lim st'"
  using assms(1)
  by cases (use assms(2-7) in \<open>blast intro: sys_accept_tracking sys_conn_tracking sys_turn_tracking sys_timer_tracking\<close>)+

lemma started_system_tracking:
  assumes "clock_ok now"
  shows "tracking 50000 (started_system vts g now)"
proof -
  let ?m = "start_monitor now None (init_monitor vts g) :: conn_id conn_monitor"
  have "monitor_ok (init_monitor vts g :: conn_id conn_monitor)"
    by (rule cm.inv_init) blast
  then have ok: "monitor_ok ?m" unfolding start_monitor_def Let_def by (rule monitor_start_ok)
  have s: "mon_started ?m" "s_thread_runs (mon_service ?m)" "s_tasks (mon_service ?m) = []"
    "s_manager (mon_service ?m) = init_mgr\<lparr>m_callback_function := Some Bind_handle_timeout, m_timeout_flag := False,
       m_timeout := 86400, m_max_limit_flag := True, m_max_limit := 50000\<rparr>"
    using monitor_start_service [of "init_monitor vts g" now "\<lparr>hb_timeout_flag = False, hb_timeout = 86400,
      hb_max_limit_flag = True, hb_max_limit = 50000\<rparr>"]
    by (simp_all add: start_monitor_def init_monitor_def init_service_def svc_start_def set_expiry_def async_wait_def Let_def)
  have "in_use now (s_manager (mon_service ?m)) []"
    by (auto simp: s(4) in_use_def timed_def init_mgr_def mgr_wf_def hbl_def unlinked_but_def
      indexes_def counted_def view_def limit_of_def)
  then have "follows (started_system vts g now) []"
    using s(3) by (simp add: follows_def started_system_def open_conns_def)
  then show ?thesis
    using ok s by (auto simp: tracking_def started_system_def plain_tasks_def queued_calls_def limit_of_def timeout_of_def
        init_mgr_def)
qed

text \<open>The contract of a step: every constant of the system keeps \<open>tracking\<close>.\<close>

definition sys_meant :: "conn_id allocator \<Rightarrow> conn_id asyn_ops \<Rightarrow> (bool \<Rightarrow> conn \<Rightarrow> conn)
    \<Rightarrow> (rpc_close_type \<Rightarrow> conn \<Rightarrow> conn \<times> conn_event list) \<Rightarrow> bool" where
  "sys_meant construct asyn sws sc \<longleftrightarrow> meant_for_async asyn \<and> sets_flag sws \<and> closes sc
     \<and> fresh_allocator construct \<and> never_exhausted construct"

definition sys_started :: "system \<Rightarrow> bool" where
  "sys_started st \<longleftrightarrow> (\<exists>vts g now. st = started_system vts g now \<and> clock_ok now)"

interpretation sy: inductive_invariant sys_started
  "\<lambda>st st'. sys_meant construct asyn sws sc \<and> sys_step construct asyn sws sc st st'" "tracking 50000"
  for construct asyn sws sc
proof
  show "tracking 50000 st" if "sys_started st" for st
    using that started_system_tracking by (auto simp: sys_started_def)
  show "tracking 50000 st'" if "sys_meant construct asyn sws sc \<and> sys_step construct asyn sws sc st st'" "tracking 50000 st"
    for st st'
    using that sys_step_tracking unfolding sys_meant_def by blast
qed

lemma reach_tracking:
  assumes "reach sys_started (sys_step construct asyn sws sc) st" and "sys_meant construct asyn sws sc"
  shows "tracking 50000 st"
  using sy.inv_reach [of construct asyn sws sc st] assms by simp

section \<open>Running the queue\<close>

lemma sys_turns_monitor:
  assumes "monitor_turns construct now n (sy_monitor st) = Some m'" and "sy_clock st \<le> now"
  shows "\<exists>st' es. sys_turns construct now n st = Some st' \<and> sy_monitor st' = m'
    \<and> mon_closed m' = mon_closed (sy_monitor st) @ es \<and> sy_conns st' = fold close_one es (sy_conns st)"
  using assms
proof (induction n arbitrary: st)
  case (Suc n)
  obtain m1 where m1: "monitor_turn construct now (sy_monitor st) = Some m1" "monitor_turns construct now n m1 = Some m'"
    using Suc.prems(1) by (auto simp: bind_eq_Some_conv)
  obtain es1 where es1: "mon_closed m1 = mon_closed (sy_monitor st) @ es1"
    using m1(1) by (auto simp: monitor_turn_closes)
  let ?st = "st\<lparr>sy_conns := fold close_one es1 (sy_conns st), sy_monitor := m1, sy_clock := now\<rparr>"
  have one: "sys_turn construct now st = Some ?st" using m1(1) Suc.prems(2) es1 by (simp add: sys_turn_def)
  from Suc.IH [of ?st] m1(2) obtain st' es where "sys_turns construct now n ?st = Some st'" "sy_monitor st' = m'"
    "mon_closed m' = mon_closed m1 @ es" "sy_conns st' = fold close_one es (fold close_one es1 (sy_conns st))" by auto
  with one es1 show ?case by (intro exI [of _ st'] exI [of _ "es1 @ es"]) simp
qed simp

lemma queue_history:
  assumes "tracking lim st" and "card (dom (sy_conns st)) \<le> lim"
  defines "s \<equiv> mon_service (sy_monitor st)"
  obtains xs rs ys where "in_use (sy_clock st) (s_manager s) xs" "length xs \<le> lim"
    "spec_history (limit_of (s_manager s)) (timeout_of (s_manager s)) (at_once now (s_tasks s)) xs = (rs, ys, [])"
    "ed_element ` set ys = open_conns st" "distinct (map ed_element ys)"
  using assms(1)
proof (rule trackingE)
  assume st: "limit_of (s_manager (mon_service (sy_monitor st))) = Some lim"
    "timeout_of (s_manager (mon_service (sy_monitor st))) = None" "finite (dom (sy_conns st))"
    "\<forall>c \<in> set (queued_calls (mon_service (sy_monitor st))). call_subject c \<subseteq> dom (sy_conns st)"
    "card (dom (sy_conns st)) \<le> lim \<longrightarrow> (\<exists>xs. follows st xs)"
  from st(5) assms(2) obtain xs where xs: "follows st xs" by blast
  note len = follows_length [OF xs st(3) assms(2)]
  obtain rs ys fired where h: "spec_history (Some lim) None (at_once now (s_tasks s)) xs = (rs, ys, fired)"
    by (metis prod_cases3)
  have "ed_element ` set xs \<subseteq> dom (sy_conns st)"
    "\<forall>t \<in> set (s_tasks s). call_subject (the (task_call t)) \<subseteq> dom (sy_conns st)"
    using xs st(4) by (simp_all add: follows_def Let_def queued_calls_def s_def)
  note tr = spec_history_tracks [OF h len(2) this st(3) assms(2)]
  have "in_use (sy_clock st) (s_manager s) xs" "fold track (task_calls (s_tasks s)) (ed_element ` set xs) = open_conns st"
    using xs by (simp_all add: follows_def Let_def s_def)
  with that [OF this(1) len(1) _ _ tr [THEN conjunct2, THEN conjunct2]] h tr st(1,2) show thesis by (simp add: s_def)
qed

text \<open>C9: The monitor keeps account of the connections. In every run of a process with at most 50000 connections,
  started with the default setting, in which connections open, read, write, fail and are closed in any order
  relative to the monitor's thread and timer: once the thread has run the tasks that are queued, the monitor holds
  exactly the monitored connections that are open, and it has not closed any. Of the functions that the repository
  only declares it is assumed that \<open>sync_close_i\<close> disconnects the connection and calls \<open>on_closed\<close> of its strategy, and that
  \<open>set_write_state\<close> sets the flag; that the monitor then hears of it is what the repository's \<open>on_closed\<close> does.\<close>

theorem monitor_tracks_connections:
  assumes "reach sys_started (sys_step construct asyn sws sc) st" and "sys_meant construct asyn sws sc"
    and "card (dom (sy_conns st)) \<le> 50000" and "length (s_tasks (mon_service (sy_monitor st))) < 2 ^ 63"
    and "sy_clock st \<le> now" and "clock_ok now"
  shows "\<exists>st'. sys_turns construct now (length (s_tasks (mon_service (sy_monitor st)))) st = Some st'
    \<and> dom (m_elements (s_manager (mon_service (sy_monitor st')))) = open_conns st
    \<and> sy_conns st' = sy_conns st \<and> mon_closed (sy_monitor st') = mon_closed (sy_monitor st)"
proof -
  let ?m = "sy_monitor st" and ?s = "mon_service (sy_monitor st)"
  note tr = reach_tracking [OF assms(1,2)]
  then have st: "mon_started ?m" "svc_ok ?s" "s_thread_runs ?s" "\<forall>t \<in> set (s_tasks ?s). task_call t \<noteq> None"
    by (auto elim!: trackingE simp: monitor_ok_def plain_tasks_def)
  obtain xs rs ys where xs: "in_use (sy_clock st) (s_manager ?s) xs" "length xs \<le> 50000"
    and h: "spec_history (limit_of (s_manager ?s)) (timeout_of (s_manager ?s)) (at_once now (s_tasks ?s)) xs = (rs, ys, [])"
    and ys: "ed_element ` set ys = open_conns st"
    using queue_history [OF tr assms(3)] by metis
  have len: "length xs + length (s_tasks ?s) < 2 ^ 64" using xs(2) assms(4) by simp
  have meant: "fresh_allocator construct" "never_exhausted construct" using assms(2) by (simp_all add: sys_meant_def)
  obtain u t' where u: "svc_run construct (turns (length (s_tasks ?s)) now) ?s = Some u" "in_use t' (s_manager u) ys"
    "effect (s_manager ?s) (s_manager u) []"
    using plain_turns [OF st(2,3) _ st(4) xs(1) assms(5,6) len meant h, of "[]"] by auto
  have none: "called_from (calls_made ?s) u = []"
    using u(3) by (simp add: effect_def callbacks_def called_from_def calls_made_def split: option.splits)
  let ?m' = "?m\<lparr>mon_service := u\<rparr>"
  have "monitor_turns construct now (length (s_tasks ?s)) ?m = Some ?m'"
    using monitor_turns_close [OF u(1)] none by simp
  from sys_turns_monitor [OF this assms(5)] obtain st' where
    "sys_turns construct now (length (s_tasks ?s)) st = Some st'" "sy_monitor st' = ?m'" "sy_conns st' = sy_conns st" by auto
  moreover obtain ps where "mgr_wf (s_manager u) ps" "view (s_manager u) ps = ys"
    using u(2) by (auto simp: in_use_def)
  then have "dom (m_elements (s_manager u)) = open_conns st" using ys by (simp add: index_elements)
  ultimately show ?thesis by auto
qed

section \<open>Closing all connections\<close>

lemma absorb_tasks: "\<exists>ts'. w_tasks (absorb evs w) = w_tasks w @ ts'"
  by (induction evs w rule: absorb.induct) (auto split: conn_event.splits)

text \<open>A connection that has been shut: it is disconnected, and its protocol object has been told.\<close>

definition shut :: "conn \<Rightarrow> bool" where
  "shut c \<longleftrightarrow> m_status c = RPC_DISCONNECTED \<and> m_is_broken (m_strategy c)"

lemma sync_close_shuts:
  assumes "closes sc" and "sc type c = (c', evs)" and "shut c \<or> m_status c \<noteq> RPC_DISCONNECTED"
  shows "shut c'"
proof -
  obtain q told where told: "on_closed (conn_view_of c) (m_strategy c) = (q, told)" by fastforce
  from closesD [OF assms(1,2), unfolded told] on_closed_tells(3) [OF told] assms(3) show ?thesis
    by (auto simp: shut_def)
qed

lemma sync_write_keeps:
  assumes "sets_flag sws" and "sync_write_i sws data c = (c', evs)"
  shows "m_status c' = m_status c" "m_strategy c' = m_strategy c"
  using assms
  by (auto simp: sync_write_i_def start_sending_buffer_i_def sets_flag_def Let_def split: if_splits list.splits)

text \<open>A posted \<open>sync_close_i\<close> is run, whatever else is queued before it.\<close>

lemma run_task_step:
  assumes "w_tasks w = t # ts" and "sets_flag sws" and "closes sc"
  obtains w' ts' where "happen sws sc Run_task w = Some w'" "w_tasks w' = ts @ ts'"
    "shut (w_conn w) \<or> m_status (w_conn w) \<noteq> RPC_DISCONNECTED \<and> (\<exists>type. t = Sync_close type) \<longrightarrow> shut (w_conn w')"
    "shut (w_conn w') \<or> m_status (w_conn w') = m_status (w_conn w)"
proof -
  let ?r = "case t of Sync_write data \<Rightarrow> sync_write_i sws data (w_conn w) | Sync_close type \<Rightarrow> sc type (w_conn w)"
  obtain c evs where r: "?r = (c, evs)" by (cases ?r)
  let ?w = "absorb evs (w\<lparr>w_tasks := ts, w_conn := c\<rparr>)"
  have w: "happen sws sc Run_task w = Some ?w" using assms(1) r by (simp add: happen_def)
  obtain ts' where "w_tasks ?w = w_tasks (w\<lparr>w_tasks := ts, w_conn := c\<rparr>) @ ts'" using absorb_tasks by blast
  then have "w_tasks ?w = ts @ ts'" by simp
  moreover have "shut (w_conn w) \<or> m_status (w_conn w) \<noteq> RPC_DISCONNECTED \<and> (\<exists>type. t = Sync_close type) \<longrightarrow> shut c"
    "shut c \<or> m_status c = m_status (w_conn w)"
    using r sync_close_shuts [OF assms(3)] closesD(1) [OF assms(3)] sync_write_keeps [OF assms(2)]
    by (cases t; force simp: shut_def)+
  ultimately show thesis using that [OF w] by simp
qed

lemma run_closing:
  assumes "sets_flag sws" and "closes sc"
  shows "w_tasks w = ts @ ts' \<Longrightarrow> \<exists>w'. happens sws sc (replicate (length ts) Run_task) w = Some w'
    \<and> (shut (w_conn w) \<or> m_status (w_conn w) \<noteq> RPC_DISCONNECTED \<and> (\<exists>type. Sync_close type \<in> set ts) \<longrightarrow> shut (w_conn w'))"
proof (induction ts arbitrary: w ts')
  case (Cons t ts)
  from Cons.prems have "w_tasks w = t # (ts @ ts')" by simp
  from run_task_step [OF this assms] obtain v us where v: "happen sws sc Run_task w = Some v" "w_tasks v = ts @ ts' @ us"
    "shut (w_conn w) \<or> m_status (w_conn w) \<noteq> RPC_DISCONNECTED \<and> (\<exists>type. t = Sync_close type) \<longrightarrow> shut (w_conn v)"
    "shut (w_conn v) \<or> m_status (w_conn v) = m_status (w_conn w)"
    by (metis append.assoc)
  from Cons.IH [OF v(2)] v(1,3,4) show ?case by auto
qed simp

text \<open>C18: Shutting down. In the same runs, with the same said of \<open>sync_close_i\<close> (it disconnects, and calls \<open>on_closed\<close> of the
  strategy): after \<open>close_all\<close> the monitor's thread closes exactly the monitored connections that are open, each once, and
  forgets them; and for every one of them, when its io service has run what is queued for it, \<open>sync_close_i\<close> has been
  run on the connection: it is disconnected, and its protocol object has been told.\<close>

theorem close_all_disconnects:
  assumes "reach sys_started (sys_step construct asyn sws sc) st" and "sys_meant construct asyn sws sc"
    and "card (dom (sy_conns st)) \<le> 50000" and "length (s_tasks (mon_service (sy_monitor st))) < 2 ^ 63"
    and "sy_clock st \<le> now" and "clock_ok now"
  shows "\<exists>st' es. sys_turns construct now (Suc (length (s_tasks (mon_service (sy_monitor st))))) (sys_close_all st) = Some st'
    \<and> mon_closed (sy_monitor st') = mon_closed (sy_monitor st) @ es \<and> distinct es \<and> set es = open_conns st
    \<and> mgr_wf (s_manager (mon_service (sy_monitor st'))) []
    \<and> (\<forall>e. e \<notin> set es \<longrightarrow> sy_conns st' e = sy_conns st e)
    \<and> (\<forall>e \<in> set es. \<exists>w w'. sy_conns st' e = Some w
          \<and> happens sws sc (replicate (length (w_tasks w)) Run_task) w = Some w'
          \<and> m_status (w_conn w') = RPC_DISCONNECTED \<and> m_is_broken (m_strategy (w_conn w')))"
proof -
  let ?m = "sy_monitor st" and ?s = "mon_service (sy_monitor st)" and ?n = "Suc (length (s_tasks (mon_service (sy_monitor st))))"
  have meant: "sets_flag sws" "closes sc" "fresh_allocator construct" "never_exhausted construct"
    using assms(2) by (auto simp: sys_meant_def)
  note tr = reach_tracking [OF assms(1,2)]
  then have st: "mon_started ?m" "svc_ok ?s" "s_thread_runs ?s" "plain_tasks ?s"
    "m_callback_function (s_manager ?s) = Some Bind_handle_timeout"
    by (auto elim!: trackingE simp: monitor_ok_def)
  obtain xs rs ys where xs: "in_use (sy_clock st) (s_manager ?s) xs" "length xs \<le> 50000"
    and h: "spec_history (limit_of (s_manager ?s)) (timeout_of (s_manager ?s)) (at_once now (s_tasks ?s)) xs = (rs, ys, [])"
    and ys: "ed_element ` set ys = open_conns st" "distinct (map ed_element ys)"
    using queue_history [OF tr assms(3)] by metis
  let ?es = "map ed_element ys"
  have "length xs + length (s_tasks ?s) < 2 ^ 64" using xs(2) assms(4) by simp
  from trigger_turns [OF st(2-4) xs(1) assms(5,6) this meant(3,4) h st(5)] obtain u where
    u: "svc_run construct (turns ?n now) (svc_trigger_all_timeout ?s) = Some u" "mgr_wf (s_manager u) []"
    "m_invoked (s_manager u) = m_invoked (s_manager ?s) @ map (Pair Bind_handle_timeout) ?es" by auto
  let ?m1 = "?m\<lparr>mon_service := svc_trigger_all_timeout ?s\<rparr>"
  let ?m' = "?m\<lparr>mon_service := u, mon_closed := mon_closed ?m @ ?es\<rparr>"
  have "sy_monitor (sys_close_all st) = ?m1" using st(1) by (simp add: sys_close_all_def monitor_close_all_def)
  moreover have "monitor_turns construct now ?n ?m1 = Some ?m'"
    using monitor_turns_close [of construct ?n now ?m1 u] u st(1)
    by (simp add: called_from_def calls_made_def comp_def svc_trigger_all_timeout_def post_def)
  ultimately have turns: "monitor_turns construct now ?n (sy_monitor (sys_close_all st)) = Some ?m'" by simp
  have "sy_clock (sys_close_all st) \<le> now" using assms(5) by (simp add: sys_close_all_def)
  from sys_turns_monitor [OF turns this] obtain st' where st':
    "sys_turns construct now ?n (sys_close_all st) = Some st'" "sy_monitor st' = ?m'"
    "sy_conns st' = fold close_one ?es (sy_conns st)"
    using st(1) by (auto simp: sys_close_all_def monitor_close_all_def)
  have conns: "sy_conns st' e = (if e \<in> set ?es then map_option (absorb (close_conn RPC_CLOSE)) (sy_conns st e) else sy_conns st e)" for e
    unfolding st'(3) by (rule close_one_all [OF ys(2)])
  have "\<exists>w w'. sy_conns st' e = Some w \<and> happens sws sc (replicate (length (w_tasks w)) Run_task) w = Some w'
      \<and> m_status (w_conn w') = RPC_DISCONNECTED \<and> m_is_broken (m_strategy (w_conn w'))" if "e \<in> set ?es" for e
  proof -
    have "e \<in> open_conns st" using that ys(1) by simp
    then obtain v where "sy_conns st e = Some v" "m_status (w_conn v) \<noteq> RPC_DISCONNECTED"
      by (auto simp: open_conns_def open_conn_def)
    with conns that have w: "sy_conns st' e = Some (absorb (close_conn RPC_CLOSE) v)" by simp
    let ?w = "absorb (close_conn RPC_CLOSE) v"
    have "w_tasks ?w = w_tasks ?w @ []" "Sync_close RPC_CLOSE \<in> set (w_tasks ?w)" by (simp_all add: close_conn_def)
    with run_closing [OF meant(1,2) this(1)] w \<open>m_status (w_conn v) \<noteq> RPC_DISCONNECTED\<close> show ?thesis
      unfolding shut_def by fastforce
  qed
  with st'(1,2) u(2) conns ys show ?thesis by (intro exI [of _ st'] exI [of _ ?es]) auto
qed

section \<open>Instances\<close>

lemma tell_close_closes: "closes tell_close"
  by (auto simp: closes_def reports_close_def tell_close_def has_status_def on_closed_def post_broken_msg_i_def
      strategy_event_def async_read_def conn_view_of_def Let_def)

lemma the_system_meant: "sys_meant lowest_free the_async put_flag tell_close"
  by (simp add: sys_meant_def the_async_meant put_flag_sets tell_close_closes lowest_free_ok)

text \<open>Two connections are accepted, and the second is closed.\<close>

definition system_script :: "system option" where
  "system_script = do {
     st \<leftarrow> sys_accept the_async 7 True init_proto (started_system (\<lambda>_. []) False 0);
     st \<leftarrow> sys_accept the_async 8 True init_proto st;
     st \<leftarrow> sys_conn the_async put_flag tell_close 8 (Client_close RPC_CLOSE) st;
     sys_conn the_async put_flag tell_close 8 Run_task st
   }"

definition tracked_system :: system where
  "tracked_system = the system_script"

definition closed_world :: world where
  "closed_world = the (happens put_flag tell_close [Client_close RPC_CLOSE, Run_task] (accepted_world True init_proto))"

lemma closed_world_steps:
  "happen put_flag tell_close (Client_close RPC_CLOSE) (accepted_world True init_proto)
    = Some (absorb (close_conn RPC_CLOSE) (accepted_world True init_proto))"
  "happen put_flag tell_close Run_task (absorb (close_conn RPC_CLOSE) (accepted_world True init_proto)) = Some closed_world"
  "new_events (accepted_world True init_proto) (absorb (close_conn RPC_CLOSE) (accepted_world True init_proto)) = []"
  "new_events (absorb (close_conn RPC_CLOSE) (accepted_world True init_proto)) closed_world
    = [Monitor_del, Post_handle_msg 0 0 0 []]"
  "\<not> open_conn closed_world" "open_conn (accepted_world True init_proto)"
  by (simp_all add: closed_world_def world_defs close_conn_def tell_close_def has_status_def on_closed_def
      post_broken_msg_i_def new_events_def open_conn_def init_proto_def reset_def)

lemma tracked_system_state:
  "system_script = Some tracked_system"
  "sy_conns tracked_system = (\<lambda>_. None)(7 \<mapsto> accepted_world True init_proto, 8 \<mapsto> closed_world)"
  "sy_clock tracked_system = 0" "mon_closed (sy_monitor tracked_system) = []"
  "length (s_tasks (mon_service (sy_monitor tracked_system))) = 3"
proof -
  let ?m = "start_monitor 0 None (init_monitor (\<lambda>_. []) False) :: conn_id conn_monitor"
  have m: "mon_started ?m" "s_tasks (mon_service ?m) = []" "mon_closed ?m = []"
    by (simp_all add: start_monitor_def init_monitor_def init_service_def svc_start_def set_expiry_def async_wait_def
        monitor_start_service)
  let ?st = "started_system (\<lambda>_. []) False 0"
  have ev: "w_posted (accepted_world True init_proto) = [Monitor_add]" using accepted_tells by simp
  have e: "system_script = Some \<lparr>sy_conns = (\<lambda>_. None)(7 \<mapsto> accepted_world True init_proto, 8 \<mapsto> closed_world),
     sy_monitor = queue_tasks [Task_add 7, Task_add 8, Task_del 8] ?m, sy_clock = 0\<rparr>"
    using m(1) by (simp add: system_script_def sys_accept_def sys_conn_def started_system_def closed_world_steps ev
        hear_queues the_async_meant event_tasks_def Let_def)
  show "system_script = Some tracked_system" unfolding tracked_system_def e option.sel ..
  show "sy_conns tracked_system = (\<lambda>_. None)(7 \<mapsto> accepted_world True init_proto, 8 \<mapsto> closed_world)"
    "sy_clock tracked_system = 0" "mon_closed (sy_monitor tracked_system) = []"
    "length (s_tasks (mon_service (sy_monitor tracked_system))) = 3"
    using m unfolding tracked_system_def e option.sel by simp_all
qed

lemma tracked_system_reach:
  "reach sys_started (sys_step lowest_free the_async put_flag tell_close) tracked_system"
proof -
  let ?reach = "reach sys_started (sys_step lowest_free the_async put_flag tell_close)"
  have "?reach (started_system (\<lambda>_. []) False 0)"
    by (rule reach_init, unfold sys_started_def, intro exI conjI, rule refl) (simp add: clock_ok_def)
  moreover obtain st1 st2 st3 where "sys_accept the_async 7 True init_proto (started_system (\<lambda>_. []) False 0) = Some st1"
    "sys_accept the_async 8 True init_proto st1 = Some st2"
    "sys_conn the_async put_flag tell_close 8 (Client_close RPC_CLOSE) st2 = Some st3"
    "sys_conn the_async put_flag tell_close 8 Run_task st3 = Some tracked_system"
    using tracked_system_state(1) unfolding system_script_def bind_eq_Some_conv by blast
  ultimately show ?thesis by (meson reach_step on_accept on_conn)
qed

lemma tracked_system_open: "open_conns tracked_system = {7}"
  using closed_world_steps(5,6) by (auto simp: open_conns_def tracked_system_state split: if_splits)

lemma tracked_system_small: "card (dom (sy_conns tracked_system)) \<le> 50000"
  by (simp add: tracked_system_state)

lemma tracked_system_short: "length (s_tasks (mon_service (sy_monitor tracked_system))) < 2 ^ 63"
  by (simp add: tracked_system_state)

lemma tracked_system_clock: "sy_clock tracked_system \<le> 5" "clock_ok 5"
  by (simp_all add: tracked_system_state clock_ok_def)

lemmas tracked_facts = tracked_system_reach the_system_meant tracked_system_small tracked_system_short tracked_system_clock

theorem monitor_tracks_connections_witness:
  "\<exists>st'. sys_turns lowest_free 5 3 tracked_system = Some st'
    \<and> dom (m_elements (s_manager (mon_service (sy_monitor st')))) = {7}"
  using monitor_tracks_connections [OF tracked_facts] unfolding tracked_system_state(5) tracked_system_open by blast

theorem close_all_disconnects_witness:
  "\<exists>st'. sys_turns lowest_free 5 4 (sys_close_all tracked_system) = Some st' \<and> mon_closed (sy_monitor st') = [7]"
proof -
  have four: "Suc 3 = (4 :: nat)" by simp
  have "es = [7]" if "distinct es" "set es = {7}" for es :: "conn_id list"
    using that by (metis distinct_card card_insert_disjoint empty_iff finite.emptyI card.empty length_0_conv length_Suc_conv
        list.set_intros(1) singletonD)
  with close_all_disconnects [OF tracked_facts] show ?thesis
    unfolding tracked_system_state(4,5) tracked_system_open four by (metis append_Nil)
qed

end
