(* ===== verification/ListenStrategy.thy ===== *)
theory ListenStrategy
  imports RpcDispatch
begin

text \<open>
  The interface through which a connection calls its strategy, \<open>rpc_listen_strategy_i\<close> of
  mylib/rpc/rpc\_listen\_strategy\_i.h, as the record of its virtual functions; the repository's only
  implementation of it, \<open>rpc_common_conn_protocal_t\<close> with the \<open>handle_msg\<close> of \<open>rpc_t\<close>; and what
  \<open>rpc_connecter_t\<close> relies on, as a contract: a call returns, and asks for one read where the connection has none
  outstanding. The connection has one read buffer, so two reads at a time would overwrite each other.
\<close>

section \<open>The interface\<close>

record ('s, 'r) listen_strategy_i =
  ls_reset :: "'s \<Rightarrow> 's"
  ls_on_remote_open :: "conn_view \<Rightarrow> 's \<Rightarrow> int \<times> 's \<times> proto_event list"
  ls_on_connect :: "bool \<Rightarrow> 's \<Rightarrow> int \<times> 's \<times> proto_event list"
  ls_on_read :: "conn_view \<Rightarrow> bytes \<Rightarrow> 's \<Rightarrow> (int \<times> 's \<times> proto_event list) option"
  ls_on_closed :: "conn_view \<Rightarrow> 's \<Rightarrow> 's \<times> proto_event list"
  ls_handle_msg :: "8 word \<Rightarrow> 16 word \<Rightarrow> 16 word \<Rightarrow> bytes \<Rightarrow> 'r list"

text \<open>The functions that override them.\<close>

definition proto_strategy :: "('m, 'f) calls \<Rightarrow> (16 word \<Rightarrow> bytes \<Rightarrow> int)
    \<Rightarrow> (proto, ('m, 'f) rpc_event) listen_strategy_i" where
  "proto_strategy calls unknown = \<lparr>ls_reset = reset, ls_on_remote_open = on_remote_open, ls_on_connect = on_connect,
     ls_on_read = on_read, ls_on_closed = on_closed, ls_handle_msg = handle_msg calls unknown\<rparr>"

text \<open>Calls through the interface.\<close>

datatype strategy_call = Reset | Remote_opened | Connected bool | Was_read bytes | Was_closed

definition strategy_do :: "('s, 'r) listen_strategy_i \<Rightarrow> conn_view \<Rightarrow> strategy_call \<Rightarrow> 's \<Rightarrow> ('s \<times> proto_event list) option" where
  "strategy_do ls cv c s = (case c of
      Reset \<Rightarrow> Some (ls_reset ls s, [])
    | Remote_opened \<Rightarrow> Some (snd (ls_on_remote_open ls cv s))
    | Connected failed \<Rightarrow> Some (snd (ls_on_connect ls failed s))
    | Was_read data \<Rightarrow> map_option snd (ls_on_read ls cv data s)
    | Was_closed \<Rightarrow> Some (ls_on_closed ls cv s))"

fun strategy_run :: "('s, 'r) listen_strategy_i \<Rightarrow> conn_view \<Rightarrow> strategy_call list \<Rightarrow> 's
    \<Rightarrow> ('s \<times> proto_event list) option" where
  "strategy_run ls cv [] s = Some (s, [])"
| "strategy_run ls cv (c # cs) s = do {
     (s, evs) \<leftarrow> strategy_do ls cv c s;
     (s, evs') \<leftarrow> strategy_run ls cv cs s;
     Some (s, evs @ evs')
   }"

section \<open>The contract\<close>

definition reads_asked :: "proto_event list \<Rightarrow> nat" where
  "reads_asked evs = count_list evs Async_read"

lemma reads_asked_simps [simp]:
  "reads_asked [] = 0" "reads_asked (xs @ ys) = reads_asked xs + reads_asked ys"
  "reads_asked (e # es) = (if e = Async_read then 1 else 0) + reads_asked es"
  by (simp_all add: reads_asked_def)

fun starts_read :: "strategy_call \<Rightarrow> bool" where
  "starts_read Remote_opened \<longleftrightarrow> True"
| "starts_read (Connected failed) \<longleftrightarrow> \<not> failed"
| "starts_read (Was_read data) \<longleftrightarrow> True"
| "starts_read _ \<longleftrightarrow> False"

locale listen_strategy =
  fixes ls :: "('s, 'r) listen_strategy_i"
    and good :: "'s \<Rightarrow> bool"
  assumes reset_law: "good s \<Longrightarrow> good (ls_reset ls s)"
    and open_law: "good s \<Longrightarrow> ls_on_remote_open ls cv s = (ret, t, evs) \<Longrightarrow> good t \<and> reads_asked evs = 1"
    and connect_law: "good s \<Longrightarrow> ls_on_connect ls failed s = (ret, t, evs) \<Longrightarrow>
      good t \<and> reads_asked evs = (if failed then 0 else 1)"
    and read_law: "good s \<Longrightarrow> \<exists>ret t evs. ls_on_read ls cv data s = Some (ret, t, evs) \<and> good t \<and> reads_asked evs = 1"
    and closed_law: "good s \<Longrightarrow> ls_on_closed ls cv s = (t, evs) \<Longrightarrow> good t \<and> reads_asked evs = 0"
begin

lemma call_returns:
  assumes "good s"
  shows "\<exists>t evs. strategy_do ls cv c s = Some (t, evs) \<and> good t \<and> reads_asked evs = (if starts_read c then 1 else 0)"
proof (cases c)
  case Reset
  then show ?thesis using reset_law [OF assms] by (simp add: strategy_do_def)
next
  case Remote_opened
  obtain ret t evs where "ls_on_remote_open ls cv s = (ret, t, evs)" by (metis prod_cases3)
  with open_law [OF assms this] Remote_opened show ?thesis by (simp add: strategy_do_def)
next
  case (Connected failed)
  obtain ret t evs where "ls_on_connect ls failed s = (ret, t, evs)" by (metis prod_cases3)
  with connect_law [OF assms this] Connected show ?thesis by (simp add: strategy_do_def)
next
  case (Was_read data)
  with read_law [OF assms, of cv data] show ?thesis by (auto simp: strategy_do_def)
next
  case Was_closed
  obtain t evs where "ls_on_closed ls cv s = (t, evs)" by fastforce
  with closed_law [OF assms this] Was_closed show ?thesis by (simp add: strategy_do_def)
qed

lemma run_returns:
  "good s \<Longrightarrow> \<exists>t evs. strategy_run ls cv cs s = Some (t, evs) \<and> good t
    \<and> reads_asked evs = length (filter starts_read cs)"
proof (induction cs arbitrary: s)
  case (Cons c cs)
  from call_returns [OF Cons.prems, of cv c] obtain t evs where
    c: "strategy_do ls cv c s = Some (t, evs)" "good t" "reads_asked evs = (if starts_read c then 1 else 0)" by blast
  from Cons.IH [OF c(2)] c(1,3) show ?case by (auto split: if_splits)
qed simp

end

lemma reads_asked_events [simp]: "reads_asked (events_of cv ms) = 0"
  by (induction ms) auto

interpretation ls: listen_strategy "proto_strategy calls unknown" proto_ok for calls unknown
proof
  fix p :: proto assume ok: "proto_ok p"
  show "proto_ok (ls_reset (proto_strategy calls unknown) p)"
    using proto_ok_reset(1) [OF ok] by (simp add: proto_strategy_def)
  show "\<exists>ret t evs. ls_on_read (proto_strategy calls unknown) cv data p = Some (ret, t, evs) \<and> proto_ok t
      \<and> reads_asked evs = 1" for cv data
    using on_read_splits [OF ok, of cv data] by (auto simp: proto_strategy_def)
  fix t evs
  show "proto_ok t \<and> reads_asked evs = 1" if "ls_on_remote_open (proto_strategy calls unknown) cv p = (ret, t, evs)" for cv ret
    using that proto_ok_reset(1) [OF ok] by (auto simp: proto_strategy_def on_remote_open_def)
  show "proto_ok t \<and> reads_asked evs = (if failed then 0 else 1)"
    if "ls_on_connect (proto_strategy calls unknown) failed p = (ret, t, evs)" for failed ret
    using that proto_ok_reset(1) [OF ok] post_broken(1) [OF ok]
    by (auto simp: proto_strategy_def on_connect_def post_broken_msg_i_def split: if_splits)
  show "proto_ok t \<and> reads_asked evs = 0" if "ls_on_closed (proto_strategy calls unknown) cv p = (t, evs)" for cv
    using that post_broken(1) [OF ok] by (auto simp: proto_strategy_def on_closed_def post_broken_msg_i_def split: if_splits)
qed

text \<open>C26: Whatever functions of the strategy interface are called on a fresh protocol object, in whatever
  order and with whatever data, every call returns, and one read is asked for by each opening, each successful
  connect and each read, and by no other call.\<close>

theorem strategy_calls_return:
  "\<exists>t evs. strategy_run (proto_strategy calls unknown) cv cs init_proto = Some (t, evs)
    \<and> reads_asked evs = length (filter starts_read cs)"
  using ls.run_returns [OF proto_ok_init(1)] by blast

section \<open>One read at a time\<close>

text \<open>What is asked of the missing \<open>sync_close_i\<close>: it starts no read, and leaves the strategy in a good state.\<close>

definition polite_close :: "(rpc_close_type \<Rightarrow> conn \<Rightarrow> conn \<times> conn_event list) \<Rightarrow> bool" where
  "polite_close sc \<longleftrightarrow> (\<forall>type c. Start_read \<notin> set (snd (sc type c))
     \<and> (proto_ok (m_strategy c) \<longrightarrow> proto_ok (m_strategy (fst (sc type c)))))"

inductive conn_step :: "(bool \<Rightarrow> conn \<Rightarrow> conn) \<Rightarrow> (rpc_close_type \<Rightarrow> conn \<Rightarrow> conn \<times> conn_event list)
    \<Rightarrow> world \<Rightarrow> world \<Rightarrow> bool" for sws sc where
  "happen sws sc h w = Some w' \<Longrightarrow> conn_step sws sc w w'"

inductive_cases conn_stepE: "conn_step sws sc w w'"

definition reading_ok :: "world \<Rightarrow> bool" where
  "reading_ok w \<longleftrightarrow> w_reads w \<le> 1 \<and> proto_ok (m_strategy (w_conn w))"

lemma absorb_reads: "w_reads (absorb evs w) = w_reads w + count_list evs Start_read \<and> w_conn (absorb evs w) = w_conn w"
  by (induction evs w rule: absorb.induct) (simp_all split: conn_event.split)

lemma strategy_events_reads: "count_list (strategy_events evs) Start_read = reads_asked evs"
  by (induction evs) (simp_all add: strategy_event_def async_read_def)

lemma start_sending_reads:
  assumes "sets_flag sws" and "start_sending_buffer_i sws c = (c', evs)"
  shows "count_list evs Start_read = 0 \<and> m_strategy c' = m_strategy c"
  using assms by (auto simp: start_sending_buffer_i_def sets_flag_def split: list.splits)

lemma sync_write_reads:
  assumes "sets_flag sws" and "sync_write_i sws data c = (c', evs)"
  shows "count_list evs Start_read = 0 \<and> m_strategy c' = m_strategy c"
  using assms(2)
  by (auto simp: sync_write_i_def Let_def split: if_splits prod.splits dest: start_sending_reads [OF assms(1)])

lemma polite_reads:
  assumes "polite_close sc" and "sc type c = (c', evs)" and "proto_ok (m_strategy c)"
  shows "count_list evs Start_read = 0 \<and> proto_ok (m_strategy c')"
proof -
  note law = assms(1) [unfolded polite_close_def, THEN spec, of type, THEN spec, of c]
  with assms(2,3) show ?thesis by (simp add: count_list_0_iff)
qed

lemma on_error_reads:
  assumes "polite_close sc" and "(if \<not> has_status RPC_DISCONNECTED c then sc RPC_CLOSE c else (c, [])) = (c', evs)"
    and "proto_ok (m_strategy c)"
  shows "count_list evs Start_read = 0 \<and> proto_ok (m_strategy c')"
  using assms(2,3) polite_reads [OF assms(1)] by (auto split: if_splits)

lemma write_complete_reads:
  assumes "sets_flag sws" and "polite_close sc" and "write_complete_i sws sc err n c = Some (c', evs)"
    and "proto_ok (m_strategy c)"
  shows "count_list evs Start_read = 0 \<and> proto_ok (m_strategy c')"
proof -
  obtain buf rest where q: "m_write_queue c = buf # rest"
    using assms(1,3) by (auto simp: write_complete_i_def sets_flag_def Let_def split: list.splits)
  let ?c = "c\<lparr>m_is_writing := False, m_total_wait_write := m_total_wait_write c - of_nat n, m_write_queue := rest\<rparr>"
  have ok: "proto_ok (m_strategy ?c)" using assms(4) by simp
  show ?thesis
  proof (cases err)
    case True
    with assms(1,3) q have "(if \<not> has_status RPC_DISCONNECTED ?c then sc RPC_CLOSE ?c else (?c, [])) = (c', evs)"
      by (simp add: write_complete_i_def sets_flag_def Let_def)
    then show ?thesis by (rule on_error_reads [OF assms(2) _ ok])
  next
    case False
    with assms(1,3) q have "start_sending_buffer_i sws ?c = (c', evs)"
      by (simp add: write_complete_i_def sets_flag_def Let_def)
    from start_sending_reads [OF assms(1) this] ok show ?thesis by simp
  qed
qed

lemma read_complete_reads:
  assumes "polite_close sc" and "proto_ok (m_strategy c)"
  obtains c' evs where "read_complete_i sc err data c = Some (c', evs)" "count_list evs Start_read \<le> 1"
    "proto_ok (m_strategy c')"
proof (cases err)
  case True
  obtain c' evs where r: "(if \<not> has_status RPC_DISCONNECTED c then sc RPC_CLOSE c else (c, [])) = (c', evs)" by fastforce
  with on_error_reads [OF assms(1) r assms(2)] True that show thesis by (simp add: read_complete_i_def)
next
  case False
  from ls.read_law [OF assms(2), of undefined undefined "conn_view_of c" data] obtain ret p evs where
    "on_read (conn_view_of c) data (m_strategy c) = Some (ret, p, evs)" "proto_ok p" "reads_asked evs = 1"
    by (auto simp: proto_strategy_def)
  with False that show thesis by (auto simp: read_complete_i_def close_conn_def strategy_events_reads)
qed

lemma conn_step_reads:
  assumes "happen sws sc h w = Some w'" and "reading_ok w" and "sets_flag sws" and "polite_close sc"
  shows "reading_ok w'"
proof -
  have ok: "proto_ok (m_strategy (w_conn w))" using assms(2) by (simp add: reading_ok_def)
  note defs = happen_def reading_ok_def absorb_reads async_write_def close_conn_def
  show ?thesis
  proof (cases h)
    case Run_task
    with assms(1) obtain t ts c evs where t: "w_tasks w = t # ts"
      "(case t of Sync_write data \<Rightarrow> sync_write_i sws data (w_conn w) | Sync_close type \<Rightarrow> sc type (w_conn w)) = (c, evs)"
      "w' = absorb evs (w\<lparr>w_tasks := ts, w_conn := c\<rparr>)"
      by (auto simp: happen_def split: list.splits prod.splits)
    then have "count_list evs Start_read = 0 \<and> proto_ok (m_strategy c)"
      using sync_write_reads [OF assms(3)] polite_reads [OF assms(4)] ok by (cases t) auto
    with t(3) assms(2) show ?thesis by (simp add: defs)
  next
    case (Written err n)
    with assms(1,2) show ?thesis
      by (auto simp: defs bind_eq_Some_conv split: list.splits if_splits
          dest!: write_complete_reads [OF assms(3,4) _ ok])
  next
    case (Received err data)
    from read_complete_reads [OF assms(4) ok, of err data] obtain c evs where
      "read_complete_i sc err data (w_conn w) = Some (c, evs)" "count_list evs Start_read \<le> 1" "proto_ok (m_strategy c)" .
    with Received assms(1,2) show ?thesis by (auto simp: defs split: if_splits)
  qed (use assms(1,2) in \<open>auto simp: defs\<close>)
qed

interpretation ro: inductive_invariant "\<lambda>w. \<exists>um. w = accepted_world um init_proto"
  "\<lambda>w w'. sets_flag sws \<and> polite_close sc \<and> conn_step sws sc w w'" reading_ok for sws sc
proof
  show "reading_ok w'" if "sets_flag sws \<and> polite_close sc \<and> conn_step sws sc w w'" "reading_ok w" for w w'
    using that by (auto elim!: conn_stepE intro: conn_step_reads)
qed (auto simp: accepted_world_ok proto_ok_init proto_ok_reset reading_ok_def)

text \<open>C25: In every state of an accepted connection, also after failed reads and writes and after it is closed, at most
  one read is outstanding, so the one read buffer is not written by two; and its completion, whatever the outcome and the
  data, runs to its end.\<close>

theorem one_read_outstanding:
  assumes "sets_flag sws" and "polite_close sc"
    and "reach (\<lambda>w. \<exists>um. w = accepted_world um init_proto) (conn_step sws sc) w"
  shows "w_reads w \<le> 1 \<and> (w_reads w = 1 \<longrightarrow> happen sws sc (Received err data) w \<noteq> None)"
proof -
  have ok: "reading_ok w" using ro.inv_reach [of sws sc w] assms by simp
  then obtain c evs where "read_complete_i sc err data (w_conn w) = Some (c, evs)"
    using read_complete_reads [OF assms(2)] by (metis reading_ok_def)
  with ok show ?thesis by (simp add: reading_ok_def happen_def)
qed

section \<open>Instances\<close>

definition failing_run :: "happening list" where
  "failing_run = [Client_write [9], Run_task, Written True 0]"

lemma drop_conn_polite: "polite_close drop_conn"
  by (simp add: polite_close_def drop_conn_def)

definition failed_world :: world where
  "failed_world = the (happens put_flag drop_conn failing_run (accepted_world True init_proto))"

lemma failed_world_reach:
  "reach (\<lambda>w. \<exists>um. w = accepted_world um init_proto) (conn_step put_flag drop_conn) w \<Longrightarrow>
    happens put_flag drop_conn hs w = Some v \<Longrightarrow>
    reach (\<lambda>w. \<exists>um. w = accepted_world um init_proto) (conn_step put_flag drop_conn) v"
  by (induction hs arbitrary: w) (auto simp: bind_eq_Some_conv, blast intro: reach_step conn_step.intros)

lemma failed_world_run: "happens put_flag drop_conn failing_run (accepted_world True init_proto) = Some failed_world"
  "w_reads failed_world = 1" "m_status (w_conn failed_world) = RPC_DISCONNECTED"
  by (simp_all add: failed_world_def failing_run_def world_defs drop_conn_def has_status_def)

theorem one_read_outstanding_witness:
  "m_status (w_conn failed_world) = RPC_DISCONNECTED \<and> w_reads failed_world \<le> 1
    \<and> happen put_flag drop_conn (Received False [4]) failed_world \<noteq> None"
proof -
  have "reach (\<lambda>w. \<exists>um. w = accepted_world um init_proto) (conn_step put_flag drop_conn) failed_world"
    by (rule failed_world_reach [OF _ failed_world_run(1)]) (blast intro: reach_init)
  from one_read_outstanding [OF put_flag_sets drop_conn_polite this, of False "[4]"] failed_world_run(2,3)
  show ?thesis by simp
qed

end
