(* ===== verification/RpcBroken.thy ===== *)
theory RpcBroken
  imports RpcDispatch "HOL-Library.Sublist"
begin

text \<open>
  Connections that break: what the other side handles when writes fail, reads fail or the connection is closed
  in the middle of a message. \<open>sync_close_i\<close> is any function; of the socket it is used that nothing more leaves it once an
  operation on it has failed or \<open>sync_close_i\<close> has run.
\<close>

section \<open>Breaking off\<close>

text \<open>The happenings that end a connection.\<close>

definition breaks :: "happening \<Rightarrow> world \<Rightarrow> bool" where
  "breaks h w \<longleftrightarrow> (case h of
      Run_task \<Rightarrow> (\<exists>type ts. w_tasks w = Sync_close type # ts)
    | Written err n \<Rightarrow> err
    | Received err data \<Rightarrow> err
    | _ \<Rightarrow> False)"

fun takes_nothing :: "happening \<Rightarrow> bool" where
  "takes_nothing (Written err n) \<longleftrightarrow> n = 0"
| "takes_nothing _ \<longleftrightarrow> True"

fun cut_off :: "(bool \<Rightarrow> conn \<Rightarrow> conn) \<Rightarrow> (rpc_close_type \<Rightarrow> conn \<Rightarrow> conn \<times> conn_event list)
    \<Rightarrow> happening list \<Rightarrow> world \<Rightarrow> bool" where
  "cut_off sws sc [] w \<longleftrightarrow> True"
| "cut_off sws sc (h # hs) w \<longleftrightarrow> (if breaks h w then list_all takes_nothing hs
     else case happen sws sc h w of None \<Rightarrow> True | Some w' \<Rightarrow> cut_off sws sc hs w')"

section \<open>The wire\<close>

definition wire_ok :: "world \<Rightarrow> bool" where
  "wire_ok w \<longleftrightarrow> (m_is_writing (w_conn w) \<longleftrightarrow> m_write_queue (w_conn w) \<noteq> [])
     \<and> w_writes w = (if m_is_writing (w_conn w) then [hd (m_write_queue (w_conn w))] else [])"

lemma absorb_wire: "w_wire (absorb evs w) = w_wire w \<and> w_conn (absorb evs w) = w_conn w"
  by (induction evs w rule: absorb.induct) (simp_all split: conn_event.split)

lemma sync_write_wire:
  assumes "sets_flag sws" and "wire_ok w" and "w_tasks w = Sync_write data # ts"
    and "sync_write_i sws data (w_conn w) = (c, evs)"
  defines "w' \<equiv> absorb evs (w\<lparr>w_tasks := ts, w_conn := c\<rparr>)"
  shows "wire_ok w' \<and> accepted_bytes w' = accepted_bytes w"
  using assms
  by (auto simp: sync_write_i_def start_sending_buffer_i_def wire_ok_def sets_flag_def Let_def
      accepted_bytes_def task_data_def split: if_splits list.splits)

lemma write_complete_wire:
  assumes "sets_flag sws" and "wire_ok w" and "w_writes w = buf # bufs"
    and "write_complete_i sws sc False (length buf) (w_conn w) = Some (c, evs)"
  defines "w' \<equiv> absorb evs (w\<lparr>w_writes := bufs, w_wire := w_wire w @ take (length buf) buf, w_conn := c\<rparr>)"
  shows "wire_ok w' \<and> accepted_bytes w' = accepted_bytes w"
  using assms
  by (auto simp: write_complete_i_def start_sending_buffer_i_def wire_ok_def sets_flag_def Let_def
      accepted_bytes_def split: if_splits list.splits)

lemma read_complete_wire:
  fixes n :: nat
  assumes "wire_ok w" and "read_complete_i sc False data (w_conn w) = Some (c, evs)"
  defines "w' \<equiv> absorb evs (w\<lparr>w_reads := n, w_conn := c\<rparr>)"
  shows "wire_ok w' \<and> accepted_bytes w' = accepted_bytes w"
  using assms
  by (auto simp: read_complete_i_def close_conn_def bind_eq_Some_conv wire_ok_def absorb_strategy accepted_bytes_def
      task_data_def split: if_splits)

text \<open>Until it breaks off, everything that has been handed over is on the wire, queued or posted.\<close>

lemma whole_step:
  assumes "sets_flag sws" and "wire_ok w" and "happen sws sc h w = Some w'" and "\<not> breaks h w"
  shows "wire_ok w' \<and> accepted_bytes w' = accepted_bytes w @ client_data h"
proof (cases h)
  case Run_task
  then obtain data ts where t: "w_tasks w = Sync_write data # ts"
    using assms(3,4) by (cases "w_tasks w"; cases "hd (w_tasks w)") (auto simp: happen_def breaks_def)
  obtain c evs where "sync_write_i sws data (w_conn w) = (c, evs)" by fastforce
  with sync_write_wire [OF assms(1,2) t this] Run_task t assms(3) show ?thesis
    by (simp add: happen_def client_data_def)
next
  case (Written err n)
  with assms(3,4) obtain buf bufs where b: "w_writes w = buf # bufs" "\<not> err" "n = length buf"
    by (auto simp: happen_def breaks_def split: list.splits if_splits)
  with Written assms(3) obtain c evs where "write_complete_i sws sc False (length buf) (w_conn w) = Some (c, evs)"
    by (auto simp: happen_def bind_eq_Some_conv)
  with write_complete_wire [OF assms(1,2) b(1) this] Written b assms(3) show ?thesis
    by (simp add: happen_def client_data_def)
next
  case (Received err data)
  with assms(3,4) obtain c evs where "read_complete_i sc False data (w_conn w) = Some (c, evs)" "\<not> err"
    "w' = absorb evs (w\<lparr>w_reads := w_reads w - 1, w_conn := c\<rparr>)"
    by (auto simp: happen_def breaks_def bind_eq_Some_conv split: if_splits)
  with read_complete_wire [OF assms(2)] Received show ?thesis by (simp add: client_data_def)
qed (use assms(2,3) in \<open>auto simp: happen_def async_write_def close_conn_def wire_ok_def accepted_bytes_def
  client_data_def task_data_def\<close>)

text \<open>The happening that breaks it off puts a part of the front buffer on the wire at most.\<close>

lemma break_step:
  assumes "wire_ok w" and "happen sws sc h w = Some w'" and "breaks h w"
  shows "prefix (w_wire w') (accepted_bytes w)"
proof (cases h)
  case (Written err n)
  with assms(2) obtain buf bufs where b: "w_writes w = buf # bufs" "w_wire w' = w_wire w @ take n buf"
    by (auto simp: happen_def bind_eq_Some_conv absorb_wire split: list.splits if_splits)
  with assms(1) obtain rest where "m_write_queue (w_conn w) = buf # rest"
    by (cases "m_write_queue (w_conn w)") (auto simp: wire_ok_def split: if_splits)
  with b(2) show ?thesis by (simp add: accepted_bytes_def take_is_prefix prefix_append)
qed (use assms(2) in \<open>auto simp: happen_def bind_eq_Some_conv absorb_wire accepted_bytes_def async_write_def close_conn_def
  split: list.splits if_splits prod.splits\<close>)

lemma silent_step: "takes_nothing h \<Longrightarrow> happen sws sc h w = Some w' \<Longrightarrow> w_wire w' = w_wire w"
  by (cases h) (auto simp: happen_def bind_eq_Some_conv absorb_wire split: list.splits if_splits prod.splits)

lemma silent_run: "list_all takes_nothing hs \<Longrightarrow> happens sws sc hs w = Some w' \<Longrightarrow> w_wire w' = w_wire w"
  by (induction hs arbitrary: w) (auto simp: bind_eq_Some_conv dest: silent_step)

lemma wire_prefix:
  assumes "sets_flag sws" and "wire_ok w" and "happens sws sc hs w = Some w'" and "cut_off sws sc hs w"
  shows "prefix (w_wire w') (accepted_bytes w @ concat (map client_data hs))"
  using assms(2-4)
proof (induction hs arbitrary: w)
  case Nil
  then show ?case by (simp add: accepted_bytes_def)
next
  case (Cons h hs)
  from Cons.prems(2) obtain v where v: "happen sws sc h w = Some v" "happens sws sc hs v = Some w'"
    by (auto simp: bind_eq_Some_conv)
  show ?case
  proof (cases "breaks h w")
    case True
    then have "w_wire w' = w_wire v" using silent_run [OF _ v(2)] Cons.prems(3) by simp
    then show ?thesis using break_step [OF Cons.prems(1) v(1) True] by (simp add: prefix_prefix)
  next
    case False
    from whole_step [OF assms(1) Cons.prems(1) v(1) False] Cons.IH [OF _ v(2)] Cons.prems(3) False v(1)
    show ?thesis by simp
  qed
qed

section \<open>What is handled\<close>

definition sent_head :: "16 word \<times> bytes \<Rightarrow> msg_head \<times> bytes" where
  "sent_head m = (zero_head\<lparr>hd_len := of_nat (length (snd m)), hd_cmd := fst m\<rparr>, snd m)"

abbreviation stream_of :: "(16 word \<times> bytes) list \<Rightarrow> bytes" where
  "stream_of ms \<equiv> concat (map (\<lambda>(cmd, body). make_msg cmd body) ms)"

lemma split_msgs_stream:
  "list_all sendable ms \<Longrightarrow> split_msgs (stream_of ms) = (map sent_head ms, [])"
proof (induction ms)
  case Nil
  then show ?case by (subst split_msgs.simps) (simp add: head_size_def)
next
  case (Cons m ms)
  then have "split_msgs (make_msg (fst m) (snd m)) = ([sent_head m], [])"
    using split_msgs_make_msg [of "snd m" "fst m"] by (simp add: sendable_def sent_head_def zero_head_def)
  with Cons split_msgs_append [of "make_msg (fst m) (snd m)" "stream_of ms"] show ?case
    by (simp add: case_prod_unfold)
qed

lemma split_msgs_prefix:
  assumes "list_all sendable ms" and "prefix bs (stream_of ms)"
  obtains ms' where "fst (split_msgs bs) = map sent_head ms'" "prefix ms' ms"
proof -
  from assms(2) obtain cs where "stream_of ms = bs @ cs" by (auto simp: prefix_def)
  obtain x rest y r where x: "split_msgs bs = (x, rest)" "split_msgs (rest @ cs) = (y, r)" by fastforce
  with split_msgs_append [of bs cs] split_msgs_stream [OF assms(1)] \<open>stream_of ms = bs @ cs\<close>
  have "map sent_head ms = x @ y" by simp
  then have "prefix (fst (split_msgs bs)) (map sent_head ms)" using x(1) by simp
  then obtain k where "fst (split_msgs bs) = map sent_head (take k ms)"
    by (metis prefix_def append_eq_conv_conj take_map)
  then show thesis using that take_is_prefix by blast
qed

lemma events_of_sent: "events_of cv (map sent_head ms) = concat (map (msg_events cv) ms)"
  by (induction ms) (simp_all add: sent_head_def msg_events_def zero_head_def)

lemma prefix_handled:
  assumes "proto_ok p" and "unread p = []" and "list_all sendable ms" and "prefix (concat reads) (stream_of ms)"
  obtains q evs ms' where "proto_run cv (map Read reads) p = Some (q, evs)" "prefix ms' ms"
    "run_posted calls unknown evs = concat (map (\<lambda>m. handle_msg calls unknown 1 (fst m) 0 (snd m)) ms')"
proof -
  obtain ms' where ms': "fst (split_msgs (concat reads)) = map sent_head ms'" "prefix ms' ms"
    by (rule split_msgs_prefix [OF assms(3,4)])
  obtain q where "read_loop cv (concat reads) p = Some (q, concat (map (msg_events cv) ms'))"
    using read_loop_splits [OF assms(1), of cv "concat reads"] assms(2) ms'(1) by (auto simp: events_of_sent)
  then have "posted (proto_run cv (map Read reads) p) = Some (q, concat (map (msg_events cv) ms'))"
    by (simp add: posted_reads [OF assms(1)] rd.feed_all_concat [OF assms(1)])
  then obtain evs where evs: "proto_run cv (map Read reads) p = Some (q, evs)"
    "filter (\<lambda>e. e \<noteq> Async_read) evs = concat (map (msg_events cv) ms')"
    by (auto simp: posted_def)
  have "run_posted calls unknown evs = run_posted calls unknown (concat (map (msg_events cv) ms'))"
    unfolding evs(2) [symmetric] by (rule run_posted_reads [symmetric])
  with that [OF evs(1) ms'(2)] show thesis by (simp add: run_posted_messages)
qed

lemma broken_wire:
  assumes "sets_flag sws" and "client_calls hs = map send_happening ms" and "list_all sendable ms"
    and "happens sws sc hs (accepted_world um init_proto) = Some w"
    and "cut_off sws sc hs (accepted_world um init_proto)"
  shows "prefix (w_wire w) (stream_of ms)"
proof -
  let ?w = "accepted_world um init_proto"
  have start: "wire_ok ?w" "accepted_bytes ?w = []"
    using accepted_world_ok(1,2) [OF proto_ok_init(1), of um] by (simp_all add: conn_ok_def writing_ok_def wire_ok_def Let_def)
  have "concat (map client_data hs) = stream_of ms"
    by (subst client_data_calls)
      (simp add: assms(2) send_happening_def client_data_def comp_def case_prod_unfold)
  with wire_prefix [OF assms(1) start(1) assms(4,5)] start(2) show ?thesis by simp
qed

text \<open>What is handled is a prefix of what was sent. A sender's connection runs through any
  interleaving of \<open>async_send\<close> calls, closes, tasks and completions, failed ones too, and may break off anywhere; the
  receiver's object is between two messages, and any prefix of what has left the socket reaches it, cut into reads anywhere.
  Then the messages handled are a prefix of the messages sent: none is lost before another, repeated,
  reordered, made up or handed over in part.\<close>

theorem handled_is_prefix:
  assumes "sets_flag sws" and "client_calls hs = map send_happening ms" and "list_all sendable ms"
    and "happens sws sc hs (accepted_world um init_proto) = Some w"
    and "cut_off sws sc hs (accepted_world um init_proto)"
    and "reach (\<lambda>p. p = init_proto) (proto_step cv) p" and "unread p = []" and "prefix (concat reads) (w_wire w)"
  shows "\<exists>q evs ms'. proto_run cv (map Read reads) p = Some (q, evs) \<and> prefix ms' ms
    \<and> run_posted calls unknown evs = concat (map (\<lambda>m. handle_msg calls unknown 1 (fst m) 0 (snd m)) ms')"
proof -
  have "prefix (concat reads) (stream_of ms)"
    using prefix_order.trans [OF assms(8) broken_wire [OF assms(1-5)]] .
  from prefix_handled [OF ps.inv_reach [OF assms(6)] assms(7,3) this] show ?thesis by blast
qed

section \<open>Instances\<close>

text \<open>Two messages are sent; the second write fails after nine bytes.\<close>

definition broken_run :: "happening list" where
  "broken_run = [Client_write (make_msg 4 [7, 8]), Client_write (make_msg 5 [9, 9]), Run_task, Run_task,
     Written False 10, Written True 9, Client_write (make_msg 6 [1]), Run_task, Written True 0]"

definition broken_world :: world where
  "broken_world = the (happens put_flag drop_conn broken_run (accepted_world True init_proto))"

lemma broken_steps:
  "happens put_flag drop_conn broken_run (accepted_world True init_proto) = Some broken_world"
  "cut_off put_flag drop_conn broken_run (accepted_world True init_proto)"
  "w_wire broken_world = make_msg 4 [7, 8] @ take 9 (make_msg 5 [9, 9])"
  by (simp_all add: broken_world_def broken_run_def world_defs breaks_def drop_conn_def has_status_def)

theorem handled_is_prefix_witness:
  "\<exists>q evs ms'. proto_run \<lparr>cv_type = RPC_ACTIVE, cv_monitor = False\<rparr> [Read (w_wire broken_world)] init_proto = Some (q, evs)
    \<and> prefix ms' [(4, [7, 8]), (5, [9, 9]), (6, [1])]
    \<and> run_posted (reg_all two_calls) on_unknown_default evs
       = concat (map (\<lambda>m. handle_msg (reg_all two_calls) on_unknown_default 1 (fst m) 0 (snd m)) ms')"
proof -
  have "client_calls broken_run = map send_happening [(4, [7, 8]), (5, [9, 9]), (6, [1])]"
    by (simp add: client_calls_def broken_run_def send_happening_def)
  moreover have "list_all sendable [(4, [7, 8]), (5, [9, 9]), (6, [1 :: 8 word])]" by (simp add: sendable_def)
  ultimately show ?thesis
    using handled_is_prefix [OF put_flag_sets _ _ broken_steps(1,2) reach_init proto_ok_init(2), where
      reads = "[w_wire broken_world]" and calls = "reg_all two_calls" and unknown = on_unknown_default
      and cv = "\<lparr>cv_type = RPC_ACTIVE, cv_monitor = False\<rparr>"] by simp
qed

end
