(* ===== verification/RpcHub.thy ===== *)
theory RpcHub
  imports RpcBroken
begin

text \<open>
  Many connections on one server: the strategy objects of all connections that a server of
  mylib/rpc/rpc\_server.h accepts post their messages to the one io service of the server, while the
  connections themselves are read on any services of the pool. \<open>create_listener\<close> gives each connection an
  object of its own with its own table of calls.

  The queue of that io service is shared, and calls on the objects and turns of the service interleave in any
  way. Seen from one connection, all others do not exist: its messages are handled in their order, and none is
  lost, made up or handed to the methods of another.
\<close>

section \<open>The shared queue\<close>

record ('m, 'f) hub =
  h_protos :: "nat \<Rightarrow> proto"
  h_queue :: "(nat \<times> proto_event) list"
  h_handled :: "(nat \<times> ('m, 'f) rpc_event) list"

definition init_hub :: "('m, 'f) hub" where
  "init_hub = \<lparr>h_protos = (\<lambda>_. init_proto), h_queue = [], h_handled = []\<rparr>"

text \<open>A call on the object of a connection; what it posts goes to the end of the queue.\<close>

definition hub_call :: "(nat \<Rightarrow> conn_view) \<Rightarrow> nat \<Rightarrow> proto_call \<Rightarrow> ('m, 'f) hub \<Rightarrow> ('m, 'f) hub option" where
  "hub_call cv i c h = do {
     (p, evs) \<leftarrow> proto_do (cv i) c (h_protos h i);
     Some (h\<lparr>h_protos := (h_protos h)(i := p), h_queue := h_queue h @ map (Pair i) (filter is_post evs)\<rparr>)
   }"

text \<open>A turn of the io service: the oldest message is handled, by the object that has posted it.\<close>

definition hub_turn :: "(nat \<Rightarrow> ('m, 'f) calls) \<Rightarrow> (nat \<Rightarrow> 16 word \<Rightarrow> bytes \<Rightarrow> int) \<Rightarrow> ('m, 'f) hub \<Rightarrow> ('m, 'f) hub option" where
  "hub_turn calls unknown h =
     (case h_queue h of [] \<Rightarrow> None
      | (i, e) # q \<Rightarrow> Some (h\<lparr>h_queue := q,
          h_handled := h_handled h @ map (Pair i) (run_posted (calls i) (unknown i) [e])\<rparr>))"

datatype hub_event = Hub_call nat proto_call | Hub_turn

fun hub_run :: "(nat \<Rightarrow> conn_view) \<Rightarrow> (nat \<Rightarrow> ('m, 'f) calls) \<Rightarrow> (nat \<Rightarrow> 16 word \<Rightarrow> bytes \<Rightarrow> int)
    \<Rightarrow> hub_event list \<Rightarrow> ('m, 'f) hub \<Rightarrow> ('m, 'f) hub option" where
  "hub_run cv calls unknown [] h = Some h"
| "hub_run cv calls unknown (Hub_call i c # evs) h = do { h \<leftarrow> hub_call cv i c h; hub_run cv calls unknown evs h }"
| "hub_run cv calls unknown (Hub_turn # evs) h = do { h \<leftarrow> hub_turn calls unknown h; hub_run cv calls unknown evs h }"

section \<open>The hub seen from one connection\<close>

definition on_conn :: "nat \<Rightarrow> (nat \<times> 'a) list \<Rightarrow> 'a list" where
  "on_conn i xs = map snd (filter (\<lambda>(j, x). j = i) xs)"

fun calls_on_conn :: "nat \<Rightarrow> hub_event list \<Rightarrow> proto_call list" where
  "calls_on_conn i [] = []"
| "calls_on_conn i (Hub_call j c # evs) = (if j = i then c # calls_on_conn i evs else calls_on_conn i evs)"
| "calls_on_conn i (Hub_turn # evs) = calls_on_conn i evs"

lemma on_conn_simps [simp]:
  "on_conn i [] = []" "on_conn i ((j, x) # xs) = (if j = i then x # on_conn i xs else on_conn i xs)"
  "on_conn i (xs @ ys) = on_conn i xs @ on_conn i ys" "on_conn i (map (Pair j) zs) = (if j = i then zs else [])"
  by (simp_all add: on_conn_def comp_def filter_map)

text \<open>What has been handled on a connection and what is queued for it is what its object alone has posted.\<close>

lemma hub_run_on_conn:
  assumes "hub_run cv calls unknown evs h = Some h'"
  shows "\<exists>ps. proto_run (cv i) (calls_on_conn i evs) (h_protos h i) = Some (h_protos h' i, ps)
    \<and> on_conn i (h_handled h') @ run_posted (calls i) (unknown i) (on_conn i (h_queue h'))
      = on_conn i (h_handled h) @ run_posted (calls i) (unknown i) (on_conn i (h_queue h) @ ps)"
  using assms
proof (induction cv calls unknown evs h rule: hub_run.induct)
  case (2 cv calls unknown j c evs h)
  then obtain p qs u where u: "proto_do (cv j) c (h_protos h j) = Some (p, qs)"
    "u = h\<lparr>h_protos := (h_protos h)(j := p), h_queue := h_queue h @ map (Pair j) (filter is_post qs)\<rparr>"
    "hub_call cv j c h = Some u" "hub_run cv calls unknown evs u = Some h'"
    by (auto simp: hub_call_def bind_eq_Some_conv)
  from "2.IH" [OF u(3,4)] u(1,2) show ?case by (cases "j = i") auto
next
  case (3 cv calls unknown evs h)
  then obtain u where u: "hub_turn calls unknown h = Some u" "hub_run cv calls unknown evs u = Some h'"
    by (auto simp: bind_eq_Some_conv)
  then obtain j e q where e: "h_queue h = (j, e) # q" "u = h\<lparr>h_queue := q,
      h_handled := h_handled h @ map (Pair j) (run_posted (calls j) (unknown j) [e])\<rparr>"
    by (auto simp: hub_turn_def split: list.splits)
  from "3.IH" [OF u] obtain ps where ps: "proto_run (cv i) (calls_on_conn i evs) (h_protos u i) = Some (h_protos h' i, ps)"
    "on_conn i (h_handled h') @ run_posted (calls i) (unknown i) (on_conn i (h_queue h'))
      = on_conn i (h_handled u) @ run_posted (calls i) (unknown i) (on_conn i (h_queue u) @ ps)" by blast
  have "run_posted (calls i) (unknown i) (e # on_conn i q @ ps)
      = run_posted (calls i) (unknown i) [e] @ run_posted (calls i) (unknown i) (on_conn i q @ ps)"
    using run_posted_append [of "calls i" "unknown i" "[e]" "on_conn i q @ ps"] by simp
  with ps e show ?case by (cases "j = i") (simp_all del: run_posted.simps run_posted_append)
qed simp


text \<open>Draining the queue: the turns that are left.\<close>

lemma hub_drains:
  "\<exists>h'. hub_run cv calls unknown (replicate (length (h_queue h)) Hub_turn) h = Some h' \<and> h_queue h' = []"
proof (induction "h_queue h" arbitrary: h)
  case (Cons t ts)
  obtain i e where t: "t = (i, e)" by (cases t)
  let ?u = "h\<lparr>h_queue := ts, h_handled := h_handled h @ map (Pair i) (run_posted (calls i) (unknown i) [e])\<rparr>"
  have "hub_turn calls unknown h = Some ?u" using t by (simp add: hub_turn_def flip: Cons.hyps(2))
  with Cons.hyps(1) [of ?u] show ?case by (simp flip: Cons.hyps(2))
qed simp

lemma hub_run_append:
  "hub_run cv calls unknown (xs @ ys) h = Option.bind (hub_run cv calls unknown xs h) (hub_run cv calls unknown ys)"
  by (induction cv calls unknown xs h rule: hub_run.induct) (auto split: Option.bind_splits)

lemma calls_on_conn_append [simp]: "calls_on_conn i (xs @ ys) = calls_on_conn i xs @ calls_on_conn i ys"
  by (induction i xs rule: calls_on_conn.induct) simp_all

lemma calls_on_conn_turns [simp]: "calls_on_conn i (replicate n Hub_turn) = []"
  by (induction n) simp_all

section \<open>Many senders\<close>

lemma reads_keep_broken:
  assumes "proto_ok p" and "proto_run cv (map Read reads) p = Some (q, evs)"
  shows "m_is_broken q = m_is_broken p"
  using assms
proof (induction reads arbitrary: p evs)
  case (Cons data reads)
  obtain u where u: "on_read cv data p = Some (0, u, events_of cv (fst (split_msgs (unread p @ data))) @ [Async_read])"
    "proto_ok u" "m_is_broken u = m_is_broken p" using on_read_splits [OF Cons.prems(1), of cv data] by blast
  with Cons.prems(2) obtain es where "proto_run cv (map Read reads) u = Some (q, es)"
    by (auto simp: proto_do_def bind_eq_Some_conv)
  from Cons.IH [OF u(2) this] u(3) show ?case by simp
qed simp

lemma proto_run_append:
  "proto_run cv (xs @ ys) p = do { (q, evs) \<leftarrow> proto_run cv xs p; (r, evs') \<leftarrow> proto_run cv ys q; Some (r, evs @ evs') }"
  by (induction cv xs p rule: proto_run.induct) (auto split: Option.bind_splits prod.splits)

text \<open>An accepted object: after \<open>on_remote_open\<close> it is between two messages.\<close>

lemma opened_proto:
  "proto_do cv Remote_open init_proto = Some (reset init_proto, (if monitored cv then [Monitor_add] else []) @ [Async_read])"
  "proto_ok (reset init_proto)" "unread (reset init_proto) = []"
  "run_posted calls unknown ((if monitored cv then [Monitor_add] else []) @ [Async_read]) = []"
  using proto_ok_reset(1) [OF proto_ok_init(1)] proto_ok_reset(2)
  by (simp_all add: proto_do_def on_remote_open_def)

lemma opened_run:
  assumes "proto_run cv cs (reset init_proto) = Some (q, ps)"
  shows "\<exists>qs. proto_run cv (Remote_open # cs) init_proto = Some (q, qs) \<and> run_posted calls unknown qs = run_posted calls unknown ps"
  using assms opened_proto(1) [of cv] opened_proto(4) [of calls unknown cv] by simp

text \<open>C7: On a server with any number of connections, at any time and whatever happens on the others, failures
  included, what has been handled on a connection is what the messages that its sender has sent lead to, in
  order and as far as they have got. The sender's connection is closed or fails anywhere, its stream is cut into
  reads anywhere, and messages of all connections mix in the queue of the server.\<close>

theorem connections_are_isolated:
  assumes "sets_flag sws" and "client_calls hs = map send_happening ms" and "list_all sendable ms"
    and "happens sws sc hs (accepted_world um init_proto) = Some w"
    and "cut_off sws sc hs (accepted_world um init_proto)"
    and "hub_run cv calls unknown evs init_hub = Some h"
    and "calls_on_conn i evs = Remote_open # map Read reads" and "prefix (concat reads) (w_wire w)"
  shows "prefix (on_conn i (h_handled h)) (concat (map (\<lambda>m. handle_msg (calls i) (unknown i) 1 (fst m) 0 (snd m)) ms))"
proof -
  have "prefix (concat reads) (stream_of ms)"
    using prefix_order.trans [OF assms(8) broken_wire [OF assms(1-5)]] .
  from prefix_handled [OF opened_proto(2,3) assms(3) this] obtain q ps ms' where
    q: "proto_run (cv i) (map Read reads) (reset init_proto) = Some (q, ps)" "prefix ms' ms"
      "run_posted (calls i) (unknown i) ps = concat (map (\<lambda>m. handle_msg (calls i) (unknown i) 1 (fst m) 0 (snd m)) ms')" .
  from opened_run [OF q(1)] obtain qs where qs: "proto_run (cv i) (Remote_open # map Read reads) init_proto = Some (q, qs)"
    "run_posted (calls i) (unknown i) qs = run_posted (calls i) (unknown i) ps" by blast
  from hub_run_on_conn [OF assms(6), of i] qs(1)
  have "on_conn i (h_handled h) @ run_posted (calls i) (unknown i) (on_conn i (h_queue h)) = run_posted (calls i) (unknown i) qs"
    unfolding assms(7) by (simp add: init_hub_def del: proto_run.simps)
  then have "prefix (on_conn i (h_handled h)) (run_posted (calls i) (unknown i) ps)"
    using qs(2) by (metis prefixI)
  moreover have "prefix (run_posted (calls i) (unknown i) ps) (concat (map (\<lambda>m. handle_msg (calls i) (unknown i) 1 (fst m) 0 (snd m)) ms))"
    using q(2,3) by (auto simp: prefix_def)
  ultimately show ?thesis by (rule prefix_order.trans)
qed

text \<open>C6: When the sender of a connection has sent all its messages undisturbed, all have been read and the connection has been
  closed, then the turns that the server has still to take exist, and after them the methods of this connection have got exactly its
  messages, each once and in order, and \<open>on_broken\<close> once behind them, whatever the other connections did.\<close>

theorem connections_are_served:
  assumes "sets_flag sws" and "list_all healthy hs" and "client_calls hs = map send_happening ms"
    and "list_all sendable ms" and "happens sws sc hs (accepted_world um init_proto) = Some w"
    and "w_tasks w = []" and "w_writes w = []"
    and "hub_run cv calls unknown evs init_hub = Some h"
    and "calls_on_conn i evs = Remote_open # map Read reads @ [Closed]" and "concat reads = w_wire w"
  shows "\<exists>h'. hub_run cv calls unknown (replicate (length (h_queue h)) Hub_turn) h = Some h' \<and> h_queue h' = []
    \<and> on_conn i (h_handled h') = concat (map (\<lambda>m. handle_msg (calls i) (unknown i) 1 (fst m) 0 (snd m)) ms) @ [On_broken]"
proof -
  let ?ms = "concat (map (\<lambda>m. handle_msg (calls i) (unknown i) 1 (fst m) 0 (snd m)) ms)"
  have wire: "concat reads = stream_of ms"
    using healthy_wire [OF assms(1-3,5-7)] assms(10) by simp
  obtain q where "posted (proto_run (cv i) (map Read reads) (reset init_proto)) = Some (q, concat (map (msg_events (cv i)) ms))"
    using stream_frames [OF opened_proto(2,3) assms(4) wire] by blast
  then obtain ps where ps: "proto_run (cv i) (map Read reads) (reset init_proto) = Some (q, ps)"
    "filter (\<lambda>e. e \<noteq> Async_read) ps = concat (map (msg_events (cv i)) ms)" by (auto simp: posted_def)
  have handled: "run_posted (calls i) (unknown i) ps = ?ms"
    using run_posted_messages [of "calls i" "unknown i" "cv i" ms] run_posted_reads [of "calls i" "unknown i" ps] ps(2) by metis
  have "\<not> m_is_broken q" using reads_keep_broken [OF opened_proto(2) ps(1)] proto_ok_reset(3) by blast
  then obtain q' es where closed: "proto_do (cv i) Closed q = Some (q', es)" "run_posted (calls i) (unknown i) es = [On_broken]"
    by (auto simp: proto_do_def on_closed_def post_broken_msg_i_def handle_msg_def)
  obtain h' where h': "hub_run cv calls unknown (replicate (length (h_queue h)) Hub_turn) h = Some h'" "h_queue h' = []"
    using hub_drains by blast
  with assms(8) have "hub_run cv calls unknown (evs @ replicate (length (h_queue h)) Hub_turn) init_hub = Some h'"
    by (simp add: hub_run_append)
  note all = hub_run_on_conn [OF this, of i]
  have "proto_run (cv i) (map Read reads @ [Closed]) (reset init_proto) = Some (q', ps @ es)"
    using ps(1) closed(1) by (simp add: proto_run_append)
  from opened_run [OF this] obtain qs where qs: "proto_run (cv i) (Remote_open # map Read reads @ [Closed]) init_proto = Some (q', qs)"
    "run_posted (calls i) (unknown i) qs = run_posted (calls i) (unknown i) (ps @ es)" by blast
  from all qs(1) h'(2) have "on_conn i (h_handled h') = run_posted (calls i) (unknown i) qs"
    using assms(9) by (simp add: init_hub_def del: proto_run.simps)
  then have "on_conn i (h_handled h') = run_posted (calls i) (unknown i) (ps @ es)" using qs(2) by simp
  with h' handled closed(2) show ?thesis by simp
qed


section \<open>Instances\<close>

lemma hub_calls_run:
  assumes "\<forall>i. proto_ok (h_protos h i)"
  shows "\<exists>h'. hub_run cv calls unknown (map (\<lambda>(i, c). Hub_call i c) ics) h = Some h'"
  using assms
proof (induction ics arbitrary: h)
  case (Cons ic ics)
  obtain i c where ic: "ic = (i, c)" by (cases ic)
  obtain p evs where p: "proto_do (cv i) c (h_protos h i) = Some (p, evs)" "proto_ok p"
    using proto_do_ok Cons.prems by blast
  with Cons.IH [of "h\<lparr>h_protos := (h_protos h)(i := p), h_queue := h_queue h @ map (Pair i) (filter is_post evs)\<rparr>"]
    Cons.prems ic show ?case by (simp add: hub_call_def)
qed simp

text \<open>Two connections: the first one's sender is healthy or breaks off, the second sends half a head and is closed.\<close>

definition two_views :: "nat \<Rightarrow> conn_view" where
  "two_views i = \<lparr>cv_type = RPC_PASSIVE, cv_monitor = False\<rparr>"

definition mixed_calls :: "bytes \<Rightarrow> bool \<Rightarrow> hub_event list" where
  "mixed_calls wire ends = map (\<lambda>(i, c). Hub_call i c)
     ([(0, Remote_open), (1, Remote_open), (0, Read (take 5 wire)), (1, Read [1, 2, 3]), (0, Read (drop 5 wire)), (1, Closed)]
      @ (if ends then [(0, Closed)] else []))"

lemma mixed_calls_on: "calls_on_conn 0 (mixed_calls wire ends)
    = Remote_open # map Read [take 5 wire, drop 5 wire] @ (if ends then [Closed] else [])"
  by (simp add: mixed_calls_def)

lemma mixed_run: "\<exists>h. hub_run cv calls unknown (mixed_calls wire ends) init_hub = Some h"
  unfolding mixed_calls_def by (rule hub_calls_run) (simp add: init_hub_def proto_ok_init)

theorem connections_are_isolated_witness:
  "\<exists>n h. hub_run two_views (\<lambda>_. reg_all two_calls) (\<lambda>_. on_unknown_default)
      (mixed_calls (w_wire broken_world) False @ replicate n Hub_turn) init_hub = Some h
    \<and> h_queue h = []
    \<and> prefix (on_conn 0 (h_handled h)) [Invoke ''on_text'' [7, 8], On_unknown 5 [9, 9], Close_conn RPC_SHUTDOWN,
        On_unknown 6 [1], Close_conn RPC_SHUTDOWN]"
proof -
  let ?run = "hub_run two_views (\<lambda>_. reg_all two_calls) (\<lambda>_. on_unknown_default)"
  obtain u where u: "?run (mixed_calls (w_wire broken_world) False) init_hub = Some u" using mixed_run by blast
  obtain h where h: "?run (replicate (length (h_queue u)) Hub_turn) u = Some h" "h_queue h = []" using hub_drains by blast
  let ?evs = "mixed_calls (w_wire broken_world) False @ replicate (length (h_queue u)) Hub_turn"
  have run: "?run ?evs init_hub = Some h" using u h(1) by (simp add: hub_run_append)
  have on: "calls_on_conn 0 ?evs = Remote_open # map Read [take 5 (w_wire broken_world), drop 5 (w_wire broken_world)]"
    by (simp add: mixed_calls_on)
  have sent: "client_calls broken_run = map send_happening [(4, [7, 8]), (5, [9, 9]), (6, [1])]"
    by (simp add: client_calls_def broken_run_def send_happening_def)
  have "list_all sendable [(4, [7, 8]), (5, [9, 9]), (6, [1 :: 8 word])]" by (simp add: sendable_def)
  from connections_are_isolated [OF put_flag_sets sent this broken_steps(1,2) run on] h(2) run show ?thesis
    by (auto simp: two_calls_def reg_all_def reg_call_def handle_msg_def call_happen_def on_unknown_default_def)
qed

theorem connections_are_served_witness:
  "\<exists>n h. hub_run two_views (\<lambda>_. reg_all two_calls) (\<lambda>_. on_unknown_default)
      (mixed_calls (make_msg 4 [7, 8]) True @ replicate n Hub_turn) init_hub = Some h
    \<and> on_conn 0 (h_handled h) = [Invoke ''on_text'' [7, 8], On_broken]"
proof -
  let ?run = "hub_run two_views (\<lambda>_. reg_all two_calls) (\<lambda>_. on_unknown_default)"
  obtain u where u: "?run (mixed_calls (make_msg 4 [7, 8]) True) init_hub = Some u" using mixed_run by blast
  have on: "calls_on_conn 0 (mixed_calls (make_msg 4 [7, 8]) True)
      = Remote_open # map Read [take 5 (make_msg 4 [7, 8]), drop 5 (make_msg 4 [7, 8])] @ [Closed]"
    using mixed_calls_on [of _ True] by simp
  have "handle_msg (reg_all two_calls) on_unknown_default 1 4 0 [7, 8] = [Invoke ''on_text'' [7, 8]]"
    by (simp add: two_calls_def reg_all_def reg_call_def handle_msg_def call_happen_def)
  with connections_are_served [OF put_flag_sets _ _ _ sent_steps(1-3) u on, where ms = "[(4, [7, 8])]"] obtain h where
    "?run (replicate (length (h_queue u)) Hub_turn) u = Some h" "on_conn 0 (h_handled h) = [Invoke ''on_text'' [7, 8], On_broken]"
    by (auto simp: sent_steps(4) one_send_def healthy_def client_calls_def send_happening_def sendable_def)
  with u show ?thesis by (intro exI [where x = "length (h_queue u)"]) (auto simp: hub_run_append)
qed

end
