(* ===== verification/RpcTalk.thy ===== *)
theory RpcTalk
  imports RpcBroken
begin

text \<open>
  Conversations: the two ends of one connection together, each a connection (rpc\_connecter.cpp) with its protocol
  object (rpc\_common\_conn\_protocol.cpp) and its dispatcher (rpc.cpp), whose methods answer messages with
  \<open>async_send\<close> on the connection they are called with. One end has connected with \<open>sync_connect\<close>, the
  other has been accepted. What one end has put on the wire is read by the other in pieces of at most
  \<open>BUFFER_SIZE\<close> bytes.

  The methods are user code: a function from the unpacked message to the messages that they send during
  the call. Each end carries the history of what it has sent and handled.
\<close>

section \<open>Two ends\<close>

definition BUFFER_SIZE :: nat where
  "BUFFER_SIZE = 1024 * 8"

datatype side = Connecting | Accepting

fun far :: "side \<Rightarrow> side" where
  "far Connecting = Accepting"
| "far Accepting = Connecting"

type_synonym message = "16 word \<times> bytes"

record ('m, 'f) app =
  app_calls :: "('m, 'f) calls"
  app_unknown :: "16 word \<Rightarrow> bytes \<Rightarrow> int"
  app_sends :: "'f \<Rightarrow> 'm \<Rightarrow> message list"

record ('m, 'f) peer =
  p_world :: world
  p_taken :: nat
  p_queue :: "proto_event list"
  p_heard :: "('m, 'f) rpc_event list"
  p_done :: "message list"
  p_sent :: "message list"

type_synonym ('m, 'f) talk = "side \<Rightarrow> ('m, 'f) peer"

text \<open>A new connection that \<open>sync_connect\<close> has connected; \<open>None\<close> if it has not.\<close>

definition connected_world :: "'ep list option \<Rightarrow> ('ep \<Rightarrow> bool) \<Rightarrow> world option" where
  "connected_world resolved fails =
     (case sync_connect resolved fails (projr (init_conn (Some init_proto))) of
        Inr (ret, c, evs) \<Rightarrow> if ret = 0
          then Some (absorb evs \<lparr>w_conn = c, w_tasks = [], w_writes = [], w_reads = 0, w_wire = [], w_posted = []\<rparr>)
          else None
      | Inl _ \<Rightarrow> None)"

definition new_peer :: "world \<Rightarrow> ('m, 'f) peer" where
  "new_peer w = \<lparr>p_world = w, p_taken = 0, p_queue = filter is_post (w_posted w), p_heard = [], p_done = [], p_sent = []\<rparr>"

definition start_talk :: "'ep list option \<Rightarrow> ('ep \<Rightarrow> bool) \<Rightarrow> bool \<Rightarrow> ('m, 'f) talk option" where
  "start_talk resolved fails um = do {
     w \<leftarrow> connected_world resolved fails;
     Some (case_side (new_peer w) (new_peer (accepted_world um init_proto)))
   }"

section \<open>What can happen\<close>

text \<open>Something happens to the connection of an end; what its object posts goes to the end of its queue.\<close>

definition peer_happen :: "(bool \<Rightarrow> conn \<Rightarrow> conn) \<Rightarrow> (rpc_close_type \<Rightarrow> conn \<Rightarrow> conn \<times> conn_event list)
    \<Rightarrow> happening \<Rightarrow> ('m, 'f) peer \<Rightarrow> ('m, 'f) peer option" where
  "peer_happen sws sc h p = do {
     w \<leftarrow> happen sws sc h (p_world p);
     Some (p\<lparr>p_world := w, p_queue := p_queue p @ filter is_post (new_events (p_world p) w)\<rparr>)
   }"

text \<open>\<open>n\<close> bytes of what is on the wire \<open>line\<close> and has not been taken yet are read.\<close>

definition peer_read :: "(bool \<Rightarrow> conn \<Rightarrow> conn) \<Rightarrow> (rpc_close_type \<Rightarrow> conn \<Rightarrow> conn \<times> conn_event list)
    \<Rightarrow> bytes \<Rightarrow> nat \<Rightarrow> ('m, 'f) peer \<Rightarrow> ('m, 'f) peer option" where
  "peer_read sws sc line n p =
     (if n = 0 \<or> BUFFER_SIZE < n \<or> length line < p_taken p + n then None
      else do {
        p' \<leftarrow> peer_happen sws sc (Received False (take n (drop (p_taken p) line))) p;
        Some (p'\<lparr>p_taken := p_taken p + n\<rparr>)
      })"

text \<open>What the handling of a message does to the connection.\<close>

fun replies :: "('m, 'f) app \<Rightarrow> ('m, 'f) rpc_event \<Rightarrow> message list" where
  "replies a (Invoke f m) = app_sends a f m"
| "replies a _ = []"

fun reaction :: "('m, 'f) app \<Rightarrow> ('m, 'f) rpc_event \<Rightarrow> happening list" where
  "reaction a (Close_conn type) = [Client_close type]"
| "reaction a ev = map send_happening (replies a ev)"

fun posted_messages :: "proto_event \<Rightarrow> message list" where
  "posted_messages (Post_handle_msg flag cmd res body) = (if flag = 0 then [] else [(cmd, body)])"
| "posted_messages _ = []"

text \<open>A turn of the end's io service: the oldest message is handled.\<close>

definition peer_turn :: "(bool \<Rightarrow> conn \<Rightarrow> conn) \<Rightarrow> (rpc_close_type \<Rightarrow> conn \<Rightarrow> conn \<times> conn_event list)
    \<Rightarrow> ('m, 'f) app \<Rightarrow> ('m, 'f) peer \<Rightarrow> ('m, 'f) peer option" where
  "peer_turn sws sc a p = (case p_queue p of [] \<Rightarrow> None
     | e # q \<Rightarrow>
         (let evs = run_posted (app_calls a) (app_unknown a) [e]
          in do {
            w \<leftarrow> happens sws sc (concat (map (reaction a) evs)) (p_world p);
            Some (p\<lparr>p_world := w, p_queue := q, p_heard := p_heard p @ evs, p_done := p_done p @ posted_messages e,
              p_sent := p_sent p @ concat (map (replies a) evs)\<rparr>)
          }))"

datatype talk_event =
    Call side message
  | Io side
  | Flushed side
  | Deliver side nat
  | Turn side

fun talk_do :: "(bool \<Rightarrow> conn \<Rightarrow> conn) \<Rightarrow> (rpc_close_type \<Rightarrow> conn \<Rightarrow> conn \<times> conn_event list)
    \<Rightarrow> (side \<Rightarrow> ('m, 'f) app) \<Rightarrow> talk_event \<Rightarrow> ('m, 'f) talk \<Rightarrow> ('m, 'f) talk option" where
  "talk_do sws sc apps (Call s m) t = do {
     p \<leftarrow> peer_happen sws sc (send_happening m) (t s);
     Some (t(s := p\<lparr>p_sent := p_sent p @ [m]\<rparr>))
   }"
| "talk_do sws sc apps (Io s) t = do { p \<leftarrow> peer_happen sws sc Run_task (t s); Some (t(s := p)) }"
| "talk_do sws sc apps (Flushed s) t = (case w_writes (p_world (t s)) of [] \<Rightarrow> None
     | buf # _ \<Rightarrow> do { p \<leftarrow> peer_happen sws sc (Written False (length buf)) (t s); Some (t(s := p)) })"
| "talk_do sws sc apps (Deliver s n) t = do {
     p \<leftarrow> peer_read sws sc (w_wire (p_world (t (far s)))) n (t s);
     Some (t(s := p))
   }"
| "talk_do sws sc apps (Turn s) t = do { p \<leftarrow> peer_turn sws sc (apps s) (t s); Some (t(s := p)) }"

fun talk_run :: "(bool \<Rightarrow> conn \<Rightarrow> conn) \<Rightarrow> (rpc_close_type \<Rightarrow> conn \<Rightarrow> conn \<times> conn_event list)
    \<Rightarrow> (side \<Rightarrow> ('m, 'f) app) \<Rightarrow> talk_event list \<Rightarrow> ('m, 'f) talk \<Rightarrow> ('m, 'f) talk option" where
  "talk_run sws sc apps [] t = Some t"
| "talk_run sws sc apps (ev # evs) t = Option.bind (talk_do sws sc apps ev t) (talk_run sws sc apps evs)"

text \<open>The calls that the clients of an end have made.\<close>

fun calls_of :: "side \<Rightarrow> talk_event list \<Rightarrow> message list" where
  "calls_of s [] = []"
| "calls_of s (Call s' m # evs) = (if s' = s then m # calls_of s evs else calls_of s evs)"
| "calls_of s (_ # evs) = calls_of s evs"

section \<open>Messages that both ends understand\<close>

text \<open>What end \<open>s\<close> does with a message, and what it answers.\<close>

definition hears :: "(side \<Rightarrow> ('m, 'f) app) \<Rightarrow> side \<Rightarrow> message \<Rightarrow> ('m, 'f) rpc_event list" where
  "hears apps s m = handle_msg (app_calls (apps s)) (app_unknown (apps s)) 1 (fst m) 0 (snd m)"

definition answers :: "(side \<Rightarrow> ('m, 'f) app) \<Rightarrow> side \<Rightarrow> message \<Rightarrow> message list" where
  "answers apps s m = concat (map (replies (apps s)) (hears apps s m))"

text \<open>\<open>speaks s\<close>: the messages that end \<open>s\<close> may send. They can be sent, the other end handles them without
  closing the connection, and answers in its language.\<close>

definition understood :: "(side \<Rightarrow> ('m, 'f) app) \<Rightarrow> (side \<Rightarrow> message \<Rightarrow> bool) \<Rightarrow> bool" where
  "understood apps speaks \<longleftrightarrow> (\<forall>s m. speaks s m \<longrightarrow> sendable m
     \<and> (\<forall>type. Close_conn type \<notin> set (hears apps (far s) m))
     \<and> list_all (speaks (far s)) (answers apps (far s) m))"

section \<open>What a step does to a connection\<close>

text \<open>A step that reads nothing: the object and what it has posted stay, the wire grows.\<close>

definition steady :: "world \<Rightarrow> world \<Rightarrow> bool" where
  "steady w w' \<longleftrightarrow> m_strategy (w_conn w') = m_strategy (w_conn w) \<and> w_posted w' = w_posted w
     \<and> w_reads w' = w_reads w \<and> prefix (w_wire w) (w_wire w')"

lemma steady_refl [simp]: "steady w w"
  by (simp add: steady_def)

lemma steady_trans: "steady u v \<Longrightarrow> steady v w \<Longrightarrow> steady u w"
  by (auto simp: steady_def)

lemma steady_quiet: "steady w w' \<Longrightarrow> new_events w w' = []"
  by (simp add: steady_def new_events_def)

lemma task_steady:
  assumes "sets_flag sws" and "conn_ok w" and "happen sws sc Run_task w = Some w'"
  shows "steady w w' \<and> conn_ok w' \<and> accepted_bytes w' = accepted_bytes w
    \<and> length (w_tasks w) = Suc (length (w_tasks w'))
    \<and> length (m_write_queue (w_conn w')) = Suc (length (m_write_queue (w_conn w)))"
proof -
  obtain data ts where t: "w_tasks w = Sync_write data # ts"
    using assms(2,3) by (auto simp: happen_def conn_ok_def writing_ok_def split: list.splits)
  then have "steady w w' \<and> w_tasks w' = ts \<and> m_write_queue (w_conn w') = m_write_queue (w_conn w) @ [data]"
    using assms(1,3)
    by (auto simp: happen_def sync_write_i_def start_sending_buffer_i_def sets_flag_def Let_def steady_def
        split: if_splits list.splits)
  with t happen_healthy [OF assms(1,2) _ assms(3)] show ?thesis by (simp add: healthy_def client_data_def)
qed

lemma task_runs: "w_tasks w \<noteq> [] \<Longrightarrow> \<exists>w'. happen sws sc Run_task w = Some w'"
  by (auto simp: happen_def neq_Nil_conv split: prod.splits)

lemma written_steady:
  assumes "sets_flag sws" and "conn_ok w" and "w_writes w = buf # bufs"
  shows "\<exists>w'. happen sws sc (Written False (length buf)) w = Some w' \<and> steady w w' \<and> conn_ok w'
    \<and> accepted_bytes w' = accepted_bytes w \<and> w_tasks w' = w_tasks w
    \<and> length (m_write_queue (w_conn w)) = Suc (length (m_write_queue (w_conn w')))"
proof -
  have ok: "writing_ok w" using assms(2) by (simp add: conn_ok_def)
  then have q: "m_write_queue (w_conn w) \<noteq> []" using assms(3) by (auto simp: writing_ok_def Let_def split: if_splits)
  obtain c evs where wc: "write_complete_i sws sc False (length buf) (w_conn w) = Some (c, evs)"
    by (rule write_complete_returns [OF assms(1) ok assms(3)])
  let ?w = "absorb evs (w\<lparr>w_writes := bufs, w_wire := w_wire w @ take (length buf) buf, w_conn := c\<rparr>)"
  have "w_posted ?w = w_posted w"
    using wc assms(1) q
    by (auto simp: write_complete_i_def start_sending_buffer_i_def sets_flag_def Let_def split: list.splits)
  with write_complete_ok [OF assms(1) ok assms(3) wc] wc q assms(2,3) show ?thesis
    by (intro exI [of _ ?w]) (simp add: happen_def steady_def conn_ok_def)
qed

text \<open>A call of \<open>async_send\<close> on the connection.\<close>

lemma send_happening: "happen sws sc (send_happening m) w = Some (absorb (async_send (fst m) (snd m)) w)"
  by (simp add: happen_def send_happening_def async_send_def)

lemma sends_steady:
  assumes "sets_flag sws" and "conn_ok w"
  shows "\<exists>w'. happens sws sc (map send_happening ms) w = Some w' \<and> steady w w' \<and> conn_ok w'
    \<and> accepted_bytes w' = accepted_bytes w @ stream_of ms
    \<and> length (w_tasks w') = length (w_tasks w) + length ms
    \<and> m_write_queue (w_conn w') = m_write_queue (w_conn w)"
  using assms(2)
proof (induction ms arbitrary: w)
  case (Cons m ms)
  let ?v = "w\<lparr>w_tasks := w_tasks w @ [Sync_write (make_msg (fst m) (snd m))]\<rparr>"
  have v: "happen sws sc (send_happening m) w = Some ?v" by (simp add: send_happening async_send_def async_write_def)
  then have "conn_ok ?v" "accepted_bytes ?v = accepted_bytes w @ make_msg (fst m) (snd m)"
    using happen_healthy [OF assms(1) Cons.prems _ v] by (simp_all add: send_happening_def healthy_def client_data_def)
  moreover have "steady w ?v" by (simp add: steady_def)
  ultimately show ?case using Cons.IH [of ?v] v by (auto simp: case_prod_unfold intro: steady_trans)
qed simp

abbreviation post_of :: "message \<Rightarrow> proto_event" where
  "post_of m \<equiv> Post_handle_msg 1 (fst m) 0 (snd m)"

lemma posts_of_sent: "filter is_post (events_of cv (map sent_head ms)) = map post_of ms"
  by (induction ms) (simp_all add: sent_head_def zero_head_def)

lemma received_posts:
  assumes "conn_ok w" and "0 < w_reads w"
    and "fst (split_msgs (unread (m_strategy (w_conn w)) @ data)) = map sent_head ms"
  shows "\<exists>w'. happen sws sc (Received False data) w = Some w' \<and> conn_ok w' \<and> w_reads w' = w_reads w
    \<and> accepted_bytes w' = accepted_bytes w \<and> w_wire w' = w_wire w \<and> w_tasks w' = w_tasks w
    \<and> m_write_queue (w_conn w') = m_write_queue (w_conn w)
    \<and> filter is_post (new_events w w') = map post_of ms
    \<and> unread (m_strategy (w_conn w')) = snd (split_msgs (unread (m_strategy (w_conn w)) @ data))"
proof -
  have "proto_ok (m_strategy (w_conn w))" using assms(1) by (simp add: conn_ok_def)
  from on_read_splits [OF this, of "conn_view_of (w_conn w)" data] assms show ?thesis
    by (auto simp: happen_def read_complete_i_def absorb_strategy strategy_event_def async_read_def
        conn_ok_def writing_ok_def accepted_bytes_def Let_def new_events_def posts_of_sent)
qed

section \<open>The invariant of a conversation\<close>

text \<open>The sending half of an end, and the half that reads what is on the other's wire.\<close>

definition sender_ok :: "(message \<Rightarrow> bool) \<Rightarrow> ('m, 'f) peer \<Rightarrow> bool" where
  "sender_ok says p \<longleftrightarrow> conn_ok (p_world p) \<and> w_reads (p_world p) = 1
     \<and> accepted_bytes (p_world p) = stream_of (p_sent p) \<and> list_all says (p_sent p)"

definition reader_ok :: "(message \<Rightarrow> ('m, 'f) rpc_event list) \<Rightarrow> bytes \<Rightarrow> ('m, 'f) peer \<Rightarrow> bool" where
  "reader_ok does line p \<longleftrightarrow> p_taken p \<le> length line \<and> p_heard p = concat (map does (p_done p))
     \<and> (\<exists>pend. split_msgs (take (p_taken p) line)
           = (map sent_head (p_done p @ pend), unread (m_strategy (w_conn (p_world p))))
         \<and> p_queue p = map post_of pend)"

definition talk_ok :: "(side \<Rightarrow> ('m, 'f) app) \<Rightarrow> (side \<Rightarrow> message \<Rightarrow> bool) \<Rightarrow> ('m, 'f) talk \<Rightarrow> bool" where
  "talk_ok apps speaks t \<longleftrightarrow> (\<forall>s. sender_ok (speaks s) (t s)
     \<and> reader_ok (hears apps s) (w_wire (p_world (t (far s)))) (t s))"

lemma far_far [simp]: "far (far s) = s" "far s \<noteq> s" "s \<noteq> far s"
  by (cases s; simp)+

lemma reader_later: "reader_ok does line p \<Longrightarrow> prefix line line' \<Longrightarrow> reader_ok does line' p"
  by (auto simp: reader_ok_def prefix_def)

text \<open>A step of one end keeps the invariant when it keeps the end's two halves and the wire only grows.\<close>

lemma talk_step:
  assumes "talk_ok apps speaks t" and "sender_ok (speaks s) p"
    and "reader_ok (hears apps s) (w_wire (p_world (t (far s)))) p"
    and "prefix (w_wire (p_world (t s))) (w_wire (p_world p))"
  shows "talk_ok apps speaks (t(s := p))"
  unfolding talk_ok_def
proof
  fix s'
  have far: "s' = far s" if "s' \<noteq> s" using that by (cases s; cases s') simp_all
  show "sender_ok (speaks s') ((t(s := p)) s')
      \<and> reader_ok (hears apps s') (w_wire (p_world ((t(s := p)) (far s')))) ((t(s := p)) s')"
    using assms far by (cases "s' = s") (auto simp: talk_ok_def intro: reader_later)
qed

lemma reader_steady:
  assumes "reader_ok does line p" and "steady (p_world p) w"
  shows "reader_ok does line (p\<lparr>p_world := w\<rparr>)" "reader_ok does line (p\<lparr>p_world := w, p_sent := ms\<rparr>)"
  using assms by (auto simp: reader_ok_def steady_def)

lemma sent_head_inj: "inj sent_head"
  by (rule injI) (auto simp: sent_head_def zero_head_def prod_eq_iff)

lemma wire_accepted: "prefix (w_wire w) (accepted_bytes w)"
  by (simp add: accepted_bytes_def)

text \<open>What an end has handled and what is queued for it are messages that the other has sent, in order.\<close>

lemma reader_prefix:
  assumes "sender_ok says q" and "\<forall>m. says m \<longrightarrow> sendable m" and "reader_ok does (w_wire (p_world q)) p"
  obtains pend where "prefix (p_done p @ pend) (p_sent q)" "p_queue p = map post_of pend"
    "split_msgs (take (p_taken p) (w_wire (p_world q)))
      = (map sent_head (p_done p @ pend), unread (m_strategy (w_conn (p_world p))))"
proof -
  from assms(3) obtain pend where pend: "split_msgs (take (p_taken p) (w_wire (p_world q)))
      = (map sent_head (p_done p @ pend), unread (m_strategy (w_conn (p_world p))))" "p_queue p = map post_of pend"
    by (auto simp: reader_ok_def)
  have "list_all sendable (p_sent q)"
    using assms(1,2) by (auto simp: sender_ok_def list_all_iff)
  moreover have "prefix (take (p_taken p) (w_wire (p_world q))) (stream_of (p_sent q))"
    using assms(1) wire_accepted [of "p_world q"] take_is_prefix prefix_order.trans by (fastforce simp: sender_ok_def)
  ultimately obtain ms where "map sent_head (p_done p @ pend) = map sent_head ms" "prefix ms (p_sent q)"
    using pend(1) by (metis split_msgs_prefix fst_conv)
  then have "prefix (p_done p @ pend) (p_sent q)"
    by (simp add: inj_eq [OF inj_mapI [OF sent_head_inj]] del: map_append)
  with that pend show thesis by blast
qed

lemma peer_happen_steady:
  assumes "happen sws sc h (p_world p) = Some w" and "steady (p_world p) w"
  shows "peer_happen sws sc h p = Some (p\<lparr>p_world := w\<rparr>)"
  using assms steady_quiet [OF assms(2)] by (simp add: peer_happen_def)

lemma peer_read_ok:
  assumes "sender_ok says p" and "reader_ok does (w_wire (p_world q)) p" and "peer_read sws sc (w_wire (p_world q)) n p = Some p'"
    and "sender_ok says' q" and "\<forall>m. says' m \<longrightarrow> sendable m"
  shows "sender_ok says p' \<and> reader_ok does (w_wire (p_world q)) p' \<and> w_wire (p_world p') = w_wire (p_world p)
    \<and> p_taken p' = p_taken p + n \<and> 0 < n \<and> p_done p' = p_done p \<and> p_sent p' = p_sent p
    \<and> w_tasks (p_world p') = w_tasks (p_world p)
    \<and> m_write_queue (w_conn (p_world p')) = m_write_queue (w_conn (p_world p))"
proof -
  let ?line = "w_wire (p_world q)" and ?w = "p_world p" and ?data = "take n (drop (p_taken p) (w_wire (p_world q)))"
  obtain pend where pend: "split_msgs (take (p_taken p) ?line) = (map sent_head (p_done p @ pend), unread (m_strategy (w_conn ?w)))"
    "p_queue p = map post_of pend" using reader_prefix [OF assms(4,5,2)] by blast
  have n: "0 < n" "p_taken p + n \<le> length ?line" and p': "\<exists>v. peer_happen sws sc (Received False ?data) p = Some v
      \<and> p' = v\<lparr>p_taken := p_taken p + n\<rparr>"
    using assms(3) by (auto simp: peer_read_def bind_eq_Some_conv split: if_splits)
  have line: "take (p_taken p + n) ?line = take (p_taken p) ?line @ ?data" by (rule take_add)
  obtain more rest where more: "split_msgs (unread (m_strategy (w_conn ?w)) @ ?data) = (more, rest)" by fastforce
  have whole: "split_msgs (take (p_taken p + n) ?line) = (map sent_head (p_done p @ pend) @ more, rest)"
    unfolding line using split_msgs_append [of "take (p_taken p) ?line" ?data] pend(1) more by simp
  have "list_all sendable (p_sent q)" using assms(4,5) by (auto simp: sender_ok_def list_all_iff)
  moreover have "prefix (take (p_taken p + n) ?line) (stream_of (p_sent q))"
    using assms(4) wire_accepted [of "p_world q"] take_is_prefix prefix_order.trans by (fastforce simp: sender_ok_def)
  ultimately obtain ms where "map sent_head (p_done p @ pend) @ more = map sent_head ms"
    using whole by (metis split_msgs_prefix fst_conv)
  then obtain new where new: "more = map sent_head new" by (auto simp: append_eq_map_conv)
  have w: "conn_ok ?w" "0 < w_reads ?w" using assms(1) by (simp_all add: sender_ok_def)
  from received_posts [OF w, of ?data new sws sc] more new obtain w' where w':
    "happen sws sc (Received False ?data) ?w = Some w'" "conn_ok w'" "w_reads w' = w_reads ?w"
    "accepted_bytes w' = accepted_bytes ?w" "w_wire w' = w_wire ?w" "w_tasks w' = w_tasks ?w"
    "m_write_queue (w_conn w') = m_write_queue (w_conn ?w)"
    "filter is_post (new_events ?w w') = map post_of new" "unread (m_strategy (w_conn w')) = rest" by auto
  with p' have p'_eq: "p' = p\<lparr>p_world := w', p_queue := p_queue p @ map post_of new, p_taken := p_taken p + n\<rparr>"
    by (auto simp: peer_happen_def)
  have "reader_ok does ?line p'"
    using assms(2) whole w'(9) n(2) pend(2) new unfolding reader_ok_def p'_eq
    by (intro conjI exI [of _ "pend @ new"]) simp_all
  then show ?thesis using assms(1) w' n(1) by (simp add: p'_eq sender_ok_def)
qed

text \<open>A message that is understood: handling it sends the answers and nothing else.\<close>

lemma reactions_send:
  assumes "\<forall>type. Close_conn type \<notin> set evs"
  shows "concat (map (reaction a) evs) = map send_happening (concat (map (replies a) evs))"
  using assms
proof (induction evs)
  case (Cons ev evs)
  then show ?case by (cases ev) auto
qed simp

lemma peer_turn_ok:
  assumes "sets_flag sws" and "understood apps speaks" and "sender_ok (speaks s) p" and "sender_ok (speaks (far s)) q"
    and "reader_ok (hears apps s) (w_wire (p_world q)) p" and "p_queue p \<noteq> []"
  shows "\<exists>m p'. peer_turn sws sc (apps s) p = Some p' \<and> speaks (far s) m
    \<and> prefix (p_done p @ [m]) (p_sent q) \<and> p_done p' = p_done p @ [m] \<and> p_sent p' = p_sent p @ answers apps s m
    \<and> sender_ok (speaks s) p' \<and> reader_ok (hears apps s) (w_wire (p_world q)) p'
    \<and> prefix (w_wire (p_world p)) (w_wire (p_world p')) \<and> p_taken p' = p_taken p
    \<and> length (w_tasks (p_world p')) = length (w_tasks (p_world p)) + length (answers apps s m)
    \<and> m_write_queue (w_conn (p_world p')) = m_write_queue (w_conn (p_world p))"
proof -
  have sendable: "\<forall>m. speaks (far s) m \<longrightarrow> sendable m" using assms(2) by (simp add: understood_def)
  obtain pend where pend: "prefix (p_done p @ pend) (p_sent q)" "p_queue p = map post_of pend"
    "split_msgs (take (p_taken p) (w_wire (p_world q))) = (map sent_head (p_done p @ pend), unread (m_strategy (w_conn (p_world p))))"
    using reader_prefix [OF assms(4) sendable assms(5)] by blast
  obtain m rest where m: "pend = m # rest" using assms(6) pend(2) by (cases pend) auto
  then have "m \<in> set (p_sent q)" using pend(1) set_mono_prefix by fastforce
  then have says: "speaks (far s) m" using assms(4) by (auto simp: sender_ok_def list_all_iff)
  have ans: "list_all (speaks s) (answers apps s m)" "\<forall>type. Close_conn type \<notin> set (hears apps s m)"
    using assms(2) [unfolded understood_def, THEN spec, THEN spec, THEN mp, OF says] by simp_all
  have w: "conn_ok (p_world p)" using assms(3) by (simp add: sender_ok_def)
  from sends_steady [OF assms(1) w, of sc "answers apps s m"] obtain w' where w':
    "happens sws sc (map send_happening (answers apps s m)) (p_world p) = Some w'" "steady (p_world p) w'" "conn_ok w'"
    "accepted_bytes w' = accepted_bytes (p_world p) @ stream_of (answers apps s m)"
    "length (w_tasks w') = length (w_tasks (p_world p)) + length (answers apps s m)"
    "m_write_queue (w_conn w') = m_write_queue (w_conn (p_world p))" by blast
  let ?p = "p\<lparr>p_world := w', p_queue := map post_of rest, p_heard := p_heard p @ hears apps s m,
    p_done := p_done p @ [m], p_sent := p_sent p @ answers apps s m\<rparr>"
  have "run_posted (app_calls (apps s)) (app_unknown (apps s)) [post_of m] = hears apps s m" by (simp add: hears_def)
  then have "peer_turn sws sc (apps s) p = Some ?p"
    using pend(2) m w'(1) reactions_send [OF ans(2), of "apps s"] by (simp add: peer_turn_def answers_def Let_def del: run_posted.simps)
  moreover have "reader_ok (hears apps s) (w_wire (p_world q)) ?p"
    using assms(5) pend(3) m w'(2) unfolding reader_ok_def steady_def by (intro conjI exI [of _ rest]) simp_all
  moreover have "sender_ok (speaks s) ?p" using assms(3) w'(2-4) ans(1) by (simp add: sender_ok_def steady_def)
  moreover have "prefix (p_done p @ [m]) (p_sent q)" using pend(1) m by (metis append_Cons append_Nil append_assoc append_prefixD)
  ultimately show ?thesis using says w'(2,5,6) by (intro exI [of _ m] exI [of _ ?p]) (simp add: steady_def)
qed

section \<open>Histories\<close>

lemma shuffles_single: "xs @ ys \<in> shuffles xs ys"
  by (induction xs) (auto intro: Cons_in_shuffles_leftI)

lemma shuffles_append:
  assumes "zs \<in> shuffles xs ys" and "ws \<in> shuffles us vs"
  shows "zs @ ws \<in> shuffles (xs @ us) (ys @ vs)"
  using assms
proof (induction xs ys arbitrary: zs rule: shuffles.induct)
  case (1 ys)
  then show ?case by (induction ys arbitrary: zs) (auto intro: Cons_in_shuffles_rightI)
next
  case (2 xs)
  then show ?case by (induction xs arbitrary: zs) (auto intro: Cons_in_shuffles_leftI)
next
  case (3 x xs y ys)
  from "3.prems"(1) consider (left) zs' where "zs = x # zs'" "zs' \<in> shuffles xs (y # ys)"
    | (right) zs' where "zs = y # zs'" "zs' \<in> shuffles (x # xs) ys" by auto
  then show ?case
  proof cases
    case left
    with "3.IH"(1) [OF left(2) "3.prems"(2)] show ?thesis by (auto intro: Cons_in_shuffles_leftI)
  next
    case right
    with "3.IH"(2) [OF right(2) "3.prems"(2)] show ?thesis by (auto intro: Cons_in_shuffles_rightI)
  qed
qed

text \<open>The books of a conversation: from \<open>t\<close> to \<open>t'\<close> each end has sent the calls \<open>cs\<close> of its clients and the answers to
  what it has handled, each in order.\<close>

definition books :: "(side \<Rightarrow> ('m, 'f) app) \<Rightarrow> (side \<Rightarrow> message list) \<Rightarrow> ('m, 'f) talk \<Rightarrow> ('m, 'f) talk \<Rightarrow> bool" where
  "books apps cs t t' \<longleftrightarrow> (\<forall>s. \<exists>ms ws. p_done (t' s) = p_done (t s) @ ms \<and> p_sent (t' s) = p_sent (t s) @ ws
     \<and> ws \<in> shuffles (cs s) (concat (map (answers apps s) ms)))"

lemma books_step:
  assumes "p_done p = p_done (t s) @ ms" and "p_sent p = p_sent (t s) @ ws" and "\<forall>s'. s' \<noteq> s \<longrightarrow> cs s' = []"
    and "ws \<in> shuffles (cs s) (concat (map (answers apps s) ms))"
  shows "books apps cs t (t(s := p))"
  using assms by (simp add: books_def)

lemma books_quiet: "p_done p = p_done (t s) \<Longrightarrow> p_sent p = p_sent (t s) \<Longrightarrow> \<forall>s. cs s = [] \<Longrightarrow> books apps cs t (t(s := p))"
  by (rule books_step [of _ _ _ "[]" "[]"]) simp_all

lemma books_trans:
  assumes "books apps cs t u" and "books apps cs' u v" and "\<forall>s. cs'' s = cs s @ cs' s"
  shows "books apps cs'' t v"
  unfolding books_def
proof
  fix s
  from assms(1) obtain ms ws where m: "p_done (u s) = p_done (t s) @ ms" "p_sent (u s) = p_sent (t s) @ ws"
    "ws \<in> shuffles (cs s) (concat (map (answers apps s) ms))" unfolding books_def by blast
  from assms(2) obtain ns us where n: "p_done (v s) = p_done (u s) @ ns" "p_sent (v s) = p_sent (u s) @ us"
    "us \<in> shuffles (cs' s) (concat (map (answers apps s) ns))" unfolding books_def by blast
  from shuffles_append [OF m(3) n(3)] m n assms(3)
  show "\<exists>ms ws. p_done (v s) = p_done (t s) @ ms \<and> p_sent (v s) = p_sent (t s) @ ws
      \<and> ws \<in> shuffles (cs'' s) (concat (map (answers apps s) ms))"
    by (intro exI [of _ "ms @ ns"] exI [of _ "ws @ us"]) simp
qed

text \<open>From the start on.\<close>

lemma books_from_start:
  assumes "books apps cs t0 t" and "p_done (t0 s) = []" and "p_sent (t0 s) = []"
  shows "p_sent (t s) \<in> shuffles (cs s) (concat (map (answers apps s) (p_done (t s))))"
proof -
  from assms(1) obtain ms ws where "p_done (t s) = p_done (t0 s) @ ms" "p_sent (t s) = p_sent (t0 s) @ ws"
    "ws \<in> shuffles (cs s) (concat (map (answers apps s) ms))" unfolding books_def by blast
  with assms(2,3) show ?thesis by simp
qed

section \<open>What is still owed\<close>

text \<open>A bound on the steps that a message leads to when it is handled, its answers included, for conversations of
  at most \<open>n\<close> rounds; and a rank that answers lower.\<close>

fun weight :: "(side \<Rightarrow> ('m, 'f) app) \<Rightarrow> nat \<Rightarrow> side \<Rightarrow> message \<Rightarrow> nat" where
  "weight apps 0 s m = 1"
| "weight apps (Suc n) s m = 1 + sum_list (map (\<lambda>a. 2 + length (make_msg (fst a) (snd a)) + weight apps n (far s) a)
     (answers apps (far s) m))"

definition ranked :: "(side \<Rightarrow> ('m, 'f) app) \<Rightarrow> (side \<Rightarrow> message \<Rightarrow> bool) \<Rightarrow> (side \<Rightarrow> message \<Rightarrow> nat) \<Rightarrow> bool" where
  "ranked apps speaks rank \<longleftrightarrow>
     (\<forall>s m. speaks s m \<longrightarrow> (\<forall>a \<in> set (answers apps (far s) m). rank (far s) a < rank s m))"

definition cost :: "(side \<Rightarrow> ('m, 'f) app) \<Rightarrow> (side \<Rightarrow> message \<Rightarrow> nat) \<Rightarrow> side \<Rightarrow> message \<Rightarrow> nat" where
  "cost apps rank s m = weight apps (rank s m) s m"

lemma weight_mono: "n \<le> k \<Longrightarrow> weight apps n s m \<le> weight apps k s m"
proof (induction n arbitrary: k s m)
  case 0
  then show ?case by (cases k) simp_all
next
  case (Suc n)
  then obtain j where "k = Suc j" "n \<le> j" by (cases k) auto
  with Suc.IH show ?case by (auto intro!: sum_list_mono add_mono)
qed

lemma cost_pays:
  assumes "ranked apps speaks rank" and "speaks (far s) m"
  shows "(\<Sum>a \<leftarrow> answers apps s m. 2 + length (make_msg (fst a) (snd a)) + cost apps rank s a) < cost apps rank (far s) m"
proof -
  have less: "rank s a < rank (far s) m" if "a \<in> set (answers apps s m)" for a
    using assms(1) [unfolded ranked_def, THEN spec, of "far s", THEN spec, of m] assms(2) that by simp
  show ?thesis
  proof (cases "rank (far s) m")
    case 0
    then have "answers apps s m = []" using less by (cases "answers apps s m") auto
    with 0 show ?thesis by (simp add: cost_def)
  next
    case (Suc n)
    have "(\<Sum>a \<leftarrow> answers apps s m. 2 + length (make_msg (fst a) (snd a)) + cost apps rank s a)
        \<le> (\<Sum>a \<leftarrow> answers apps s m. 2 + length (make_msg (fst a) (snd a)) + weight apps n s a)"
      using less Suc unfolding cost_def
      by (intro sum_list_mono add_left_mono weight_mono) (metis less_Suc_eq_le)
    then show ?thesis using Suc by (simp add: cost_def)
  qed
qed

text \<open>What is owed by a sender to a reader: tasks to run, buffers to write, bytes to take, messages to handle.\<close>

definition owed :: "(message \<Rightarrow> nat) \<Rightarrow> ('m, 'f) peer \<Rightarrow> ('m, 'f) peer \<Rightarrow> nat" where
  "owed c p q = 2 * length (w_tasks (p_world p)) + length (m_write_queue (w_conn (p_world p)))
     + (length (accepted_bytes (p_world p)) - p_taken q) + sum_list (map c (drop (length (p_done q)) (p_sent p)))"

definition potential :: "(side \<Rightarrow> ('m, 'f) app) \<Rightarrow> (side \<Rightarrow> message \<Rightarrow> nat) \<Rightarrow> ('m, 'f) talk \<Rightarrow> nat" where
  "potential apps rank t = owed (cost apps rank Connecting) (t Connecting) (t Accepting)
     + owed (cost apps rank Accepting) (t Accepting) (t Connecting)"

lemma potential_side:
  "potential apps rank t = owed (cost apps rank s) (t s) (t (far s)) + owed (cost apps rank (far s)) (t (far s)) (t s)"
  by (cases s) (simp_all add: potential_def)

lemma potential_step:
  "potential apps rank (t(s := p)) = owed (cost apps rank s) p (t (far s)) + owed (cost apps rank (far s)) (t (far s)) p"
  by (simp add: potential_side [of apps rank _ s])

lemma owed_taken: "p_done q' = p_done q \<Longrightarrow> p_taken q < p_taken q' \<Longrightarrow> p_taken q' \<le> length (accepted_bytes (p_world p))
    \<Longrightarrow> owed c p q' < owed c p q"
  by (simp add: owed_def diff_less_mono2)

text \<open>One event: the invariant is kept, and every event but a client's call pays.\<close>

definition step_ok :: "(side \<Rightarrow> ('m, 'f) app) \<Rightarrow> (side \<Rightarrow> message \<Rightarrow> bool) \<Rightarrow> (side \<Rightarrow> message \<Rightarrow> nat) \<Rightarrow> talk_event
    \<Rightarrow> ('m, 'f) talk \<Rightarrow> ('m, 'f) talk \<Rightarrow> bool" where
  "step_ok apps speaks rank ev t t' \<longleftrightarrow> talk_ok apps speaks t' \<and> books apps (\<lambda>s. calls_of s [ev]) t t'
     \<and> (ranked apps speaks rank \<longrightarrow> (\<forall>s m. ev \<noteq> Call s m) \<longrightarrow> potential apps rank t' < potential apps rank t)"

lemma talk_okD:
  assumes "talk_ok apps speaks t"
  shows "sender_ok (speaks s) (t s)" "reader_ok (hears apps s) (w_wire (p_world (t (far s)))) (t s)"
  using assms by (simp_all add: talk_ok_def)

lemma steady_step:
  assumes "talk_ok apps speaks t" and "steady (p_world (t s)) w" and "conn_ok w"
    and "accepted_bytes w = accepted_bytes (p_world (t s))" and "\<forall>s'. calls_of s' [ev] = []"
    and "2 * length (w_tasks w) + length (m_write_queue (w_conn w))
      < 2 * length (w_tasks (p_world (t s))) + length (m_write_queue (w_conn (p_world (t s))))"
  shows "step_ok apps speaks rank ev t (t(s := (t s)\<lparr>p_world := w\<rparr>))"
proof -
  let ?t = "t(s := (t s)\<lparr>p_world := w\<rparr>)"
  note ok = talk_okD [OF assms(1), of s]
  have "sender_ok (speaks s) ((t s)\<lparr>p_world := w\<rparr>)" using ok(1) assms(2-4) by (simp add: sender_ok_def steady_def)
  from talk_step [OF assms(1) this reader_steady(1) [OF ok(2) assms(2)]] assms(2)
  have "talk_ok apps speaks ?t" by (simp add: steady_def)
  moreover have "potential apps rank ?t < potential apps rank t"
    using assms(4,6) unfolding potential_step potential_side [of apps rank t s] by (simp add: owed_def)
  ultimately show ?thesis using assms(5) by (simp add: step_ok_def books_quiet)
qed

lemma io_step:
  assumes "sets_flag sws" and "talk_ok apps speaks t" and "talk_do sws sc apps (Io s) t = Some t'"
  shows "step_ok apps speaks rank (Io s) t t'"
proof -
  from assms(3) obtain w where w: "happen sws sc Run_task (p_world (t s)) = Some w"
    by (auto simp: peer_happen_def bind_eq_Some_conv)
  have "conn_ok (p_world (t s))" using talk_okD(1) [OF assms(2)] by (simp add: sender_ok_def)
  note st = task_steady [OF assms(1) this w]
  have "t' = t(s := (t s)\<lparr>p_world := w\<rparr>)" using assms(3) st peer_happen_steady [OF w] by simp
  with steady_step [OF assms(2), of s w "Io s" rank] st show ?thesis by simp
qed

lemma flush_step:
  assumes "sets_flag sws" and "talk_ok apps speaks t" and "talk_do sws sc apps (Flushed s) t = Some t'"
  shows "step_ok apps speaks rank (Flushed s) t t'"
proof -
  from assms(3) obtain buf bufs where b: "w_writes (p_world (t s)) = buf # bufs" by (auto split: list.splits)
  have "conn_ok (p_world (t s))" using talk_okD(1) [OF assms(2)] by (simp add: sender_ok_def)
  from written_steady [OF assms(1) this b, of sc] obtain w where
    w: "happen sws sc (Written False (length buf)) (p_world (t s)) = Some w" "steady (p_world (t s)) w" and
    st: "conn_ok w" "accepted_bytes w = accepted_bytes (p_world (t s))" "w_tasks w = w_tasks (p_world (t s))"
    "length (m_write_queue (w_conn (p_world (t s)))) = Suc (length (m_write_queue (w_conn w)))" by blast
  have "t' = t(s := (t s)\<lparr>p_world := w\<rparr>)" using assms(3) b peer_happen_steady [OF w] by simp
  with steady_step [OF assms(2) w(2), of "Flushed s" rank] st show ?thesis by simp
qed

lemma call_step:
  assumes "sets_flag sws" and "talk_ok apps speaks t" and "speaks s m" and "talk_do sws sc apps (Call s m) t = Some t'"
  shows "step_ok apps speaks rank (Call s m) t t'"
proof -
  note ok = talk_okD [OF assms(2), of s]
  have "conn_ok (p_world (t s))" using ok(1) by (simp add: sender_ok_def)
  from sends_steady [OF assms(1) this, of sc "[m]"] obtain w where
    w: "happen sws sc (send_happening m) (p_world (t s)) = Some w" and st: "steady (p_world (t s)) w" "conn_ok w"
      "accepted_bytes w = accepted_bytes (p_world (t s)) @ make_msg (fst m) (snd m)"
    by (auto simp: bind_eq_Some_conv case_prod_unfold)
  let ?p = "(t s)\<lparr>p_world := w, p_sent := p_sent (t s) @ [m]\<rparr>"
  have t': "t' = t(s := ?p)" using assms(4) peer_happen_steady [OF w st(1)] by simp
  have "sender_ok (speaks s) ?p" using ok(1) st assms(3) by (simp add: sender_ok_def steady_def case_prod_unfold)
  from talk_step [OF assms(2) this reader_steady(2) [OF ok(2) st(1)]] st(1)
  have "talk_ok apps speaks t'" by (simp add: t' steady_def)
  moreover have "books apps (\<lambda>s'. calls_of s' [Call s m]) t t'"
    unfolding t' by (rule books_step [of _ _ _ "[]" "[m]"]) simp_all
  ultimately show ?thesis by (simp add: step_ok_def)
qed

lemma deliver_step:
  assumes "understood apps speaks" and "talk_ok apps speaks t" and "talk_do sws sc apps (Deliver s n) t = Some t'"
  shows "step_ok apps speaks rank (Deliver s n) t t'"
proof -
  note ok = talk_okD [OF assms(2)]
  from assms(3) obtain p where p: "peer_read sws sc (w_wire (p_world (t (far s)))) n (t s) = Some p" "t' = t(s := p)"
    by (auto simp: bind_eq_Some_conv)
  have "\<forall>m. speaks (far s) m \<longrightarrow> sendable m" using assms(1) by (simp add: understood_def)
  note r = peer_read_ok [OF ok(1) ok(2) p(1) ok(1) this]
  then have "talk_ok apps speaks t'" unfolding p(2) by (intro talk_step [OF assms(2)]) simp_all
  moreover have "owed (cost apps rank s) p (t (far s)) = owed (cost apps rank s) (t s) (t (far s))"
    using r ok(1) [of s] by (simp add: owed_def sender_ok_def)
  moreover have "p_taken (t s) + n \<le> length (accepted_bytes (p_world (t (far s))))"
    using r by (simp add: reader_ok_def accepted_bytes_def)
  then have "owed (cost apps rank (far s)) (t (far s)) p < owed (cost apps rank (far s)) (t (far s)) (t s)"
    using r by (intro owed_taken) simp_all
  ultimately have "potential apps rank t' < potential apps rank t"
    unfolding p(2) potential_step potential_side [of apps rank t s] by linarith
  with \<open>talk_ok apps speaks t'\<close> show ?thesis using r by (simp add: step_ok_def p(2) books_quiet)
qed

lemma turn_step:
  assumes "sets_flag sws" and "understood apps speaks" and "talk_ok apps speaks t" and "talk_do sws sc apps (Turn s) t = Some t'"
  shows "step_ok apps speaks rank (Turn s) t t'"
proof -
  note ok = talk_okD [OF assms(3)]
  from assms(4) obtain p where p: "peer_turn sws sc (apps s) (t s) = Some p" "t' = t(s := p)"
    by (auto simp: bind_eq_Some_conv)
  then have "p_queue (t s) \<noteq> []" by (auto simp: peer_turn_def)
  from peer_turn_ok [OF assms(1,2) ok(1) ok(1) ok(2) this, of sc] p(1) obtain m where m: "speaks (far s) m"
    "prefix (p_done (t s) @ [m]) (p_sent (t (far s)))" "p_done p = p_done (t s) @ [m]" "p_sent p = p_sent (t s) @ answers apps s m"
    "sender_ok (speaks s) p" "reader_ok (hears apps s) (w_wire (p_world (t (far s)))) p"
    "prefix (w_wire (p_world (t s))) (w_wire (p_world p))" "p_taken p = p_taken (t s)"
    "length (w_tasks (p_world p)) = length (w_tasks (p_world (t s))) + length (answers apps s m)"
    "m_write_queue (w_conn (p_world p)) = m_write_queue (w_conn (p_world (t s)))" by auto
  have "talk_ok apps speaks t'" unfolding p(2) using m by (intro talk_step [OF assms(3)])
  moreover have "books apps (\<lambda>s'. calls_of s' [Turn s]) t t'"
    unfolding p(2) by (rule books_step [where t = t and s = s, OF m(3,4)]) simp_all
  moreover have "potential apps rank t' < potential apps rank t" if ranked: "ranked apps speaks rank"
  proof -
    let ?c = "cost apps rank" and ?ans = "answers apps s m"
    have pays: "2 * length ?ans + length (stream_of ?ans) + sum_list (map (?c s) ?ans) < ?c (far s) m"
      using cost_pays [OF ranked m(1)] by (simp add: sum_list_addf sum_list_triv length_concat comp_def case_prod_unfold)
    obtain rest where sent: "p_sent (t (far s)) = p_done (t s) @ m # rest" using m(2) by (auto simp: prefix_def)
    have drop: "length (p_done (t (far s))) \<le> length (p_sent (t s))"
    proof -
      have "\<forall>m. speaks s m \<longrightarrow> sendable m" using assms(2) by (simp add: understood_def)
      from reader_prefix [OF ok(1) [of s] this ok(2) [of "far s", simplified]] show ?thesis
        by (metis prefix_length_le length_append le_add1 le_trans)
    qed
    have "owed (?c s) p (t (far s)) \<le> owed (?c s) (t s) (t (far s)) + 2 * length ?ans + length (stream_of ?ans) + sum_list (map (?c s) ?ans)"
      using m(4,5,9,10) ok(1) [of s] drop by (simp add: owed_def sender_ok_def)
    moreover have "owed (?c (far s)) (t (far s)) (t s) = owed (?c (far s)) (t (far s)) p + ?c (far s) m"
      using m(3,8) sent by (simp add: owed_def)
    ultimately show ?thesis using pays unfolding p(2) potential_step potential_side [of apps rank t s] by linarith
  qed
  ultimately show ?thesis by (simp add: step_ok_def)
qed

lemma talk_do_ok:
  assumes "sets_flag sws" and "understood apps speaks" and "talk_ok apps speaks t" and "\<forall>s. list_all (speaks s) (calls_of s [ev])"
    and "talk_do sws sc apps ev t = Some t'"
  shows "step_ok apps speaks rank ev t t'"
proof (cases ev)
  case (Call s m)
  then have "speaks s m" using assms(4) by (auto dest: spec [of _ s])
  with assms Call call_step show ?thesis by metis
next
  case (Io s)
  with assms io_step show ?thesis by metis
next
  case (Flushed s)
  with assms flush_step show ?thesis by metis
next
  case (Deliver s n)
  with assms deliver_step show ?thesis by metis
next
  case (Turn s)
  with assms turn_step show ?thesis by metis
qed

section \<open>Runs\<close>

lemma calls_of_Cons: "calls_of s (ev # evs) = calls_of s [ev] @ calls_of s evs"
  by (cases ev) simp_all

lemma calls_of_append: "calls_of s (xs @ ys) = calls_of s xs @ calls_of s ys"
  by (induction s xs rule: calls_of.induct) simp_all

lemma talk_run_append: "talk_run sws sc apps (xs @ ys) t = Option.bind (talk_run sws sc apps xs t) (talk_run sws sc apps ys)"
  by (induction sws sc apps xs t rule: talk_run.induct) (auto split: Option.bind_splits)

lemma no_call_iff: "(\<forall>s. calls_of s [ev] = []) \<longleftrightarrow> (\<forall>s m. ev \<noteq> Call s m)"
  by (cases ev) auto

text \<open>At the start both ends have one read outstanding and nothing else.\<close>

lemma connected_world_ok:
  assumes "connected_world resolved fails = Some w"
  shows "conn_ok w \<and> accepted_bytes w = [] \<and> w_reads w = 1 \<and> w_wire w = [] \<and> w_posted w = []
    \<and> m_strategy (w_conn w) = init_proto"
  using assms proto_ok_init
  by (auto simp: connected_world_def sync_connect_def init_conn_def async_read_def conn_ok_def writing_ok_def
      accepted_bytes_def split: option.splits if_splits prod.splits)

lemma start_ok:
  assumes "start_talk resolved fails um = Some t"
  shows "talk_ok apps speaks t \<and> p_done (t s) = [] \<and> p_sent (t s) = []"
proof -
  let ?v = "accepted_world um init_proto"
  from assms obtain w where w: "connected_world resolved fails = Some w"
    "t = case_side (new_peer w) (new_peer ?v)" by (auto simp: start_talk_def bind_eq_Some_conv)
  have none: "split_msgs [] = ([], [])" by (subst split_msgs.simps) (simp add: head_size_def)
  have "filter is_post (w_posted ?v) = []"
    by (simp add: accepted_world_def remote_open_def init_conn_def on_remote_open_def absorb_strategy
        strategy_event_def async_read_def)
  moreover have "unread (reset init_proto) = []" by (simp add: proto_ok_reset)
  ultimately have "sender_ok (speaks s) (t s) \<and> reader_ok (hears apps s) (w_wire (p_world (t (far s)))) (t s)" for s
    using connected_world_ok [OF w(1)] accepted_world_ok [OF proto_ok_init(1), of um] none proto_ok_init(2)
    by (cases s) (simp_all add: w(2) new_peer_def sender_ok_def reader_ok_def)
  moreover have "p_done (t s) = [] \<and> p_sent (t s) = []" by (cases s) (simp_all add: w(2) new_peer_def)
  ultimately show ?thesis by (simp add: talk_ok_def)
qed

lemma talk_run_ok:
  assumes "sets_flag sws" and "understood apps speaks" and "talk_ok apps speaks t" and "\<forall>s. list_all (speaks s) (calls_of s evs)"
    and "talk_run sws sc apps evs t = Some t'"
  shows "talk_ok apps speaks t' \<and> books apps (\<lambda>s. calls_of s evs) t t'"
  using assms(3-5)
proof (induction evs arbitrary: t)
  case (Cons ev evs)
  from Cons.prems(3) obtain u where u: "talk_do sws sc apps ev t = Some u" "talk_run sws sc apps evs u = Some t'"
    by (auto simp: bind_eq_Some_conv)
  have says: "\<forall>s. list_all (speaks s) (calls_of s [ev])" "\<forall>s. list_all (speaks s) (calls_of s evs)"
    using Cons.prems(2) unfolding calls_of_Cons [of _ ev evs] list_all_append by blast+
  note step = talk_do_ok [OF assms(1,2) Cons.prems(1) says(1) u(1), unfolded step_ok_def]
  note IH = Cons.IH [OF step [THEN conjunct1] says(2) u(2)]
  have "books apps (\<lambda>s. calls_of s (ev # evs)) t t'"
    by (rule books_trans [of apps "\<lambda>s. calls_of s [ev]" t _ "\<lambda>s. calls_of s evs"])
      (use step IH in \<open>auto simp: calls_of_Cons [of _ ev evs]\<close>)
  with IH show ?case by blast
qed (simp add: books_def)

lemma talk_run_pays:
  assumes "sets_flag sws" and "understood apps speaks" and "ranked apps speaks rank" and "talk_ok apps speaks t"
    and "\<forall>s. calls_of s evs = []" and "talk_run sws sc apps evs t = Some t'"
  shows "length evs + potential apps rank t' \<le> potential apps rank t"
  using assms(4-6)
proof (induction evs arbitrary: t)
  case (Cons ev evs)
  from Cons.prems(3) obtain u where u: "talk_do sws sc apps ev t = Some u" "talk_run sws sc apps evs u = Some t'"
    by (auto simp: bind_eq_Some_conv)
  have none: "\<forall>s. calls_of s [ev] = []" "\<forall>s. calls_of s evs = []"
    using Cons.prems(2) unfolding calls_of_Cons [of _ ev evs] by simp_all
  then have "\<forall>s. list_all (speaks s) (calls_of s [ev])" by simp
  note step = talk_do_ok [OF assms(1,2) Cons.prems(1) this u(1), unfolded step_ok_def, of rank]
  with none(1) assms(3) have "potential apps rank u < potential apps rank t" by (simp add: no_call_iff)
  with Cons.IH [OF _ none(2) u(2)] step show ?case by simp
qed simp

text \<open>As long as something has not been handled, something can happen.\<close>

definition at_rest :: "('m, 'f) talk \<Rightarrow> bool" where
  "at_rest t \<longleftrightarrow> (\<forall>s. p_done (t s) = p_sent (t (far s)))"

lemma busy_or_rest:
  assumes "sets_flag sws" and "understood apps speaks" and "talk_ok apps speaks t"
  shows "(\<exists>ev t'. (\<forall>s m. ev \<noteq> Call s m) \<and> talk_do sws sc apps ev t = Some t') \<or> at_rest t"
proof (rule ccontr)
  assume stuck: "\<not> ?thesis"
  have none: "talk_do sws sc apps ev t = None" if call: "\<forall>s m. ev \<noteq> Call s m" for ev
  proof (rule ccontr)
    assume "talk_do sws sc apps ev t \<noteq> None"
    then obtain t' where "talk_do sws sc apps ev t = Some t'" by blast
    with call stuck show False by blast
  qed
  note ok = talk_okD [OF assms(3)]
  have sendable: "\<forall>m. speaks s m \<longrightarrow> sendable m" for s using assms(2) by (simp add: understood_def)
  have conn: "conn_ok (p_world (t s))" for s using ok(1) by (simp add: sender_ok_def)
  have tasks: "w_tasks (p_world (t s)) = []" for s
  proof (rule ccontr)
    assume "w_tasks (p_world (t s)) \<noteq> []"
    from task_runs [OF this] obtain w where "happen sws sc Run_task (p_world (t s)) = Some w" by blast
    with none [of "Io s"] show False by (simp add: peer_happen_def)
  qed
  have writes: "w_writes (p_world (t s)) = []" for s
  proof (cases "w_writes (p_world (t s))")
    case (Cons buf bufs)
    from written_steady [OF assms(1) conn Cons, of sc] none [of "Flushed s"] Cons show ?thesis
      by (auto simp: peer_happen_def)
  qed simp
  then have wire: "w_wire (p_world (t s)) = stream_of (p_sent (t s))" for s
    using ok(1) [of s] conn [of s] tasks [of s]
    by (auto simp: sender_ok_def accepted_bytes_def conn_ok_def writing_ok_def Let_def split: if_splits)
  have taken: "p_taken (t s) = length (w_wire (p_world (t (far s))))" for s
  proof (rule ccontr)
    let ?line = "w_wire (p_world (t (far s)))"
    assume "p_taken (t s) \<noteq> length ?line"
    then have "p_taken (t s) < length ?line" using ok(2) [of s] by (simp add: reader_ok_def)
    moreover have "0 < w_reads (p_world (t s))" using ok(1) [of s] by (simp add: sender_ok_def)
    ultimately show False
      using none [of "Deliver s 1"] received_ok [OF conn, of s sws sc "take 1 (drop (p_taken (t s)) ?line)"]
      by (auto simp: peer_read_def peer_happen_def BUFFER_SIZE_def)
  qed
  have queue: "p_queue (t s) = []" for s
  proof (rule ccontr)
    assume "p_queue (t s) \<noteq> []"
    from peer_turn_ok [OF assms(1,2) ok(1) ok(1) ok(2) this, of sc] obtain p
      where "peer_turn sws sc (apps s) (t s) = Some p" by blast
    with none [of "Turn s"] show False by simp
  qed
  have "p_done (t s) = p_sent (t (far s))" for s
  proof -
    obtain pend where "p_queue (t s) = map post_of pend" "split_msgs (take (p_taken (t s)) (w_wire (p_world (t (far s)))))
        = (map sent_head (p_done (t s) @ pend), unread (m_strategy (w_conn (p_world (t s)))))"
      by (rule reader_prefix [OF ok(1) [of "far s"] sendable ok(2) [of s]])
    moreover have "list_all sendable (p_sent (t (far s)))"
      using ok(1) [of "far s"] sendable by (auto simp: sender_ok_def list_all_iff)
    ultimately have "map sent_head (p_done (t s)) = map sent_head (p_sent (t (far s)))"
      using queue [of s] split_msgs_stream by (simp add: taken wire)
    then show ?thesis by (simp add: inj_eq [OF inj_mapI [OF sent_head_inj]])
  qed
  then have "at_rest t" by (simp add: at_rest_def)
  with stuck show False by blast
qed

section \<open>Requests and answers\<close>

text \<open>At any time of a conversation, with the calls, tasks, writes, reads of any size and turns of both ends in any order:
  what an end has handled is a prefix of what the other has sent, each message handled as \<open>handle_msg\<close> does; and what
  it has sent are its clients' calls and the answers to what it has handled, each in order and each once.\<close>

theorem conversation_keeps_order:
  assumes "sets_flag sws" and "understood apps speaks" and "start_talk resolved fails um = Some t0"
    and "\<forall>s. list_all (speaks s) (calls_of s evs)" and "talk_run sws sc apps evs t0 = Some t"
  shows "prefix (p_done (t s)) (p_sent (t (far s)))
    \<and> p_heard (t s) = concat (map (hears apps s) (p_done (t s)))
    \<and> p_sent (t s) \<in> shuffles (calls_of s evs) (concat (map (answers apps s) (p_done (t s))))"
proof -
  note run = talk_run_ok [OF assms(1,2) start_ok [OF assms(3), THEN conjunct1] assms(4,5)]
  then have ok: "talk_ok apps speaks t" ..
  have "\<forall>m. speaks (far s) m \<longrightarrow> sendable m" using assms(2) by (simp add: understood_def)
  from reader_prefix [OF talk_okD(1) [OF ok] this talk_okD(2) [OF ok]] have "prefix (p_done (t s)) (p_sent (t (far s)))"
    by (metis append_prefixD)
  moreover have "p_heard (t s) = concat (map (hears apps s) (p_done (t s)))"
    using talk_okD(2) [OF ok, of s] by (simp add: reader_ok_def)
  moreover have "p_sent (t s) \<in> shuffles (calls_of s evs) (concat (map (answers apps s) (p_done (t s))))"
    using books_from_start [OF run [THEN conjunct2]] start_ok [OF assms(3), where s = s] by simp
  ultimately show ?thesis by simp
qed

text \<open>\<open>comes_to t Q\<close>: without further calls of clients, no schedule from \<open>t\<close> goes on for ever, and one that cannot go on
  is in a state with \<open>Q\<close>.\<close>

definition comes_to :: "(bool \<Rightarrow> conn \<Rightarrow> conn) \<Rightarrow> (rpc_close_type \<Rightarrow> conn \<Rightarrow> conn \<times> conn_event list)
    \<Rightarrow> (side \<Rightarrow> ('m, 'f) app) \<Rightarrow> ('m, 'f) talk \<Rightarrow> (('m, 'f) talk \<Rightarrow> bool) \<Rightarrow> bool" where
  "comes_to sws sc apps t Q \<longleftrightarrow> (\<exists>n. \<forall>evs t'. (\<forall>s. calls_of s evs = []) \<longrightarrow> talk_run sws sc apps evs t = Some t' \<longrightarrow>
     length evs \<le> n \<and> ((\<exists>ev t''. (\<forall>s m. ev \<noteq> Call s m) \<and> talk_do sws sc apps ev t' = Some t'') \<or> Q t'))"

lemma comes_toI:
  assumes "sets_flag sws" and "understood apps speaks" and "ranked apps speaks rank" and "talk_ok apps speaks t"
    and "\<And>evs t'. \<forall>s. calls_of s evs = [] \<Longrightarrow> talk_run sws sc apps evs t = Some t' \<Longrightarrow> at_rest t' \<Longrightarrow> Q t'"
  shows "comes_to sws sc apps t Q"
  unfolding comes_to_def
proof (intro exI [of _ "potential apps rank t"] allI impI)
  fix evs t'
  assume evs: "\<forall>s. calls_of s evs = []" "talk_run sws sc apps evs t = Some t'"
  have "\<forall>s. list_all (speaks s) (calls_of s evs)" using evs(1) by simp
  from talk_run_ok [OF assms(1,2,4) this evs(2)] have "talk_ok apps speaks t'" ..
  from busy_or_rest [OF assms(1,2) this] assms(5) [OF evs] talk_run_pays [OF assms(1-4) evs]
  show "length evs \<le> potential apps rank t
      \<and> ((\<exists>ev t''. (\<forall>s m. ev \<noteq> Call s m) \<and> talk_do sws sc apps ev t' = Some t'') \<or> Q t')" by auto
qed

lemma comes_to_run:
  assumes "comes_to sws sc apps t Q"
  shows "\<exists>evs t'. (\<forall>s. calls_of s evs = []) \<and> talk_run sws sc apps evs t = Some t' \<and> Q t'"
proof (rule ccontr)
  assume never: "\<not> ?thesis"
  from assms obtain n where n: "\<And>evs t'. \<forall>s. calls_of s evs = [] \<Longrightarrow> talk_run sws sc apps evs t = Some t' \<Longrightarrow>
     length evs \<le> n \<and> ((\<exists>ev t''. (\<forall>s m. ev \<noteq> Call s m) \<and> talk_do sws sc apps ev t' = Some t'') \<or> Q t')"
    unfolding comes_to_def by blast
  have "\<exists>evs t'. (\<forall>s. calls_of s evs = []) \<and> talk_run sws sc apps evs t = Some t' \<and> length evs = k" for k
  proof (induction k)
    case 0
    then show ?case by (intro exI [of _ "[]"]) simp
  next
    case (Suc k)
    then obtain evs t' where evs: "\<forall>s. calls_of s evs = []" "talk_run sws sc apps evs t = Some t'" "length evs = k" by blast
    with n never obtain ev t'' where ev: "\<forall>s m. ev \<noteq> Call s m" "talk_do sws sc apps ev t' = Some t''" by metis
    with evs show ?case
      by (intro exI [of _ "evs @ [ev]"] exI [of _ t'']) (simp add: talk_run_append calls_of_append no_call_iff)
  qed
  from this [of "Suc n"] n show False by fastforce
qed

text \<open>C3: A conversation in which every answer ranks lower than what it answers comes to rest: when the clients make no more
  calls, every schedule of both ends comes to an end, whatever the order and however the stream is cut, and it can only end
  where each end has handled all that the other has sent.\<close>

theorem conversation_comes_to_rest:
  assumes "sets_flag sws" and "understood apps speaks" and "ranked apps speaks rank"
    and "start_talk resolved fails um = Some t0" and "\<forall>s. list_all (speaks s) (calls_of s evs)"
    and "talk_run sws sc apps evs t0 = Some t"
  shows "comes_to sws sc apps t (\<lambda>t'. \<forall>s. p_done (t' s) = p_sent (t' (far s)))"
proof (rule comes_toI [OF assms(1-3)])
  show "talk_ok apps speaks t"
    using talk_run_ok [OF assms(1,2) start_ok [OF assms(4), THEN conjunct1] assms(5,6)] ..
qed (simp add: at_rest_def)

lemma shuffles_Nil_iff: "zs \<in> shuffles xs [] \<longleftrightarrow> zs = xs" "zs \<in> shuffles [] ys \<longleftrightarrow> zs = ys"
  by auto

text \<open>C2: Requests and answers. One end only calls and answers nothing, the other only answers. Then, when the calls have
  been made, every schedule comes to an end; there the accepting end has handled exactly the requests, and the
  connecting end exactly the answers to them, each once and in the order of the requests.\<close>

theorem requests_are_answered:
  assumes "sets_flag sws" and "understood apps speaks"
    and "\<forall>m. speaks Accepting m \<longrightarrow> answers apps Connecting m = []"
    and "start_talk resolved fails um = Some t0"
    and "list_all (speaks Connecting) (calls_of Connecting evs)" and "calls_of Accepting evs = []"
    and "talk_run sws sc apps evs t0 = Some t"
  shows "comes_to sws sc apps t (\<lambda>t'.
      p_heard (t' Accepting) = concat (map (hears apps Accepting) (calls_of Connecting evs))
    \<and> p_heard (t' Connecting)
        = concat (map (hears apps Connecting) (concat (map (answers apps Accepting) (calls_of Connecting evs)))))"
proof -
  have says: "\<forall>s. list_all (speaks s) (calls_of s evs)"
  proof
    show "list_all (speaks s) (calls_of s evs)" for s using assms(5,6) by (cases s) simp_all
  qed
  let ?rank = "\<lambda>s (m :: message). if s = Connecting then 1 else 0 :: nat"
  have ranked: "ranked apps speaks ?rank"
    unfolding ranked_def
  proof (intro allI impI ballI)
    show "?rank (far s) a < ?rank s m" if "speaks s m" "a \<in> set (answers apps (far s) m)" for s m a
      using assms(3) [THEN spec, of m] that by (cases s) simp_all
  qed
  have ok: "talk_ok apps speaks t"
    using talk_run_ok [OF assms(1,2) start_ok [OF assms(4), THEN conjunct1] says assms(7)] ..
  show ?thesis
  proof (rule comes_toI [OF assms(1,2) ranked ok])
    fix evs' t'
    assume evs': "\<forall>s. calls_of s evs' = []" "talk_run sws sc apps evs' t = Some t'" and rest: "at_rest t'"
    have run: "talk_run sws sc apps (evs @ evs') t0 = Some t'" using assms(7) evs'(2) by (simp add: talk_run_append)
    have calls: "calls_of s (evs @ evs') = calls_of s evs" for s using evs'(1) by (simp add: calls_of_append)
    have "\<forall>s. list_all (speaks s) (calls_of s (evs @ evs'))" using says calls by simp
    note whole = talk_run_ok [OF assms(1,2) start_ok [OF assms(4), THEN conjunct1] this run]
    have done_sent: "p_done (t' s) = p_sent (t' (far s))" for s using rest by (simp add: at_rest_def)
    have sent: "p_sent (t' s) \<in> shuffles (calls_of s evs) (concat (map (answers apps s) (p_sent (t' (far s)))))" for s
      using books_from_start [OF whole [THEN conjunct2], of s] start_ok [OF assms(4), where s = s] done_sent [of s]
      by (simp add: calls)
    have "list_all (speaks Accepting) (p_sent (t' Accepting))"
      using talk_okD(1) [OF whole [THEN conjunct1]] by (simp add: sender_ok_def)
    then have "\<forall>m \<in> set (p_sent (t' Accepting)). answers apps Connecting m = []"
      using assms(3) unfolding list_all_iff by blast
    then have "concat (map (answers apps Connecting) (p_sent (t' Accepting))) = []" by simp
    with sent [of Connecting] have requests: "p_sent (t' Connecting) = calls_of Connecting evs" by (simp add: shuffles_Nil_iff)
    with sent [of Accepting] assms(6) have
      "p_sent (t' Accepting) = concat (map (answers apps Accepting) (calls_of Connecting evs))" by (simp add: shuffles_Nil_iff)
    moreover have "p_heard (t' s) = concat (map (hears apps s) (p_sent (t' (far s))))" for s
      using talk_okD(2) [OF whole [THEN conjunct1], of s] done_sent [of s] by (simp add: reader_ok_def)
    ultimately show "p_heard (t' Accepting) = concat (map (hears apps Accepting) (calls_of Connecting evs))
      \<and> p_heard (t' Connecting)
          = concat (map (hears apps Connecting) (concat (map (answers apps Accepting) (calls_of Connecting evs))))"
      using requests by simp
  qed
qed

section \<open>Instances\<close>

text \<open>The accepting end answers each request 4 with a message 5 that has the same body; the connecting end takes answers 5.\<close>

definition echo_apps :: "side \<Rightarrow> (bytes, string) app" where
  "echo_apps = case_side
     \<lparr>app_calls = reg_all [(5, Some, ''on_answer'')], app_unknown = on_unknown_default, app_sends = \<lambda>_ _. []\<rparr>
     \<lparr>app_calls = reg_all [(4, Some, ''on_request'')], app_unknown = on_unknown_default, app_sends = \<lambda>_ body. [(5, body)]\<rparr>"

definition echo_speaks :: "side \<Rightarrow> message \<Rightarrow> bool" where
  "echo_speaks s m \<longleftrightarrow> fst m = case_side 4 5 s \<and> sendable m"

lemma echo_hears:
  "hears echo_apps Accepting (4, body) = [Invoke ''on_request'' body]" "answers echo_apps Accepting (4, body) = [(5, body)]"
  "hears echo_apps Connecting (5, body) = [Invoke ''on_answer'' body]" "answers echo_apps Connecting (5, body) = []"
  by (simp_all add: answers_def hears_def echo_apps_def handle_msg_def call_happen_def reg_all_def reg_call_def)

lemma echo_understood: "understood echo_apps echo_speaks"
  unfolding understood_def
proof (intro allI impI)
  show "sendable m \<and> (\<forall>type. Close_conn type \<notin> set (hears echo_apps (far s) m))
      \<and> list_all (echo_speaks (far s)) (answers echo_apps (far s) m)" if "echo_speaks s m" for s m
    using that by (cases s; cases m) (auto simp: echo_speaks_def echo_hears sendable_def)
qed

lemma echo_quiet: "\<forall>m. echo_speaks Accepting m \<longrightarrow> answers echo_apps Connecting m = []"
  by (auto simp: echo_speaks_def echo_hears)

definition echo_rank :: "side \<Rightarrow> message \<Rightarrow> nat" where
  "echo_rank s m = case_side 1 0 s"

lemma echo_ranked: "ranked echo_apps echo_speaks echo_rank"
  unfolding ranked_def
proof (intro allI impI ballI)
  show "echo_rank (far s) a < echo_rank s m" if "echo_speaks s m" "a \<in> set (answers echo_apps (far s) m)" for s m a
    using that by (cases s; cases m) (auto simp: echo_speaks_def echo_hears echo_rank_def)
qed

definition echo_start :: "(bytes, string) talk" where
  "echo_start = the (start_talk (Some [()]) (\<lambda>_. False) True)"

lemma echo_started: "start_talk (Some [()]) (\<lambda>_. False) True = Some echo_start"
  by (simp add: echo_start_def start_talk_def connected_world_def sync_connect_def init_conn_def)

definition two_requests :: "talk_event list" where
  "two_requests = [Call Connecting (4, [7]), Call Connecting (4, [8, 9])]"

lemma two_requests_run: "\<exists>t. talk_run sws sc apps two_requests t0 = Some t"
  by (simp add: two_requests_def peer_happen_def happen_def send_happening_def)

lemma two_requests_say: "\<forall>s. list_all (echo_speaks s) (calls_of s two_requests)"
  by (simp add: two_requests_def echo_speaks_def sendable_def)

lemma two_requests_calls: "calls_of Connecting two_requests = [(4, [7]), (4, [8, 9])]" "calls_of Accepting two_requests = []"
  by (simp_all add: two_requests_def)

lemma echo_finishes:
  assumes "\<And>t. talk_run put_flag drop_conn echo_apps two_requests echo_start = Some t
      \<Longrightarrow> comes_to put_flag drop_conn echo_apps t Q"
  shows "\<exists>evs t. talk_run put_flag drop_conn echo_apps (two_requests @ evs) echo_start = Some t
    \<and> (\<forall>s. calls_of s (two_requests @ evs) = calls_of s two_requests) \<and> Q t"
proof -
  obtain t where t: "talk_run put_flag drop_conn echo_apps two_requests echo_start = Some t"
    using two_requests_run by blast
  from comes_to_run [OF assms [OF t]] t show ?thesis by (auto simp: talk_run_append calls_of_append)
qed

theorem requests_are_answered_witness:
  "\<exists>evs t. talk_run put_flag drop_conn echo_apps (two_requests @ evs) echo_start = Some t
    \<and> p_heard (t Accepting) = [Invoke ''on_request'' [7], Invoke ''on_request'' [8, 9]]
    \<and> p_heard (t Connecting) = [Invoke ''on_answer'' [7], Invoke ''on_answer'' [8, 9]]"
  using echo_finishes [OF requests_are_answered [OF put_flag_sets echo_understood echo_quiet echo_started
    two_requests_say [THEN spec] two_requests_calls(2)]]
  by (auto simp: two_requests_calls echo_hears)

theorem conversation_comes_to_rest_witness:
  "\<exists>evs t. talk_run put_flag drop_conn echo_apps (two_requests @ evs) echo_start = Some t
    \<and> p_done (t Accepting) = p_sent (t Connecting) \<and> p_done (t Connecting) = p_sent (t Accepting)"
  using echo_finishes [OF conversation_comes_to_rest [OF put_flag_sets echo_understood echo_ranked echo_started
    two_requests_say]]
  by (metis far.simps)

theorem conversation_keeps_order_witness:
  "\<exists>evs t. talk_run put_flag drop_conn echo_apps (two_requests @ evs) echo_start = Some t
    \<and> p_sent (t Connecting) \<in> shuffles [(4, [7]), (4, [8, 9])] (concat (map (answers echo_apps Connecting) (p_done (t Connecting))))
    \<and> prefix (p_done (t Accepting)) (p_sent (t Connecting))"
proof -
  obtain t where t: "talk_run put_flag drop_conn echo_apps two_requests echo_start = Some t"
    using two_requests_run by blast
  note order = conversation_keeps_order [OF put_flag_sets echo_understood echo_started two_requests_say t]
  from order [of Connecting] order [of Accepting] t show ?thesis
    by (intro exI [of _ "[]"] exI [of _ t]) (simp add: two_requests_calls)
qed

end
