(* ===== verification/RpcFailures.thy ===== *)
theory RpcFailures
  imports RpcTalk
begin

text \<open>
  Conversations that fail: the two ends of RpcTalk where, at any point, a client or a method closes the connection, a write
  fails after any part of its buffer, or a read fails, on one end or both. Messages need not be understood: a method may
  not exist or fail to unpack, and the dispatcher then closes the connection (rpc.cpp).

  \<open>sync_close_i\<close>, which the repository declares and does not define, is any function that does no more with its
  strategy than to call \<open>on_closed\<close>. Of the socket it is used that, once an operation on it has failed or
  \<open>sync_close_i\<close> has run, nothing more leaves it than a part of the write that is under way at that moment. Reads
  may complete at any time: \<open>read_complete_i\<close> does not look at the state of the connection.
\<close>

section \<open>What can happen\<close>

datatype rough_event = Talk talk_event | Hang side rpc_close_type | Write_fails side nat | Read_fails side

text \<open>The way out of an end: sound, broken off with a write still under way, or torn.\<close>

datatype line = Sound | Closing | Torn

type_synonym ('m, 'f) rough = "('m, 'f) talk \<times> (side \<Rightarrow> line)"

fun written :: "happening \<Rightarrow> bool" where
  "written (Written err n) \<longleftrightarrow> True"
| "written _ \<longleftrightarrow> False"

fun next_line :: "line \<Rightarrow> happening \<Rightarrow> world \<Rightarrow> line" where
  "next_line Sound h w = (if \<not> breaks h w then Sound else if written h \<or> w_writes w = [] then Torn else Closing)"
| "next_line Closing h w = (if written h then Torn else Closing)"
| "next_line Torn h w = Torn"

definition rough_happen :: "(bool \<Rightarrow> conn \<Rightarrow> conn) \<Rightarrow> (rpc_close_type \<Rightarrow> conn \<Rightarrow> conn \<times> conn_event list)
    \<Rightarrow> side \<Rightarrow> happening \<Rightarrow> ('m, 'f) rough \<Rightarrow> ('m, 'f) rough option" where
  "rough_happen sws sc s h = (\<lambda>(t, br).
     if br s = Torn \<and> \<not> takes_nothing h then None
     else do {
       p \<leftarrow> peer_happen sws sc h (t s);
       Some (t(s := p), br(s := next_line (br s) h (p_world (t s))))
     })"

fun rough_do :: "(bool \<Rightarrow> conn \<Rightarrow> conn) \<Rightarrow> (rpc_close_type \<Rightarrow> conn \<Rightarrow> conn \<times> conn_event list)
    \<Rightarrow> (side \<Rightarrow> ('m, 'f) app) \<Rightarrow> rough_event \<Rightarrow> ('m, 'f) rough \<Rightarrow> ('m, 'f) rough option" where
  "rough_do sws sc apps (Talk (Io s)) r = rough_happen sws sc s Run_task r"
| "rough_do sws sc apps (Talk (Flushed s)) r = (case w_writes (p_world (fst r s)) of [] \<Rightarrow> None
     | buf # _ \<Rightarrow> rough_happen sws sc s (Written False (length buf)) r)"
| "rough_do sws sc apps (Talk ev) (t, br) = do { t \<leftarrow> talk_do sws sc apps ev t; Some (t, br) }"
| "rough_do sws sc apps (Hang s type) r = rough_happen sws sc s (Client_close type) r"
| "rough_do sws sc apps (Write_fails s n) r = rough_happen sws sc s (Written True n) r"
| "rough_do sws sc apps (Read_fails s) r = rough_happen sws sc s (Received True []) r"

fun rough_run :: "(bool \<Rightarrow> conn \<Rightarrow> conn) \<Rightarrow> (rpc_close_type \<Rightarrow> conn \<Rightarrow> conn \<times> conn_event list)
    \<Rightarrow> (side \<Rightarrow> ('m, 'f) app) \<Rightarrow> rough_event list \<Rightarrow> ('m, 'f) rough \<Rightarrow> ('m, 'f) rough option" where
  "rough_run sws sc apps [] r = Some r"
| "rough_run sws sc apps (ev # evs) r = Option.bind (rough_do sws sc apps ev r) (rough_run sws sc apps evs)"

fun rough_calls :: "side \<Rightarrow> rough_event list \<Rightarrow> message list" where
  "rough_calls s [] = []"
| "rough_calls s (Talk ev # evs) = calls_of s [ev] @ rough_calls s evs"
| "rough_calls s (_ # evs) = rough_calls s evs"

abbreviation broken_post :: proto_event where
  "broken_post \<equiv> Post_handle_msg 0 0 0 []"

section \<open>Steps of a connection that may fail\<close>

lemma breaks_code [code]:
  "breaks h w = (case h of
      Run_task \<Rightarrow> (case w_tasks w of Sync_close _ # _ \<Rightarrow> True | _ \<Rightarrow> False)
    | Written err n \<Rightarrow> err
    | Received err data \<Rightarrow> err
    | _ \<Rightarrow> False)"
  by (auto simp: breaks_def split: happening.split list.split conn_task.split)

lemma write_task_steady:
  assumes "sets_flag sws" and "w_tasks w = Sync_write data # ts" and "happen sws sc Run_task w = Some w'"
  shows "steady w w'"
  using assms
  by (auto simp: happen_def sync_write_i_def start_sending_buffer_i_def sets_flag_def Let_def steady_def
      split: if_splits list.splits)

lemma write_steady:
  assumes "sets_flag sws" and "happen sws sc (Written False n) w = Some w'"
  shows "steady w w'"
  using assms
  by (auto simp: happen_def bind_eq_Some_conv write_complete_i_def start_sending_buffer_i_def sets_flag_def Let_def
      steady_def split: if_splits list.splits)

lemma happen_wire: "happen sws sc h w = Some w' \<Longrightarrow> prefix (w_wire w) (w_wire w')"
  by (cases h) (auto simp: happen_def bind_eq_Some_conv absorb_wire split: list.splits if_splits prod.splits)

fun started :: "conn_event list \<Rightarrow> bytes list" where
  "started [] = []"
| "started (Start_write buf # evs) = buf # started evs"
| "started (_ # evs) = started evs"

lemma absorb_writes: "w_writes (absorb evs w) = w_writes w @ started evs"
  by (induction evs arbitrary: w rule: started.induct) simp_all

lemma happen_writes: "happen sws sc h w = Some w' \<Longrightarrow> \<not> written h \<Longrightarrow> prefix (w_writes w) (w_writes w')"
  by (cases h) (auto simp: happen_def bind_eq_Some_conv absorb_writes split: list.splits if_splits prod.splits)

lemma happen_unwritten: "happen sws sc h w = Some w' \<Longrightarrow> \<not> written h \<Longrightarrow> w_wire w' = w_wire w"
  using silent_step [of h sws sc w w'] by (cases h) simp_all

lemma happen_written:
  assumes "happen sws sc h w = Some w'" and "written h"
  shows "w_writes w \<noteq> [] \<and> prefix (w_wire w') (w_wire w @ hd (w_writes w))"
  using assms
  by (cases h) (auto simp: happen_def bind_eq_Some_conv absorb_wire take_is_prefix split: list.splits if_splits)

text \<open>What a step that breaks the connection off does to the object: nothing, or \<open>on_closed\<close>.\<close>

definition breaks_object :: "conn_view \<Rightarrow> proto \<Rightarrow> proto \<Rightarrow> proto_event list \<Rightarrow> bool" where
  "breaks_object cv p p' evs \<longleftrightarrow> (p', evs) = (p, []) \<or> (p', evs) = on_closed cv p"

lemma break_reported:
  assumes "sets_flag sws" and "reports_close sc" and "happen sws sc h w = Some w'" and "breaks h w"
  shows "\<exists>cv. breaks_object cv (m_strategy (w_conn w)) (m_strategy (w_conn w')) (new_events w w')"
proof -
  have on_error: "\<exists>cv. breaks_object cv (m_strategy c) (m_strategy c') (strategy_calls evs)"
    if "(if \<not> has_status RPC_DISCONNECTED c then sc RPC_CLOSE c else (c, [])) = (c', evs)" for c c' evs
    using that reports_closeD [OF assms(2), of RPC_CLOSE c c' evs]
    by (auto simp: breaks_object_def split: if_splits)
  show ?thesis
  proof (cases h)
    case Run_task
    with assms(4) obtain type ts where t: "w_tasks w = Sync_close type # ts" by (auto simp: breaks_def)
    obtain c evs where c: "sc type (w_conn w) = (c, evs)" by fastforce
    from reports_closeD [OF assms(2) c] c assms(3) Run_task t show ?thesis
      by (auto simp: happen_def new_events_def absorb_posted absorb_conn breaks_object_def)
  next
    case (Written err n)
    with assms(3,4) obtain c evs bufs x where c: "write_complete_i sws sc True n (w_conn w) = Some (c, evs)"
      "w' = absorb evs (w\<lparr>w_writes := bufs, w_wire := x, w_conn := c\<rparr>)"
      by (auto simp: happen_def breaks_def bind_eq_Some_conv split: list.splits if_splits)
    then obtain c0 where "(if \<not> has_status RPC_DISCONNECTED c0 then sc RPC_CLOSE c0 else (c0, [])) = (c, evs)"
      "m_strategy c0 = m_strategy (w_conn w)"
      using assms(1) by (auto simp: write_complete_i_def Let_def sets_flag_def split: list.splits)
    from on_error [OF this(1)] this(2) show ?thesis by (simp add: c(2) new_events_def absorb_posted absorb_conn)
  next
    case (Received err data)
    with assms(3,4) obtain c evs n where c: "read_complete_i sc True data (w_conn w) = Some (c, evs)"
      "w' = absorb evs (w\<lparr>w_reads := n, w_conn := c\<rparr>)"
      by (auto simp: happen_def breaks_def bind_eq_Some_conv split: if_splits)
    then have "(if \<not> has_status RPC_DISCONNECTED (w_conn w) then sc RPC_CLOSE (w_conn w) else (w_conn w, [])) = (c, evs)"
      by (simp add: read_complete_i_def)
    from on_error [OF this] show ?thesis by (simp add: c(2) new_events_def absorb_posted absorb_conn)
  qed (use assms(4) in \<open>simp_all add: breaks_def\<close>)
qed

text \<open>So it posts the broken message the first time at most, and what has been read of a message stays.\<close>

lemma broken_object:
  assumes "breaks_object cv p p' evs" and "proto_ok p"
  shows "proto_ok p' \<and> unread p' = unread p
    \<and> (\<exists>i. filter is_post evs = replicate i broken_post
        \<and> i + of_bool (m_is_broken p) = of_bool (m_is_broken p'))"
proof (cases "(p', evs) = (p, [])")
  case False
  then have "(p', evs) = on_closed cv p" using assms(1) unfolding breaks_object_def by blast
  then have p': "p' = fst (post_broken_msg_i p)" and evs: "filter is_post evs = filter is_post (snd (post_broken_msg_i p))"
    by (auto simp: on_closed_def split_beta)
  have "filter is_post evs = replicate (if m_is_broken p then 0 else 1) broken_post"
    by (simp add: evs post_broken_msg_i_def)
  with post_broken [of p] assms(2) p' show ?thesis by (intro conjI exI) auto
qed (use assms(2) in \<open>auto intro: exI [of _ 0]\<close>)

text \<open>What a handled message makes the connection do is to queue tasks.\<close>

lemma sends_queue:
  "happens sws sc (map send_happening ms) w = Some (w\<lparr>w_tasks := w_tasks w @ map (\<lambda>m. Sync_write (make_msg (fst m) (snd m))) ms\<rparr>)"
  by (induction ms arbitrary: w) (simp_all add: send_happening async_send_def async_write_def)

lemma reactions_queue:
  "\<exists>ts. happens sws sc (concat (map (reaction a) evs)) w = Some (w\<lparr>w_tasks := w_tasks w @ ts\<rparr>)
    \<and> concat (map task_data ts) = stream_of (concat (map (replies a) evs))"
proof (induction evs arbitrary: w)
  case Nil
  show ?case by (intro exI [of _ "[]"]) simp
next
  case (Cons ev evs)
  have "\<exists>ts. happens sws sc (reaction a ev) w = Some (w\<lparr>w_tasks := w_tasks w @ ts\<rparr>)
      \<and> concat (map task_data ts) = stream_of (replies a ev)"
  proof (cases "\<exists>type. ev = Close_conn type")
    case True
    then obtain type where "ev = Close_conn type" by blast
    then show ?thesis by (intro exI [of _ "[Sync_close type]"]) (simp add: happen_def close_conn_def task_data_def)
  next
    case False
    then have "reaction a ev = map send_happening (replies a ev)" by (cases ev) simp_all
    then show ?thesis
      by (intro exI [of _ "map (\<lambda>m. Sync_write (make_msg (fst m) (snd m))) (replies a ev)"])
        (simp add: sends_queue task_data_def comp_def case_prod_unfold)
  qed
  then obtain ts where ts: "happens sws sc (reaction a ev) w = Some (w\<lparr>w_tasks := w_tasks w @ ts\<rparr>)"
    "concat (map task_data ts) = stream_of (replies a ev)" by blast
  obtain us where "happens sws sc (concat (map (reaction a) evs)) (w\<lparr>w_tasks := w_tasks w @ ts\<rparr>)
      = Some (w\<lparr>w_tasks := (w_tasks w @ ts) @ us\<rparr>)" "concat (map task_data us) = stream_of (concat (map (replies a) evs))"
    using Cons.IH [of "w\<lparr>w_tasks := w_tasks w @ ts\<rparr>"] by auto
  with ts show ?case by (intro exI [of _ "ts @ us"]) (simp add: happens_append)
qed

section \<open>The invariant\<close>

text \<open>Until it breaks off, an end has everything it has sent on the wire, queued or posted; then only the wire counts, and
  the write that is under way.\<close>

definition rough_sender :: "line \<Rightarrow> ('m, 'f) peer \<Rightarrow> bool" where
  "rough_sender l p \<longleftrightarrow> list_all sendable (p_sent p) \<and> prefix (w_wire (p_world p)) (stream_of (p_sent p))
     \<and> (case l of
          Sound \<Rightarrow> wire_ok (p_world p) \<and> accepted_bytes (p_world p) = stream_of (p_sent p)
        | Closing \<Rightarrow> w_writes (p_world p) \<noteq> []
            \<and> prefix (w_wire (p_world p) @ hd (w_writes (p_world p))) (stream_of (p_sent p))
        | Torn \<Rightarrow> True)"

text \<open>What has been read is handled or waits, in order; among it there is one broken message at most, wherever it is, and
  none before the end breaks off.\<close>

definition rough_reader :: "(message \<Rightarrow> ('m, 'f) rpc_event list) \<Rightarrow> line \<Rightarrow> bytes \<Rightarrow> ('m, 'f) peer \<Rightarrow> bool" where
  "rough_reader does l line p \<longleftrightarrow> p_taken p \<le> length line
     \<and> proto_ok (m_strategy (w_conn (p_world p)))
     \<and> unread (m_strategy (w_conn (p_world p))) = snd (split_msgs (take (p_taken p) line))
     \<and> (l = Sound \<longrightarrow> \<not> m_is_broken (m_strategy (w_conn (p_world p))))
     \<and> (\<exists>pend k j. p_heard p \<in> shuffles (concat (map does (p_done p))) (replicate k On_broken)
          \<and> p_queue p \<in> shuffles (map post_of pend) (replicate j broken_post)
          \<and> k + j = of_bool (m_is_broken (m_strategy (w_conn (p_world p))))
          \<and> fst (split_msgs (take (p_taken p) line)) = map sent_head (p_done p @ pend))"

definition rough_ok :: "(side \<Rightarrow> ('m, 'f) app) \<Rightarrow> ('m, 'f) rough \<Rightarrow> bool" where
  "rough_ok apps r \<longleftrightarrow> (\<forall>s. rough_sender (snd r s) (fst r s)
     \<and> rough_reader (hears apps s) (snd r s) (w_wire (p_world (fst r (far s)))) (fst r s))"

lemma rough_later:
  assumes "rough_reader does l line p" and "prefix line line'"
  shows "rough_reader does l line' p"
proof -
  have "p_taken p \<le> length line" using assms(1) by (simp add: rough_reader_def)
  then have "p_taken p \<le> length line'" "take (p_taken p) line' = take (p_taken p) line"
    using assms(2) by (auto simp: prefix_def)
  then show ?thesis using assms(1) unfolding rough_reader_def by simp
qed

lemma rough_step:
  assumes "rough_ok apps (t, br)" and "rough_sender l p"
    and "rough_reader (hears apps s) l (w_wire (p_world (t (far s)))) p"
    and "prefix (w_wire (p_world (t s))) (w_wire (p_world p))"
  shows "rough_ok apps (t(s := p), br(s := l))"
  unfolding rough_ok_def fst_conv snd_conv
proof
  fix s'
  have far: "s' = far s" if "s' \<noteq> s" using that by (cases s; cases s') simp_all
  show "rough_sender ((br(s := l)) s') ((t(s := p)) s')
      \<and> rough_reader (hears apps s') ((br(s := l)) s') (w_wire (p_world ((t(s := p)) (far s')))) ((t(s := p)) s')"
    using assms far by (cases "s' = s") (auto simp: rough_ok_def intro: rough_later)
qed

text \<open>The sending half: a step after which the end has sent \<open>ms\<close> more.\<close>

lemma rough_sender_step:
  assumes "sets_flag sws" and "rough_sender l p" and "happen sws sc h (p_world p) = Some (p_world p')"
    and "p_sent p' = p_sent p @ ms" and "client_data h = stream_of ms" and "list_all sendable ms"
    and "l = Torn \<longrightarrow> takes_nothing h"
  shows "rough_sender (next_line l h (p_world p)) p'"
proof -
  let ?w = "p_world p" and ?w' = "p_world p'"
  have old: "list_all sendable (p_sent p)" "prefix (w_wire ?w) (stream_of (p_sent p))"
    using assms(2) by (simp_all add: rough_sender_def)
  have sendable: "list_all sendable (p_sent p')" using old(1) assms(4,6) by simp
  have more: "prefix x (stream_of (p_sent p'))" if "prefix x (stream_of (p_sent p))" for x
    using that assms(4) by (simp add: prefix_prefix)
  have silent: "prefix (w_wire ?w') (stream_of (p_sent p'))" if "w_wire ?w' = w_wire ?w"
    using more [OF old(2)] that by simp
  have goes_on: "w_writes ?w' \<noteq> [] \<and> hd (w_writes ?w') = hd (w_writes ?w)" if "w_writes ?w \<noteq> []" "\<not> written h"
    using happen_writes [OF assms(3) that(2)] that(1) by (auto simp: prefix_def)
  show ?thesis
  proof (cases l)
    case Sound
    then have ok: "wire_ok ?w" "accepted_bytes ?w = stream_of (p_sent p)" using assms(2) by (simp_all add: rough_sender_def)
    show ?thesis
    proof (cases "breaks h ?w")
      case True
      have wire: "prefix (w_wire ?w') (stream_of (p_sent p'))"
        using more break_step [OF ok(1) assms(3) True] ok(2) by simp
      have "prefix (w_wire ?w @ hd (w_writes ?w)) (accepted_bytes ?w)" if "w_writes ?w \<noteq> []"
        using ok(1) that by (cases "m_write_queue (w_conn ?w)") (auto simp: wire_ok_def accepted_bytes_def split: if_splits)
      with more ok(2) have "prefix (w_wire ?w @ hd (w_writes ?w)) (stream_of (p_sent p'))" if "w_writes ?w \<noteq> []"
        using that by simp
      with wire goes_on happen_unwritten [OF assms(3)] True Sound sendable show ?thesis by (simp add: rough_sender_def)
    next
      case False
      from whole_step [OF assms(1) ok(1) assms(3) False] ok(2) assms(4,5) wire_accepted [of ?w'] False Sound sendable
      show ?thesis by (simp add: rough_sender_def)
    qed
  next
    case Closing
    then have c: "w_writes ?w \<noteq> []" "prefix (w_wire ?w @ hd (w_writes ?w)) (stream_of (p_sent p'))"
      using assms(2) more by (simp_all add: rough_sender_def)
    show ?thesis
    proof (cases "written h")
      case True
      from happen_written [OF assms(3) True] c(2) have "prefix (w_wire ?w') (stream_of (p_sent p'))"
        using prefix_order.trans by blast
      then show ?thesis using True Closing sendable by (simp add: rough_sender_def)
    next
      case False
      with c goes_on [OF c(1) False] happen_unwritten [OF assms(3) False] silent Closing sendable show ?thesis
        by (simp add: rough_sender_def)
    qed
  next
    case Torn
    with assms(7) have "w_wire ?w' = w_wire ?w" using silent_step [OF _ assms(3)] by blast
    with silent Torn sendable show ?thesis by (simp add: rough_sender_def)
  qed
qed

text \<open>The reading half: a step that reads nothing, and one that breaks the connection off.\<close>

lemma rough_reader_steady:
  assumes "rough_reader does l line p" and "steady (p_world p) (p_world p')"
    and "p_taken p' = p_taken p" and "p_heard p' = p_heard p" and "p_done p' = p_done p" and "p_queue p' = p_queue p"
  shows "rough_reader does l line p'"
  using assms unfolding rough_reader_def steady_def by simp

lemma rough_reader_break:
  assumes "rough_reader does l line p" and "p_taken p' = p_taken p" and "p_heard p' = p_heard p" and "p_done p' = p_done p"
    and "p_queue p' = p_queue p @ filter is_post evs"
    and "breaks_object cv (m_strategy (w_conn (p_world p))) (m_strategy (w_conn (p_world p'))) evs" and "l' \<noteq> Sound"
  shows "rough_reader does l' line p'"
proof -
  from assms(1) obtain pend k j where p: "proto_ok (m_strategy (w_conn (p_world p)))"
    "p_queue p \<in> shuffles (map post_of pend) (replicate j broken_post)"
    "k + j = of_bool (m_is_broken (m_strategy (w_conn (p_world p))))"
    "p_heard p \<in> shuffles (concat (map does (p_done p))) (replicate k On_broken)"
    "fst (split_msgs (take (p_taken p) line)) = map sent_head (p_done p @ pend)" unfolding rough_reader_def by blast
  from broken_object [OF assms(6) p(1)] obtain i where i: "proto_ok (m_strategy (w_conn (p_world p')))"
    "unread (m_strategy (w_conn (p_world p'))) = unread (m_strategy (w_conn (p_world p)))"
    "filter is_post evs = replicate i broken_post"
    "i + of_bool (m_is_broken (m_strategy (w_conn (p_world p)))) = of_bool (m_is_broken (m_strategy (w_conn (p_world p'))))"
    by blast
  have "p_queue p' \<in> shuffles (map post_of pend @ []) (replicate j broken_post @ replicate i broken_post)"
    unfolding assms(5) i(3) by (rule shuffles_append [OF p(2)]) simp
  then have "p_queue p' \<in> shuffles (map post_of pend) (replicate (j + i) broken_post)" by (simp add: replicate_add)
  moreover have "k + (j + i) = of_bool (m_is_broken (m_strategy (w_conn (p_world p'))))" using p(3) i(4) by simp
  ultimately have ex: "\<exists>pend k j. p_heard p' \<in> shuffles (concat (map does (p_done p'))) (replicate k On_broken)
      \<and> p_queue p' \<in> shuffles (map post_of pend) (replicate j broken_post)
      \<and> k + j = of_bool (m_is_broken (m_strategy (w_conn (p_world p'))))
      \<and> fst (split_msgs (take (p_taken p') line)) = map sent_head (p_done p' @ pend)"
    using p(4,5) assms(2-4) by (intro exI [of _ pend] exI [of _ k] exI [of _ "j + i"]) simp
  have "p_taken p \<le> length line"
    "unread (m_strategy (w_conn (p_world p))) = snd (split_msgs (take (p_taken p) line))"
    using assms(1) unfolding rough_reader_def by blast+
  with i(1,2) ex assms(2,7) show ?thesis unfolding rough_reader_def by (intro conjI) simp_all
qed

text \<open>What an end has handled is a prefix of what the other has sent.\<close>

lemma rough_prefix:
  assumes "rough_sender l q" and "fst (split_msgs (take n (w_wire (p_world q)))) = map sent_head ms"
  shows "prefix ms (p_sent q)"
proof -
  have "list_all sendable (p_sent q)" "prefix (take n (w_wire (p_world q))) (stream_of (p_sent q))"
    using assms(1) take_is_prefix prefix_order.trans by (auto simp: rough_sender_def) blast+
  from split_msgs_prefix [OF this] assms(2) obtain ms' where "map sent_head ms = map sent_head ms'" "prefix ms' (p_sent q)"
    by metis
  then show ?thesis by (simp add: inj_eq [OF inj_mapI [OF sent_head_inj]])
qed

section \<open>Every event keeps it\<close>

definition rough_step_ok :: "(side \<Rightarrow> ('m, 'f) app) \<Rightarrow> rough_event \<Rightarrow> ('m, 'f) rough \<Rightarrow> ('m, 'f) rough \<Rightarrow> bool" where
  "rough_step_ok apps ev r r' \<longleftrightarrow> rough_ok apps r' \<and> books apps (\<lambda>s. rough_calls s [ev]) (fst r) (fst r')"

lemma rough_okD:
  assumes "rough_ok apps (t, br)"
  shows "rough_sender (br s) (t s)" "rough_reader (hears apps s) (br s) (w_wire (p_world (t (far s)))) (t s)"
  using assms by (simp_all add: rough_ok_def)

lemma next_line_steady: "\<not> breaks h w \<Longrightarrow> \<not> written h \<or> l \<noteq> Closing \<Longrightarrow> next_line l h w = l"
  by (cases l) auto

lemma rough_reader_line: "rough_reader does l line p \<Longrightarrow> l' \<noteq> Sound \<Longrightarrow> rough_reader does l' line p"
  unfolding rough_reader_def by simp

lemma next_line_later: "l \<noteq> Sound \<Longrightarrow> next_line l h w \<noteq> Sound"
  by (cases l) auto

text \<open>Anything that happens to a connection but a read: it breaks the connection off or leaves the object alone.\<close>

lemma rough_happen_event:
  assumes "sets_flag sws" and "reports_close sc" and "rough_ok apps (t, br)" and "rough_happen sws sc s h (t, br) = Some r"
    and "\<And>w. \<not> breaks h (p_world (t s)) \<Longrightarrow> happen sws sc h (p_world (t s)) = Some w \<Longrightarrow> steady (p_world (t s)) w"
    and "client_data h = []" and "\<forall>s. rough_calls s [ev] = []"
  shows "rough_step_ok apps ev (t, br) r"
proof -
  let ?w = "p_world (t s)" and ?l = "next_line (br s) h (p_world (t s))" and ?line = "w_wire (p_world (t (far s)))"
  from assms(4) obtain w where w: "happen sws sc h ?w = Some w" "br s = Torn \<longrightarrow> takes_nothing h"
    "r = (t(s := (t s)\<lparr>p_world := w, p_queue := p_queue (t s) @ filter is_post (new_events ?w w)\<rparr>), br(s := ?l))"
    (is "_ = (t(s := ?p), _)")
    by (auto simp: rough_happen_def peer_happen_def bind_eq_Some_conv split: if_splits)
  note ok = rough_okD [OF assms(3), of s]
  have "rough_sender ?l ?p"
    using rough_sender_step [OF assms(1) ok(1), of sc h ?p "[]"] w(1,2) assms(6) by simp
  moreover have "rough_reader (hears apps s) ?l ?line ?p"
  proof (cases "breaks h ?w")
    case True
    from break_reported [OF assms(1,2) w(1) this]
    obtain cv where "breaks_object cv (m_strategy (w_conn ?w)) (m_strategy (w_conn w)) (new_events ?w w)" by blast
    moreover have "?l \<noteq> Sound" using True by (cases "br s") simp_all
    ultimately show ?thesis
      by (intro rough_reader_break [OF ok(2), where evs = "new_events ?w w" and cv = cv]) simp_all
  next
    case False
    note st = assms(5) [OF False w(1)]
    have "rough_reader (hears apps s) (br s) ?line ?p"
      using steady_quiet [OF st] by (intro rough_reader_steady [OF ok(2)]) (simp_all add: st)
    with False show ?thesis by (cases "br s") (auto intro: rough_reader_line)
  qed
  ultimately have "rough_ok apps r" using rough_step [OF assms(3)] happen_wire [OF w(1)] by (simp add: w(3))
  then show ?thesis using assms(7) by (simp add: rough_step_ok_def w(3) books_quiet)
qed

lemma rough_call_event:
  assumes "sets_flag sws" and "rough_ok apps (t, br)" and "sendable m" and "talk_do sws sc apps (Call s m) t = Some t'"
  shows "rough_step_ok apps (Talk (Call s m)) (t, br) (t', br)"
proof -
  let ?w = "p_world (t s)\<lparr>w_tasks := w_tasks (p_world (t s)) @ [Sync_write (make_msg (fst m) (snd m))]\<rparr>"
  let ?p = "(t s)\<lparr>p_world := ?w, p_sent := p_sent (t s) @ [m]\<rparr>"
  have w: "happen sws sc (send_happening m) (p_world (t s)) = Some ?w"
    by (simp add: send_happening async_send_def async_write_def)
  have st: "steady (p_world (t s)) ?w" by (simp add: steady_def)
  have t': "t' = t(s := ?p)" using assms(4) peer_happen_steady [OF w st] by simp
  have send: "\<not> breaks (send_happening m) (p_world (t s))" "\<not> written (send_happening m)" "takes_nothing (send_happening m)"
    "client_data (send_happening m) = stream_of [m]"
    by (simp_all add: send_happening_def client_data_def breaks_def case_prod_unfold)
  have "rough_sender (next_line (br s) (send_happening m) (p_world (t s))) ?p"
    by (rule rough_sender_step [OF assms(1) rough_okD(1) [OF assms(2)], of sc _ _ _ "[m]"]) (use w assms(3) send in simp_all)
  then have "rough_sender (br s) ?p" using next_line_steady [OF send(1)] send(2) by simp
  moreover have "rough_reader (hears apps s) (br s) (w_wire (p_world (t (far s)))) ?p"
    by (rule rough_reader_steady [OF rough_okD(2) [OF assms(2)]]) (use st in simp_all)
  ultimately have "rough_ok apps (t', br)" using rough_step [OF assms(2), of "br s" ?p s] by (simp add: t')
  moreover have "books apps (\<lambda>s'. rough_calls s' [Talk (Call s m)]) t t'"
    unfolding t' by (rule books_step [of _ _ _ "[]" "[m]"]) simp_all
  ultimately show ?thesis by (simp add: rough_step_ok_def)
qed

text \<open>A turn handles the oldest message in the queue, or the broken message.\<close>

lemma rough_queue_front:
  assumes "e # q \<in> shuffles (map post_of pend) (replicate j broken_post)"
  obtains (message) m rest where "pend = m # rest" "e = post_of m" "q \<in> shuffles (map post_of rest) (replicate j broken_post)"
  | (broken) i where "j = Suc i" "e = broken_post" "q \<in> shuffles (map post_of pend) (replicate i broken_post)"
proof -
  from assms [unfolded Cons_in_shuffles_iff] message broken show thesis
    by (cases pend; cases j) auto
qed

lemma rough_turn_reader:
  assumes "rough_reader (hears apps s) l line p" and "p_queue p = e # q"
    and "evs = run_posted (app_calls (apps s)) (app_unknown (apps s)) [e]"
    and "m_strategy (w_conn w) = m_strategy (w_conn (p_world p))"
  shows "rough_reader (hears apps s) l line (p\<lparr>p_world := w, p_queue := q, p_heard := p_heard p @ evs,
      p_done := p_done p @ posted_messages e, p_sent := sent\<rparr>)
    \<and> concat (map (replies (apps s)) evs) = concat (map (answers apps s) (posted_messages e))"
proof -
  let ?does = "hears apps s"
  from assms(1,2) obtain pend k j where r: "p_heard p \<in> shuffles (concat (map ?does (p_done p))) (replicate k On_broken)"
    "e # q \<in> shuffles (map post_of pend) (replicate j broken_post)"
    "k + j = of_bool (m_is_broken (m_strategy (w_conn (p_world p))))"
    "fst (split_msgs (take (p_taken p) line)) = map sent_head (p_done p @ pend)" unfolding rough_reader_def by auto
  have "\<exists>pend' k' j'. p_heard p @ evs \<in> shuffles (concat (map ?does (p_done p @ posted_messages e))) (replicate k' On_broken)
      \<and> q \<in> shuffles (map post_of pend') (replicate j' broken_post)
      \<and> k' + j' = of_bool (m_is_broken (m_strategy (w_conn (p_world p))))
      \<and> fst (split_msgs (take (p_taken p) line)) = map sent_head ((p_done p @ posted_messages e) @ pend')
      \<and> concat (map (replies (apps s)) evs) = concat (map (answers apps s) (posted_messages e))"
    using r(2)
  proof (cases rule: rough_queue_front)
    case (message m rest)
    have evs: "evs = ?does m" by (simp add: assms(3) message(2) hears_def)
    have "p_heard p @ evs \<in> shuffles (concat (map ?does (p_done p)) @ ?does m) (replicate k On_broken @ [])"
      using evs by (intro shuffles_append [OF r(1)]) simp
    then show ?thesis using message r(3,4) evs
      by (intro exI [of _ rest] exI [of _ k] exI [of _ j]) (simp add: answers_def)
  next
    case (broken i)
    have evs: "evs = [On_broken]" by (simp add: assms(3) broken(2) handle_msg_def)
    have "p_heard p @ [On_broken] \<in> shuffles (concat (map ?does (p_done p)) @ []) (replicate k On_broken @ [On_broken])"
      by (rule shuffles_append [OF r(1)]) simp
    then have "p_heard p @ evs \<in> shuffles (concat (map ?does (p_done p))) (replicate (Suc k) On_broken)"
      by (simp add: evs replicate_append_same)
    then show ?thesis using broken r(3,4) evs
      by (intro exI [of _ pend] exI [of _ "Suc k"] exI [of _ i]) simp
  qed
  then obtain pend' k' j' where r': "p_heard p @ evs \<in> shuffles (concat (map ?does (p_done p @ posted_messages e))) (replicate k' On_broken)"
    "q \<in> shuffles (map post_of pend') (replicate j' broken_post)"
    "k' + j' = of_bool (m_is_broken (m_strategy (w_conn (p_world p))))"
    "fst (split_msgs (take (p_taken p) line)) = map sent_head ((p_done p @ posted_messages e) @ pend')"
    "concat (map (replies (apps s)) evs) = concat (map (answers apps s) (posted_messages e))" by blast
  from assms(1) have "p_taken p \<le> length line" "proto_ok (m_strategy (w_conn (p_world p)))"
    "unread (m_strategy (w_conn (p_world p))) = snd (split_msgs (take (p_taken p) line))"
    "l = Sound \<longrightarrow> \<not> m_is_broken (m_strategy (w_conn (p_world p)))" unfolding rough_reader_def by blast+
  then show ?thesis unfolding rough_reader_def
    by (intro conjI exI [of _ pend'] exI [of _ k'] exI [of _ j']) (use r' assms(4) in simp_all)
qed

lemma rough_turn_event:
  assumes "\<forall>s f m. list_all sendable (app_sends (apps s) f m)"
    and "rough_ok apps (t, br)" and "talk_do sws sc apps (Turn s) t = Some t'"
  shows "rough_step_ok apps (Talk (Turn s)) (t, br) (t', br)"
proof -
  let ?a = "apps s"
  from assms(3) obtain p where p: "peer_turn sws sc ?a (t s) = Some p" "t' = t(s := p)" by (auto simp: bind_eq_Some_conv)
  then obtain e q where e: "p_queue (t s) = e # q" by (auto simp: peer_turn_def split: list.splits)
  define evs where "evs = run_posted (app_calls ?a) (app_unknown ?a) [e]"
  obtain ts where ts: "happens sws sc (concat (map (reaction ?a) evs)) (p_world (t s))
      = Some (p_world (t s)\<lparr>w_tasks := w_tasks (p_world (t s)) @ ts\<rparr>)"
    "concat (map task_data ts) = stream_of (concat (map (replies ?a) evs))" using reactions_queue by blast
  from p(1) have p_eq: "p = (t s)\<lparr>p_world := p_world (t s)\<lparr>w_tasks := w_tasks (p_world (t s)) @ ts\<rparr>, p_queue := q,
      p_heard := p_heard (t s) @ evs, p_done := p_done (t s) @ posted_messages e,
      p_sent := p_sent (t s) @ concat (map (replies ?a) evs)\<rparr>"
    using e ts(1) by (simp add: peer_turn_def Let_def evs_def del: run_posted.simps)
  have replies: "list_all sendable (concat (map (replies ?a) evs))" for evs
  proof (induction evs)
    case (Cons ev evs)
    then show ?case using assms(1) by (cases ev) simp_all
  qed simp
  note ok = rough_okD [OF assms(2), of s]
  have "rough_sender (br s) p"
    using ok(1) ts(2) replies [of evs] prefix_prefix
    by (cases "br s") (auto simp: p_eq rough_sender_def wire_ok_def accepted_bytes_def)
  moreover have turn: "rough_reader (hears apps s) (br s) (w_wire (p_world (t (far s)))) p
      \<and> concat (map (replies ?a) evs) = concat (map (answers apps s) (posted_messages e))"
    unfolding p_eq by (rule rough_turn_reader [OF ok(2) e evs_def]) simp
  moreover have "prefix (w_wire (p_world (t s))) (w_wire (p_world p))" by (simp add: p_eq)
  ultimately have "rough_ok apps (t', br)" using rough_step [OF assms(2), of "br s" p s] by (simp add: p(2))
  moreover have "books apps (\<lambda>s'. rough_calls s' [Talk (Turn s)]) t t'"
    unfolding p(2) by (rule books_step [where ms = "posted_messages e" and ws = "concat (map (replies ?a) evs)"])
      (use turn in \<open>simp_all add: p_eq\<close>)
  ultimately show ?thesis by (simp add: rough_step_ok_def)
qed

lemma rough_read_event:
  assumes "sets_flag sws" and "rough_ok apps (t, br)" and "talk_do sws sc apps (Deliver s n) t = Some t'"
  shows "rough_step_ok apps (Talk (Deliver s n)) (t, br) (t', br)"
proof -
  let ?line = "w_wire (p_world (t (far s)))" and ?w = "p_world (t s)" and ?c = "w_conn (p_world (t s))"
  let ?data = "take n (drop (p_taken (t s)) ?line)"
  note ok = rough_okD [OF assms(2), of s]
  from ok(2) obtain pend k j where r: "p_heard (t s) \<in> shuffles (concat (map (hears apps s) (p_done (t s)))) (replicate k On_broken)"
    "p_queue (t s) \<in> shuffles (map post_of pend) (replicate j broken_post)"
    "k + j = of_bool (m_is_broken (m_strategy ?c))"
    "fst (split_msgs (take (p_taken (t s)) ?line)) = map sent_head (p_done (t s) @ pend)"
    "proto_ok (m_strategy ?c)" "unread (m_strategy ?c) = snd (split_msgs (take (p_taken (t s)) ?line))"
    "br s = Sound \<longrightarrow> \<not> m_is_broken (m_strategy ?c)"
    unfolding rough_reader_def by blast
  from assms(3) obtain w where w: "happen sws sc (Received False ?data) ?w = Some w" "p_taken (t s) + n \<le> length ?line"
    "t' = t(s := (t s)\<lparr>p_world := w, p_queue := p_queue (t s) @ filter is_post (new_events ?w w), p_taken := p_taken (t s) + n\<rparr>)"
    (is "_ = t(s := ?p)")
    by (auto simp: peer_read_def peer_happen_def bind_eq_Some_conv split: if_splits)
  obtain more rest where more: "split_msgs (unread (m_strategy ?c) @ ?data) = (more, rest)" by fastforce
  have "take (p_taken (t s) + n) ?line = take (p_taken (t s)) ?line @ ?data" by (rule take_add)
  then have whole: "split_msgs (take (p_taken (t s) + n) ?line) = (map sent_head (p_done (t s) @ pend) @ more, rest)"
    using split_msgs_append [of "take (p_taken (t s)) ?line" ?data] r(4,6) more by (simp add: split_beta)
  have "rough_sender (next_line (br s) (Received False ?data) ?w) ?p"
    using rough_sender_step [OF assms(1) ok(1), of sc "Received False ?data" ?p "[]"] w(1)
    by (simp add: client_data_def)
  moreover have "next_line (br s) (Received False ?data) ?w = br s" by (rule next_line_steady) (simp_all add: breaks_def)
  ultimately have sends: "rough_sender (br s) ?p" by simp
  have "list_all sendable (p_sent (t (far s)))" "prefix (take (p_taken (t s) + n) ?line) (stream_of (p_sent (t (far s))))"
    using rough_okD(1) [OF assms(2), of "far s"] take_is_prefix prefix_order.trans by (auto simp: rough_sender_def) blast+
  from split_msgs_prefix [OF this] whole obtain ms where "map sent_head (p_done (t s) @ pend) @ more = map sent_head ms"
    by (metis fst_conv)
  then obtain new where new: "more = map sent_head new" by (auto simp: append_eq_map_conv)
  have read: "w_posted w = w_posted ?w @ events_of (conn_view_of ?c) more" "proto_ok (m_strategy (w_conn w))"
    "unread (m_strategy (w_conn w)) = rest" "m_is_broken (m_strategy (w_conn w)) = m_is_broken (m_strategy ?c)"
    using on_read_splits [OF r(5), of "conn_view_of ?c" ?data] w(1) more
    by (auto simp: happen_def read_complete_i_def bind_eq_Some_conv absorb_strategy strategy_event_def async_read_def
        split: if_splits)
  have "p_queue (t s) @ map post_of new \<in> shuffles (map post_of pend @ map post_of new) (replicate j broken_post @ [])"
    by (rule shuffles_append [OF r(2)]) simp
  then have "p_queue ?p \<in> shuffles (map post_of (pend @ new)) (replicate j broken_post)"
    using read(1) new by (simp add: new_events_def posts_of_sent)
  then have "rough_reader (hears apps s) (br s) ?line ?p"
    unfolding rough_reader_def using r w(2) whole new read(2-4)
    by (intro conjI exI [of _ "pend @ new"] exI [of _ k] exI [of _ j]) simp_all
  from rough_step [OF assms(2) sends this] happen_wire [OF w(1)] have "rough_ok apps (t', br)" by (simp add: w(3))
  then show ?thesis by (simp add: rough_step_ok_def w(3) books_quiet)
qed

lemma rough_do_ok:
  assumes "sets_flag sws" and "reports_close sc" and "\<forall>s f m. list_all sendable (app_sends (apps s) f m)"
    and "rough_ok apps (t, br)" and "\<forall>s. list_all sendable (rough_calls s [ev])"
    and "rough_do sws sc apps ev (t, br) = Some r"
  shows "rough_step_ok apps ev (t, br) r"
proof -
  note event = rough_happen_event [OF assms(1,2,4)]
  show ?thesis
  proof (cases ev)
    case (Talk tev)
    show ?thesis
    proof (cases tev)
      case (Call s m)
      with assms(5) Talk have "sendable m" by (auto dest: spec [of _ s])
      from rough_call_event [OF assms(1,4) this] Talk Call assms(6) show ?thesis by (auto simp: bind_eq_Some_conv)
    next
      case (Io s)
      have "steady (p_world (t s)) w"
        if io: "\<not> breaks Run_task (p_world (t s))" "happen sws sc Run_task (p_world (t s)) = Some w" for w
      proof -
        from io obtain data ts where "w_tasks (p_world (t s)) = Sync_write data # ts"
          by (auto simp: breaks_code happen_def split: list.splits conn_task.splits)
        from write_task_steady [OF assms(1) this io(2)] show ?thesis .
      qed
      with event [of s Run_task r ev] Talk Io assms(6) show ?thesis by (simp add: client_data_def)
    next
      case (Flushed s)
      with Talk assms(6) obtain n where "rough_happen sws sc s (Written False n) (t, br) = Some r"
        by (auto split: list.splits)
      from event [OF this, of ev] write_steady [OF assms(1)] Talk Flushed show ?thesis by (simp add: client_data_def)
    next
      case (Deliver s n)
      with rough_read_event [OF assms(1,4)] Talk assms(6) show ?thesis by (auto simp: bind_eq_Some_conv simp del: talk_do.simps)
    next
      case (Turn s)
      with rough_turn_event [OF assms(3,4)] Talk assms(6) show ?thesis by (auto simp: bind_eq_Some_conv simp del: talk_do.simps)
    qed
  next
    case (Hang s type)
    have "steady (p_world (t s)) w" if "happen sws sc (Client_close type) (p_world (t s)) = Some w" for w
      using that by (auto simp: happen_def close_conn_def steady_def)
    with event [of s "Client_close type" r ev] Hang assms(6) show ?thesis by (simp add: client_data_def)
  next
    case (Write_fails s n)
    with event [of s "Written True n" r ev] assms(6) show ?thesis by (simp add: breaks_def client_data_def)
  next
    case (Read_fails s)
    with event [of s "Received True []" r ev] assms(6) show ?thesis by (simp add: breaks_def client_data_def)
  qed
qed

section \<open>Conversations that fail anywhere\<close>

lemma rough_calls_Cons: "rough_calls s (ev # evs) = rough_calls s [ev] @ rough_calls s evs"
  by (cases ev) simp_all

lemma rough_run_ok:
  assumes "sets_flag sws" and "reports_close sc" and "\<forall>s f m. list_all sendable (app_sends (apps s) f m)"
    and "rough_ok apps r" and "\<forall>s. list_all sendable (rough_calls s evs)" and "rough_run sws sc apps evs r = Some r'"
  shows "rough_ok apps r' \<and> books apps (\<lambda>s. rough_calls s evs) (fst r) (fst r')"
  using assms(4-6)
proof (induction evs arbitrary: r)
  case (Cons ev evs)
  obtain t br where r: "r = (t, br)" by (cases r)
  from Cons.prems(3) obtain u where u: "rough_do sws sc apps ev (t, br) = Some u" "rough_run sws sc apps evs u = Some r'"
    by (auto simp: bind_eq_Some_conv r)
  have sendable: "\<forall>s. list_all sendable (rough_calls s [ev])" "\<forall>s. list_all sendable (rough_calls s evs)"
    using Cons.prems(2) unfolding rough_calls_Cons [of _ ev evs] list_all_append by blast+
  note step = rough_do_ok [OF assms(1-3) Cons.prems(1) [unfolded r] sendable(1) u(1), unfolded rough_step_ok_def]
  note IH = Cons.IH [OF step [THEN conjunct1] sendable(2) u(2)]
  have "books apps (\<lambda>s. rough_calls s (ev # evs)) t (fst r')"
    by (rule books_trans [of apps "\<lambda>s. rough_calls s [ev]" t "fst u" "\<lambda>s. rough_calls s evs"])
      (use step IH in \<open>auto simp: rough_calls_Cons [of _ ev evs]\<close>)
  with IH show ?case by (simp add: r)
qed (simp add: books_def)

lemma start_not_broken:
  assumes "start_talk resolved fails um = Some t"
  shows "\<not> m_is_broken (m_strategy (w_conn (p_world (t s))))"
proof -
  from assms obtain w where w: "connected_world resolved fails = Some w"
    "t = case_side (new_peer w) (new_peer (accepted_world um init_proto))" by (auto simp: start_talk_def bind_eq_Some_conv)
  then have "m_strategy (w_conn w) = init_proto"
    by (auto simp: connected_world_def sync_connect_def init_conn_def absorb_conn split: option.splits sum.splits prod.splits if_splits)
  then show ?thesis using w(2)
    by (cases s) (simp_all add: new_peer_def init_proto_def world_defs absorb_conn reset_def)
qed

lemma rough_start:
  assumes "start_talk resolved fails um = Some t"
  shows "rough_ok apps (t, \<lambda>_. Sound)"
proof -
  have ok: "talk_ok apps (\<lambda>_ _. True) t" and none: "p_done (t s) = [] \<and> p_sent (t s) = []" for s
    using start_ok [OF assms] by blast+
  have "rough_sender Sound (t s) \<and> rough_reader (hears apps s) Sound (w_wire (p_world (t (far s)))) (t s)" for s
  proof -
    note sender = talk_okD(1) [OF ok, of s] and reader = talk_okD(2) [OF ok, of s]
    then have w: "conn_ok (p_world (t s))" "accepted_bytes (p_world (t s)) = []" using none by (simp_all add: sender_ok_def)
    then have "rough_sender Sound (t s)" using none
      by (simp add: rough_sender_def wire_ok_def conn_ok_def writing_ok_def accepted_bytes_def Let_def)
    moreover from reader obtain pend where "p_taken (t s) \<le> length (w_wire (p_world (t (far s))))"
      "p_heard (t s) = concat (map (hears apps s) (p_done (t s)))" "p_queue (t s) = map post_of pend"
      "split_msgs (take (p_taken (t s)) (w_wire (p_world (t (far s)))))
         = (map sent_head (p_done (t s) @ pend), unread (m_strategy (w_conn (p_world (t s)))))"
      unfolding reader_ok_def by blast
    then have "rough_reader (hears apps s) Sound (w_wire (p_world (t (far s)))) (t s)"
      using w(1) start_not_broken [OF assms, of s] unfolding rough_reader_def conn_ok_def
      by (intro conjI exI [of _ pend] exI [of _ 0]) simp_all
    ultimately show ?thesis by blast
  qed
  then show ?thesis by (simp add: rough_ok_def)
qed

text \<open>C4: Whatever fails: at any point of a conversation in which clients and methods close connections and writes and reads fail,
  on one end or both, and reads complete even after their own end has broken off, what an end has handled is a prefix
  of what the other has sent; what it has sent are its clients' calls and the answers to what it has handled, each in
  order and once; and what it hears besides is at most one report that the connection is broken, at any point among
  the messages, and only on an end that has broken off. Messages can be sent (of 1 to \<open>2 ^ 32 - 1\<close> bytes); \<open>set_write_state\<close> sets the
  flag, and \<open>sync_close_i\<close> does no more with its strategy than to call \<open>on_closed\<close>. Of TCP it is used that an end that
  has broken off puts no more on the wire than a part of the write then under way.\<close>

theorem conversation_survives_failures:
  assumes "sets_flag sws" and "reports_close sc" and "\<forall>s f m. list_all sendable (app_sends (apps s) f m)"
    and "start_talk resolved fails um = Some t0" and "\<forall>s. list_all sendable (rough_calls s evs)"
    and "rough_run sws sc apps evs (t0, \<lambda>_. Sound) = Some (t, br)"
  shows "prefix (p_done (t s)) (p_sent (t (far s)))
    \<and> p_sent (t s) \<in> shuffles (rough_calls s evs) (concat (map (answers apps s) (p_done (t s))))
    \<and> (\<exists>k. p_heard (t s) \<in> shuffles (concat (map (hears apps s) (p_done (t s)))) (replicate k On_broken)
          \<and> k \<le> 1 \<and> (br s = Sound \<longrightarrow> k = 0))"
proof -
  note run = rough_run_ok [OF assms(1-3) rough_start [OF assms(4)] assms(5,6)]
  note ok = rough_okD [OF run [THEN conjunct1]]
  from ok(2) [of s] obtain pend k j where
    k: "p_heard (t s) \<in> shuffles (concat (map (hears apps s) (p_done (t s)))) (replicate k On_broken)"
      "k + j = of_bool (m_is_broken (m_strategy (w_conn (p_world (t s)))))"
      "br s = Sound \<longrightarrow> \<not> m_is_broken (m_strategy (w_conn (p_world (t s))))"
    and r: "fst (split_msgs (take (p_taken (t s)) (w_wire (p_world (t (far s)))))) = map sent_head (p_done (t s) @ pend)"
    unfolding rough_reader_def by blast
  from rough_prefix [OF ok(1) r] have "prefix (p_done (t s)) (p_sent (t (far s)))" by (rule append_prefixD)
  moreover have "p_sent (t s) \<in> shuffles (rough_calls s evs) (concat (map (answers apps s) (p_done (t s))))"
    using books_from_start [OF run [THEN conjunct2, unfolded fst_conv], of s] start_ok [OF assms(4), where s = s] by simp
  moreover have "k \<le> 1 \<and> (br s = Sound \<longrightarrow> k = 0)" using k(2,3) by (cases "m_is_broken (m_strategy (w_conn (p_world (t s))))") auto
  ultimately show ?thesis using k(1) by blast
qed

section \<open>Instances\<close>

text \<open>A conversation in which nothing fails is one of these.\<close>

lemma rough_talk:
  assumes "sets_flag sws" and "understood apps speaks" and "talk_ok apps speaks t"
    and "\<forall>s. list_all (speaks s) (calls_of s evs)" and "talk_run sws sc apps evs t = Some t'"
  shows "rough_run sws sc apps (map Talk evs) (t, \<lambda>_. Sound) = Some (t', \<lambda>_. Sound)"
  using assms(3-5)
proof (induction evs arbitrary: t)
  case (Cons ev evs)
  from Cons.prems(3) obtain u where u: "talk_do sws sc apps ev t = Some u" "talk_run sws sc apps evs u = Some t'"
    by (auto simp: bind_eq_Some_conv)
  have says: "\<forall>s. list_all (speaks s) (calls_of s [ev])" "\<forall>s. list_all (speaks s) (calls_of s evs)"
    using Cons.prems(2) unfolding calls_of_Cons [of _ ev evs] list_all_append by blast+
  have "talk_ok apps speaks u"
    using talk_do_ok [OF assms(1,2) Cons.prems(1) says(1) u(1)] by (simp add: step_ok_def)
  note rest = Cons.IH [OF this says(2) u(2)]
  have "\<not> breaks Run_task (p_world (t s))" "\<not> breaks (Written False n) (p_world (t s))" for s n
    using talk_okD(1) [OF Cons.prems(1), of s]
    by (auto simp: sender_ok_def conn_ok_def writing_ok_def breaks_def)
  then have "rough_do sws sc apps (Talk ev) (t, \<lambda>_. Sound) = Some (u, \<lambda>_. Sound)"
    using u(1) by (cases ev) (auto simp: rough_happen_def fun_upd_idem bind_eq_Some_conv split: list.splits)
  with rest show ?case by simp
qed simp

lemma tell_close_reports: "reports_close tell_close"
  by (auto simp: reports_close_def tell_close_def on_closed_def post_broken_msg_i_def strategy_event_def async_read_def
      Let_def)

text \<open>The accepting end acknowledges every request with the message 5.\<close>

definition ack_apps :: "side \<Rightarrow> (bytes, string) app" where
  "ack_apps s = (echo_apps s)\<lparr>app_sends := case_side (\<lambda>_ _. []) (\<lambda>_ _. [(5, [1])]) s\<rparr>"

lemma ack_sendable: "\<forall>s f m. list_all sendable (app_sends (ack_apps s) f m)"
  by (simp add: ack_apps_def sendable_def split: side.split)

text \<open>Two requests are called and one is sent; the accepting end is closed, and then a read completes there with the
  request: the broken connection is heard of first. The acknowledgement is never sent, and the reading of the
  connecting end fails.\<close>

definition torn_off :: "rough_event list" where
  "torn_off = [Talk (Call Connecting (4, [7])), Talk (Call Connecting (4, [8, 9])), Talk (Io Connecting),
     Talk (Flushed Connecting), Hang Accepting RPC_CLOSE, Talk (Io Accepting), Talk (Deliver Accepting 9),
     Talk (Turn Accepting), Talk (Turn Accepting), Read_fails Connecting]"

lemma torn_off_calls: "\<forall>s. list_all sendable (rough_calls s torn_off)" "rough_calls Connecting torn_off = [(4, [7]), (4, [8, 9])]"
  by (simp_all add: torn_off_def sendable_def)

lemma torn_off_run: "\<exists>t br. rough_run put_flag tell_close ack_apps torn_off (echo_start, \<lambda>_. Sound) = Some (t, br)
    \<and> br Connecting = Torn \<and> br Accepting = Torn \<and> p_done (t Accepting) = [(4, [7])]
    \<and> p_heard (t Accepting) = [On_broken, Invoke ''on_request'' [7]]"
proof -
  have "case rough_run put_flag tell_close ack_apps torn_off (echo_start, \<lambda>_. Sound) of None \<Rightarrow> False
    | Some (t, br) \<Rightarrow> br Connecting = Torn \<and> br Accepting = Torn \<and> p_done (t Accepting) = [(4, [7])]
        \<and> p_heard (t Accepting) = [On_broken, Invoke ''on_request'' [7]]"
    by code_simp
  then show ?thesis by (auto split: option.splits)
qed

theorem conversation_survives_failures_witness:
  "\<exists>t br. rough_run put_flag tell_close ack_apps torn_off (echo_start, \<lambda>_. Sound) = Some (t, br)
    \<and> br Connecting = Torn \<and> br Accepting = Torn \<and> p_heard (t Accepting) = [On_broken, Invoke ''on_request'' [7]]
    \<and> prefix (p_done (t Accepting)) (p_sent (t Connecting))
    \<and> p_sent (t Connecting) \<in> shuffles [(4, [7]), (4, [8, 9])] (concat (map (answers ack_apps Connecting) (p_done (t Connecting))))"
proof -
  obtain t br where run: "rough_run put_flag tell_close ack_apps torn_off (echo_start, \<lambda>_. Sound) = Some (t, br)"
    "br Connecting = Torn" "br Accepting = Torn" "p_heard (t Accepting) = [On_broken, Invoke ''on_request'' [7]]"
    using torn_off_run by blast
  note order = conversation_survives_failures [OF put_flag_sets tell_close_reports ack_sendable echo_started torn_off_calls(1) run(1)]
  from order [of Connecting] order [of Accepting] run show ?thesis by (auto simp: torn_off_calls(2))
qed

end
