(* ===== verification/LogImpl.thy ===== *)
theory LogImpl
  imports NbPrelude
begin

text \<open>
  The logger, \<open>log_t\<close> of mylib/log/log\_impl.h and log\_impl.cpp, with \<open>init_log\<close> and the
  macros of log.h and log.cpp.

  The file system is a set of directories and a map of files; which \<open>mkdir\<close> and \<open>open\<close> succeed
  are arguments. The text of a message is the result of its \<open>printf\<close> arguments. File writing is a
  task for the worker thread; the tasks posted and not yet run are \<open>work_queue\<close>. \<open>None\<close> is
  undefined behaviour: a C buffer overrun, an \<open>int\<close> overflow, a shift out of range.
\<close>

unbundle bit_operations_syntax

section \<open>Levels\<close>

datatype log_level = LF_FATAL | LF_ERROR | LF_WARN | LF_INFO | LF_TRACE | LF_DEBUG

fun level_no :: "log_level \<Rightarrow> nat" where
  "level_no LF_FATAL = 0"
| "level_no LF_ERROR = 1"
| "level_no LF_WARN = 2"
| "level_no LF_INFO = 3"
| "level_no LF_TRACE = 4"
| "level_no LF_DEBUG = 5"

definition ALL_LOG_LEVEL :: nat where
  "ALL_LOG_LEVEL = 6"

instantiation log_level :: linorder
begin

definition less_eq_log_level :: "log_level \<Rightarrow> log_level \<Rightarrow> bool" where
  "less_eq_log_level a b \<longleftrightarrow> level_no a \<le> level_no b"

definition less_log_level :: "log_level \<Rightarrow> log_level \<Rightarrow> bool" where
  "less_log_level a b \<longleftrightarrow> level_no a < level_no b"

instance
proof
  fix a b :: log_level
  show "a \<le> b \<Longrightarrow> b \<le> a \<Longrightarrow> a = b"
    by (cases a; cases b) (simp_all add: less_eq_log_level_def)
qed (auto simp: less_eq_log_level_def less_log_level_def)

end

lemma level_no_bound: "level_no l < ALL_LOG_LEVEL"
  by (cases l) (simp_all add: ALL_LOG_LEVEL_def)

text \<open>\<open>1 << x\<close> in \<open>int\<close>.\<close>

definition LOG_FLAG :: "int \<Rightarrow> int option" where
  "LOG_FLAG x = (if 0 \<le> x \<and> x < 31 then Some (2 ^ nat x) else None)"

text \<open>The macros that reach the logger, by the compile-time flags.\<close>

definition macro_enabled :: "bool \<Rightarrow> bool \<Rightarrow> log_level \<Rightarrow> bool" where
  "macro_enabled DEBUG_LOG ENABLE_TARCE l = (case l of
      LF_FATAL \<Rightarrow> True | LF_ERROR \<Rightarrow> True
    | LF_WARN \<Rightarrow> DEBUG_LOG | LF_INFO \<Rightarrow> DEBUG_LOG | LF_DEBUG \<Rightarrow> DEBUG_LOG
    | LF_TRACE \<Rightarrow> ENABLE_TARCE)"

section \<open>Strings\<close>

fun digits :: "nat \<Rightarrow> string" where
  "digits n = (if n < 10 then [char_of (48 + n)] else digits (n div 10) @ [char_of (48 + n mod 10)])"

declare digits.simps [simp del]

definition decimal :: "int \<Rightarrow> string" where
  "decimal i = (if i < 0 then ''-'' @ digits (nat (- i)) else digits (nat i))"

definition zero_pad :: "nat \<Rightarrow> string \<Rightarrow> string" where
  "zero_pad n s = replicate (n - length s) (CHR ''0'') @ s"

definition pad_right :: "nat \<Rightarrow> string \<Rightarrow> string" where
  "pad_right n s = s @ replicate (n - length s) (CHR '' '')"

section \<open>Files\<close>

record file_system =
  dirs :: "string set"
  files :: "string \<rightharpoonup> string"

record ostream =
  os_file :: "string option"
  os_fail :: bool

definition path_exists :: "file_system \<Rightarrow> string \<Rightarrow> bool" where
  "path_exists fs p \<longleftrightarrow> p \<in> dirs fs \<or> files fs p \<noteq> None"

definition make_dir :: "(string \<Rightarrow> bool) \<Rightarrow> string \<Rightarrow> file_system \<Rightarrow> bool \<times> file_system" where
  "make_dir ok p fs = (if path_exists fs p \<or> \<not> ok p then (False, fs) else (True, fs\<lparr>dirs := insert p (dirs fs)\<rparr>))"

definition os_open :: "(string \<Rightarrow> bool) \<Rightarrow> string \<Rightarrow> ostream \<times> file_system \<Rightarrow> ostream \<times> file_system" where
  "os_open ok p = (\<lambda>(os, fs).
     if os_file os \<noteq> None \<or> \<not> ok p then (os\<lparr>os_fail := True\<rparr>, fs)
     else (\<lparr>os_file = Some p, os_fail = False\<rparr>, fs\<lparr>files := (files fs)(p \<mapsto> [])\<rparr>))"

definition os_close_clear :: "ostream \<Rightarrow> ostream" where
  "os_close_clear os = \<lparr>os_file = None, os_fail = False\<rparr>"

definition os_write :: "string \<Rightarrow> ostream \<times> file_system \<Rightarrow> ostream \<times> file_system" where
  "os_write txt = (\<lambda>(os, fs). case os_file os of
      Some p \<Rightarrow> if os_fail os then (os, fs)
                else (os, fs\<lparr>files := (files fs)(p \<mapsto> (case files fs p of None \<Rightarrow> [] | Some c \<Rightarrow> c) @ txt)\<rparr>)
    | None \<Rightarrow> (os\<lparr>os_fail := True\<rparr>, fs))"

section \<open>State\<close>

record date_time =
  tm_year :: int
  tm_mon :: int
  tm_mday :: int
  tm_hour :: int
  tm_min :: int
  tm_sec :: int

record log_state =
  m_modules :: "string set"
  m_ofstream :: ostream
  work_queue :: "string list"
  has_work :: bool
  worker_runs :: bool
  io_stopped :: bool
  m_opened :: bool
  m_enable_print_screen :: bool
  m_enable_write_file :: bool
  m_path :: string
  m_filename :: string
  m_log_level :: "32 word"
  m_maxline :: int
  m_maxsize :: int
  m_cur_year :: int
  m_cur_month :: int
  m_cur_day :: int
  m_cur_sn :: int
  m_cur_size :: int
  m_cur_line :: int
  screen :: "string list"
  fs :: file_system

definition init_log_state :: "file_system \<Rightarrow> log_state" where
  "init_log_state f = \<lparr>m_modules = {}, m_ofstream = \<lparr>os_file = None, os_fail = False\<rparr>, work_queue = [],
     has_work = False, worker_runs = False, io_stopped = False, m_opened = False,
     m_enable_print_screen = False, m_enable_write_file = False, m_path = [], m_filename = [],
     m_log_level = 0, m_maxline = 50000, m_maxsize = 102400, m_cur_year = 0, m_cur_month = 0, m_cur_day = 0,
     m_cur_sn = 0, m_cur_size = 0, m_cur_line = 0, screen = [], fs = f\<rparr>"

section \<open>Configuration\<close>

definition fits :: "nat \<Rightarrow> string \<Rightarrow> string option" where
  "fits n s = (if length s < n then Some s else None)"

definition set_path :: "string \<Rightarrow> log_state \<Rightarrow> log_state option" where
  "set_path p s = do { p \<leftarrow> fits 1024 p; Some (s\<lparr>m_path := p\<rparr>) }"

definition set_filename :: "string \<Rightarrow> log_state \<Rightarrow> log_state option" where
  "set_filename p s = do { p \<leftarrow> fits 1024 p; Some (s\<lparr>m_filename := p\<rparr>) }"

definition set_maxline :: "int \<Rightarrow> log_state \<Rightarrow> log_state" where
  "set_maxline n s = s\<lparr>m_maxline := n\<rparr>"

definition set_maxsize :: "int \<Rightarrow> log_state \<Rightarrow> log_state" where
  "set_maxsize n s = s\<lparr>m_maxsize := n\<rparr>"

definition enable_log_level :: "32 word \<Rightarrow> bool \<Rightarrow> log_state \<Rightarrow> log_state" where
  "enable_log_level level enable s =
     (if enable
      then let s = (if level = 64 then s\<lparr>m_log_level := NOT 0\<rparr> else s)
           in s\<lparr>m_log_level := m_log_level s OR level\<rparr>
      else let s = (if level = 64 then s\<lparr>m_log_level := 0\<rparr> else s)
           in s\<lparr>m_log_level := m_log_level s AND NOT level\<rparr>)"

definition enable_module :: "string \<Rightarrow> bool \<Rightarrow> log_state \<Rightarrow> log_state" where
  "enable_module m enable s =
     (if enable then s\<lparr>m_modules := insert m (m_modules s)\<rparr> else s\<lparr>m_modules := m_modules s - {m}\<rparr>)"

definition enable_print_screen :: "bool \<Rightarrow> log_state \<Rightarrow> log_state" where
  "enable_print_screen enable s = s\<lparr>m_enable_print_screen := enable\<rparr>"

definition enable_write_file :: "bool \<Rightarrow> log_state \<Rightarrow> log_state" where
  "enable_write_file enable s = s\<lparr>m_enable_write_file := enable\<rparr>"

section \<open>Opening and closing\<close>

definition day_dir :: "log_state \<Rightarrow> string option" where
  "day_dir s = fits 1024 (m_path s @ ''/'' @ decimal (m_cur_year s + 1900) @ ''-'' @ decimal (m_cur_month s + 1)
     @ ''-'' @ decimal (m_cur_day s))"

definition log_file :: "log_state \<Rightarrow> int \<Rightarrow> string option" where
  "log_file s sn = fits 1024 (m_path s @ ''/'' @ decimal (m_cur_year s + 1900) @ ''-'' @ decimal (m_cur_month s + 1)
     @ ''-'' @ decimal (m_cur_day s) @ ''/'' @ m_filename s @ ''.'' @ decimal sn)"

text \<open>The loop that looks for the first number no file has.\<close>

partial_function (option) free_sn :: "log_state \<Rightarrow> int \<Rightarrow> (int \<times> string) option" where [code]:
  "free_sn s sn = do {
     file \<leftarrow> log_file s sn;
     if path_exists (fs s) file
     then (if sn + 1 < 2 ^ 31 then free_sn s (sn + 1) else None)
     else Some (sn, file)
   }"

text \<open>The directories that are made on the way, \<open>None\<close> when one cannot be.\<close>

definition ensure_dir :: "(string \<Rightarrow> bool) \<Rightarrow> string \<Rightarrow> file_system \<Rightarrow> file_system option" where
  "ensure_dir mk p f = (if path_exists f p then Some f
     else let (ok, f) = make_dir mk p f in if ok then Some f else None)"

definition open_file_thread :: "(string \<Rightarrow> bool) \<Rightarrow> (string \<Rightarrow> bool) \<Rightarrow> log_state
    \<Rightarrow> (int \<times> log_state) option" where
  "open_file_thread mk op s =
     (case ensure_dir mk (m_path s) (fs s) of
        None \<Rightarrow> Some (-1, s)
      | Some f \<Rightarrow> do {
          d \<leftarrow> day_dir s;
          case ensure_dir mk d f of
            None \<Rightarrow> Some (-1, s\<lparr>fs := f\<rparr>)
          | Some f \<Rightarrow> do {
              (sn, file) \<leftarrow> free_sn (s\<lparr>fs := f\<rparr>) (m_cur_sn s);
              let (os, f) = os_open op file (m_ofstream s, f);
              Some (0, s\<lparr>m_cur_sn := sn, m_ofstream := os, fs := f, has_work := True,
                         worker_runs := \<not> io_stopped s\<rparr>)
            }
        })"

definition open_log :: "(string \<Rightarrow> bool) \<Rightarrow> (string \<Rightarrow> bool) \<Rightarrow> date_time \<Rightarrow> log_state
    \<Rightarrow> (int \<times> log_state) option" where
  "open_log mk op now s =
     (if m_opened s then Some (0, s)
      else let s = s\<lparr>m_cur_year := tm_year now, m_cur_month := tm_mon now, m_cur_day := tm_mday now,
                     m_cur_sn := 0, m_cur_line := 0, m_cur_size := 0\<rparr>
           in do {
             (ret, s) \<leftarrow> (if m_enable_write_file s then open_file_thread mk op s else Some (0, s));
             Some (ret, s\<lparr>m_opened := True\<rparr>)
           })"

text \<open>\<open>close\<close> up to the join, and from it.\<close>

definition close_begin :: "log_state \<Rightarrow> log_state" where
  "close_begin s = (if \<not> m_opened s then s else s\<lparr>m_opened := False, m_modules := {}, has_work := False\<rparr>)"

definition close_end :: "log_state \<Rightarrow> log_state option" where
  "close_end s = (if worker_runs s then None else Some s)"

section \<open>Logging\<close>

definition MAX_LOG_LINE :: nat where
  "MAX_LOG_LINE = 102400"

definition check_module :: "string \<Rightarrow> log_state \<Rightarrow> int" where
  "check_module module s = (if module \<in> m_modules s then 0 else -1)"

definition check_log_level :: "log_level \<Rightarrow> log_state \<Rightarrow> int option" where
  "check_log_level l s = do { f \<leftarrow> LOG_FLAG (int (level_no l)); Some (sint (m_log_level s AND word_of_int f)) }"

fun level_desp :: "log_level \<Rightarrow> string" where
  "level_desp LF_FATAL = ''FATAL''"
| "level_desp LF_ERROR = ''ERROR''"
| "level_desp LF_WARN = ''WARN ''"
| "level_desp LF_INFO = ''INFO ''"
| "level_desp LF_TRACE = ''TRACE''"
| "level_desp LF_DEBUG = ''DEBUG''"

definition format_log_head :: "date_time \<Rightarrow> int \<Rightarrow> int \<Rightarrow> string \<Rightarrow> log_level \<Rightarrow> string" where
  "format_log_head t usec tid module l =
     zero_pad 4 (decimal (tm_year t + 1900)) @ zero_pad 2 (decimal (tm_mon t + 1)) @ zero_pad 2 (decimal (tm_mday t))
     @ '' '' @ zero_pad 2 (decimal (tm_hour t)) @ '':'' @ zero_pad 2 (decimal (tm_min t)) @ '':''
     @ zero_pad 2 (decimal (tm_sec t)) @ ''.'' @ zero_pad 6 (decimal usec) @ '' '' @ level_desp l
     @ '' ['' @ decimal tid @ ''] ['' @ pad_right 15 module @ '']:''"

text \<open>The line as it is put together in the buffer: \<open>vsnprintf\<close> writes at most
  \<open>MAX_LOG_LINE - len - 3\<close> characters, then the newline is appended.\<close>

definition log_line :: "string \<Rightarrow> string \<Rightarrow> string option" where
  "log_line head msg = (if MAX_LOG_LINE < length head + 3 then None
     else Some (head @ take (MAX_LOG_LINE - length head - 3) msg @ [char_of (10 :: nat)]))"

definition log :: "date_time \<Rightarrow> int \<Rightarrow> int \<Rightarrow> string \<Rightarrow> log_level \<Rightarrow> string \<Rightarrow> string \<Rightarrow> string
    \<Rightarrow> log_state \<Rightarrow> (int \<times> log_state) option" where
  "log now usec tid module l msg begin_color end_color s =
     (let ret = check_module module s in
      if ret \<noteq> 0 then Some (ret, s)
      else do {
        ret \<leftarrow> check_log_level l s;
        if ret \<noteq> 0 then Some (ret, s)
        else do {
          txt \<leftarrow> log_line (format_log_head now usec tid module l) msg;
          let s = (if m_enable_write_file s then s\<lparr>work_queue := work_queue s @ [txt]\<rparr> else s);
          let s = (if m_enable_print_screen s
                   then s\<lparr>screen := screen s @ [begin_color @ txt @ end_color]\<rparr> else s);
          Some (ret, s)
        }
      })"

definition esc :: "string \<Rightarrow> string" where
  "esc c = char_of (27 :: nat) # c"

fun colors :: "log_level \<Rightarrow> string \<times> string" where
  "colors LF_FATAL = (esc ''[0;35m'', esc ''[0m'')"
| "colors LF_ERROR = (esc ''[0;31m'', esc ''[0m'')"
| "colors LF_WARN = (esc ''[1;33m'', esc ''[0m'')"
| "colors LF_INFO = (esc ''[1;33m'', esc ''[0m'')"
| "colors LF_TRACE = ([], [])"
| "colors LF_DEBUG = (esc ''[1;33m'', esc ''[0m'')"

text \<open>The six functions \<open>_logfatal\<close> to \<open>_logdebug\<close>.\<close>

definition log_at :: "log_level \<Rightarrow> date_time \<Rightarrow> int \<Rightarrow> int \<Rightarrow> string \<Rightarrow> string \<Rightarrow> log_state
    \<Rightarrow> log_state option" where
  "log_at l now usec tid module msg s =
     (if \<not> m_opened s then Some s
      else map_option snd (log now usec tid module l msg (fst (colors l)) (snd (colors l)) s))"

section \<open>The worker\<close>

text \<open>\<open>int\<close> addition, undefined on overflow.\<close>

definition add_int :: "int \<Rightarrow> int \<Rightarrow> int option" where
  "add_int a b = (if a + b < 2 ^ 31 then Some (a + b) else None)"

definition handle_write_file :: "(string \<Rightarrow> bool) \<Rightarrow> (string \<Rightarrow> bool) \<Rightarrow> date_time \<Rightarrow> string \<Rightarrow> log_state
    \<Rightarrow> log_state option" where
  "handle_write_file mk op now txt s = do {
     s \<leftarrow> (if tm_year now \<noteq> m_cur_year s \<or> tm_mon now \<noteq> m_cur_month s \<or> tm_mday now \<noteq> m_cur_day s
           then do {
             let s = s\<lparr>m_ofstream := os_close_clear (m_ofstream s), m_cur_year := tm_year now,
                       m_cur_month := tm_mon now, m_cur_day := tm_mday now, m_cur_sn := 0,
                       m_cur_line := 0, m_cur_size := 0\<rparr>;
             d \<leftarrow> day_dir s;
             let (_, f) = make_dir mk d (fs s);
             file \<leftarrow> log_file s (m_cur_sn s);
             let (os, f) = os_open op file (m_ofstream s, f);
             Some (s\<lparr>m_ofstream := os, fs := f\<rparr>)
           } else Some s);
     let (os, f) = os_write txt (m_ofstream s, fs s);
     let s = s\<lparr>m_ofstream := os, fs := f\<rparr>;
     s \<leftarrow> (if m_cur_line s \<ge> m_maxline s \<or> m_cur_size s \<ge> m_maxsize s
           then do {
             let s = s\<lparr>m_ofstream := os_close_clear (m_ofstream s)\<rparr>;
             sn \<leftarrow> add_int (m_cur_sn s) 1;
             let s = s\<lparr>m_cur_sn := sn, m_cur_size := 0, m_cur_line := 0\<rparr>;
             file \<leftarrow> log_file s (m_cur_sn s);
             let (os, f) = os_open op file (m_ofstream s, fs s);
             Some (s\<lparr>m_ofstream := os, fs := f\<rparr>)
           } else Some s);
     size \<leftarrow> add_int (m_cur_size s) (int (length txt));
     line \<leftarrow> add_int (m_cur_line s) 1;
     Some (s\<lparr>m_cur_size := size, m_cur_line := line\<rparr>)
   }"

text \<open>A turn of the worker: the oldest task, or the end of \<open>run\<close> when there is neither task nor
  work, after which the io service is stopped.\<close>

definition worker_turn :: "(string \<Rightarrow> bool) \<Rightarrow> (string \<Rightarrow> bool) \<Rightarrow> date_time \<Rightarrow> log_state
    \<Rightarrow> log_state option" where
  "worker_turn mk op now s =
     (if \<not> worker_runs s then None
      else case work_queue s of
        txt # q \<Rightarrow> handle_write_file mk op now txt (s\<lparr>work_queue := q\<rparr>)
      | [] \<Rightarrow> if has_work s then None else Some (s\<lparr>worker_runs := False, io_stopped := True\<rparr>))"

section \<open>Setting up\<close>

definition init_log :: "(string \<Rightarrow> bool) \<Rightarrow> (string \<Rightarrow> bool) \<Rightarrow> date_time \<Rightarrow> string \<Rightarrow> string \<Rightarrow> bool \<Rightarrow> bool
    \<Rightarrow> int \<Rightarrow> string list \<Rightarrow> int \<Rightarrow> int \<Rightarrow> log_state \<Rightarrow> (int \<times> log_state) option" where
  "init_log mk op now path filename flag_print_screen flag_write_file level modules max_size max_line s = do {
     s \<leftarrow> set_path path s;
     s \<leftarrow> set_filename filename s;
     let s = set_maxline max_line s;
     let s = set_maxsize max_size s;
     flag \<leftarrow> LOG_FLAG (level + 1);
     let s = enable_log_level (word_of_int (flag - 1)) True s;
     let s = (if flag_write_file then enable_write_file True s else s);
     let s = (if flag_print_screen then enable_print_screen True s else s);
     let s = fold (\<lambda>m. enable_module m True) modules s;
     open_log mk op now s
   }"

section \<open>Which messages are logged\<close>

lemma fold_modules:
  "fold (\<lambda>m. enable_module m True) ms s = s\<lparr>m_modules := m_modules s \<union> set ms\<rparr>"
  by (induction ms arbitrary: s) (auto simp: enable_module_def)

text \<open>The flags of a level and the more severe ones.\<close>

definition flags_upto :: "log_level \<Rightarrow> 32 word" where
  "flags_upto L = word_of_int (2 ^ Suc (level_no L) - 1)"

lemma level_mask:
  "m_log_level s = flags_upto L \<Longrightarrow> \<exists>v. check_log_level l s = Some v \<and> (v \<noteq> 0 \<longleftrightarrow> l \<le> L)"
  by (cases L; cases l) (auto simp: check_log_level_def LOG_FLAG_def less_eq_log_level_def flags_upto_def)

lemma open_log_frame:
  assumes "open_log mk op now s = Some (r, s')" and "\<not> m_opened s"
  shows "m_opened s'" "m_modules s' = m_modules s" "m_log_level s' = m_log_level s"
    "m_enable_write_file s' = m_enable_write_file s" "m_enable_print_screen s' = m_enable_print_screen s"
  using assms
  by (auto simp: open_log_def open_file_thread_def Let_def bind_eq_Some_conv split_beta
      split: if_splits option.splits)

lemma init_log_state_of:
  assumes "init_log mk op now path filename scr wr (int (level_no L)) modules max_size max_line (init_log_state f)
      = Some (r, s)"
  shows "m_opened s" "m_modules s = set modules" "m_log_level s = flags_upto L"
    "m_enable_write_file s = wr" "m_enable_print_screen s = scr"
proof -
  have flag: "LOG_FLAG (int (level_no L) + 1) = Some (2 ^ Suc (level_no L))"
    by (cases L) (simp_all add: LOG_FLAG_def)
  have "flags_upto L \<noteq> 64" by (cases L) (simp_all add: flags_upto_def)
  then have set: "enable_log_level (flags_upto L) True t = t\<lparr>m_log_level := m_log_level t OR flags_upto L\<rparr>" for t
    by (simp add: enable_log_level_def)
  have mask: "(2 ^ Suc (level_no L) - 1 :: 32 word) = flags_upto L"
    by (simp add: flags_upto_def del: power_Suc)
  obtain s0 where s0: "open_log mk op now s0 = Some (r, s)" "\<not> m_opened s0"
    "m_modules s0 = set modules" "m_log_level s0 = flags_upto L"
    "m_enable_write_file s0 = wr" "m_enable_print_screen s0 = scr"
    using assms unfolding init_log_def flag
    by (cases wr; cases scr)
      (auto simp: set_path_def set_filename_def set_maxline_def set_maxsize_def set
        enable_write_file_def enable_print_screen_def fold_modules init_log_state_def
        Let_def bind_eq_Some_conv mask simp del: power_Suc)
  from open_log_frame [OF s0(1,2)] s0(3-6) show "m_opened s" "m_modules s = set modules"
    "m_log_level s = flags_upto L" "m_enable_write_file s = wr" "m_enable_print_screen s = scr" by simp_all
qed

text \<open>The level test is the wrong way round. After \<open>init_log\<close> with a level, which enables that
  level and the more severe ones, exactly the messages of enabled modules with a level that is
  \<^emph>\<open>less\<close> severe are logged; every message of an enabled level is dropped.\<close>

theorem enabled_levels_are_dropped:
  assumes "init_log mk op now path filename scr wr (int (level_no L)) modules max_size max_line (init_log_state f)
      = Some (r, s)"
    and "log_line (format_log_head now' usec tid module l) msg = Some txt"
  shows "log_at l now' usec tid module msg s = Some (if module \<in> set modules \<and> L < l
    then s\<lparr>work_queue := work_queue s @ (if wr then [txt] else []),
           screen := screen s @ (if scr then [fst (colors l) @ txt @ snd (colors l)] else [])\<rparr>
    else s)"
proof -
  note st = init_log_state_of [OF assms(1)]
  obtain v where "check_log_level l s = Some v" "v \<noteq> 0 \<longleftrightarrow> l \<le> L"
    using level_mask [OF st(3)] by blast
  with st assms(2) show ?thesis
    by (auto simp: log_at_def log_def check_module_def Let_def not_le)
qed

section \<open>File names\<close>

definition digits_value :: "string \<Rightarrow> nat" where
  "digits_value s = foldl (\<lambda>a c. 10 * a + (of_char c - 48)) 0 s"

lemma digits_value: "digits_value (digits n) = n"
proof (induction n rule: digits.induct)
  case (1 n)
  show ?case
  proof (cases "n < 10")
    case True
    then show ?thesis by (subst digits.simps) (simp add: digits_value_def)
  next
    case False
    with 1 show ?thesis by (subst digits.simps) (simp add: digits_value_def)
  qed
qed

lemma digits_inj: "digits m = digits n \<longleftrightarrow> m = n"
  using digits_value by metis

lemma decimal_inj: "0 \<le> i \<Longrightarrow> 0 \<le> j \<Longrightarrow> decimal i = decimal j \<longleftrightarrow> i = j"
  by (auto simp: decimal_def digits_inj)

lemma log_file_inj:
  assumes "log_file s i = Some p" and "log_file s j = Some p" and "0 \<le> i" and "0 \<le> j"
  shows "i = j"
  using assms decimal_inj [of i j] by (auto simp: log_file_def fits_def split: if_splits)

lemma free_sn_least:
  assumes "\<forall>k. i \<le> k \<and> k < j \<longrightarrow> (\<exists>p. log_file s k = Some p \<and> path_exists (fs s) p)"
    and "log_file s j = Some file" and "\<not> path_exists (fs s) file" and "i \<le> j" and "j < 2 ^ 31"
  shows "free_sn s i = Some (j, file)"
  using assms(1,4)
proof (induction "nat (j - i)" arbitrary: i)
  case 0
  with assms(2,3) show ?case by (subst free_sn.simps) simp
next
  case (Suc n)
  then obtain p where "log_file s i = Some p" "path_exists (fs s) p" by fastforce
  moreover have "free_sn s (i + 1) = Some (j, file)"
    using Suc by (intro Suc.hyps(1)) auto
  ultimately show ?case using Suc.hyps(2) assms(5) by (subst free_sn.simps) auto
qed

text \<open>The search for a log file ends: when finitely many paths exist, names fit and the numbers do
  not run out, it returns, within as many steps as there are paths, the least free number from the
  one it starts at, so a file that exists is never opened by it.\<close>

theorem free_sn_finds_least:
  assumes "finite (dirs (fs s) \<union> dom (files (fs s)))" and "card (dirs (fs s) \<union> dom (files (fs s))) = n"
    and "0 \<le> i" and "i + int n < 2 ^ 31" and "\<forall>k. i \<le> k \<and> k \<le> i + int n \<longrightarrow> log_file s k \<noteq> None"
  shows "\<exists>j fname. free_sn s i = Some (j, fname) \<and> i \<le> j \<and> j \<le> i + int n \<and> log_file s j = Some fname
    \<and> \<not> path_exists (fs s) fname
    \<and> (\<forall>k. i \<le> k \<and> k < j \<longrightarrow> (\<exists>p. log_file s k = Some p \<and> path_exists (fs s) p))"
proof -
  let ?all = "dirs (fs s) \<union> dom (files (fs s))" and ?taken = "\<lambda>k. path_exists (fs s) (the (log_file s k))"
  have "\<exists>k \<in> {i..i + int n}. \<not> ?taken k"
  proof (rule ccontr)
    assume "\<not> (\<exists>k \<in> {i..i + int n}. \<not> ?taken k)"
    then have "(\<lambda>k. the (log_file s k)) ` {i..i + int n} \<subseteq> ?all" by (auto simp: path_exists_def)
    moreover have "inj_on (\<lambda>k. the (log_file s k)) {i..i + int n}"
    proof (rule inj_onI)
      fix k l assume "k \<in> {i..i + int n}" "l \<in> {i..i + int n}" "the (log_file s k) = the (log_file s l)"
      with assms(5) obtain p where "log_file s k = Some p" "log_file s l = Some p" by fastforce
      then show "k = l" by (rule log_file_inj) (use \<open>k \<in> _\<close> \<open>l \<in> _\<close> assms(3) in auto)
    qed
    ultimately have "card {i..i + int n} \<le> card ?all"
      using assms(1) by (metis card_image card_mono)
    with assms(2) show False by simp
  qed
  then obtain k where k: "k \<in> {i..i + int n}" "\<not> ?taken k" by blast
  define m where "m = (LEAST m. \<not> ?taken (i + int m))"
  have ex: "\<not> ?taken (i + int (nat (k - i)))" using k by simp
  then have m: "\<not> ?taken (i + int m)" and le: "m \<le> nat (k - i)"
    unfolding m_def by (rule LeastI, rule Least_le)
  have below: "?taken l" if "i \<le> l" "l < i + int m" for l
    using not_less_Least [of "nat (l - i)" "\<lambda>m. \<not> ?taken (i + int m)"] that unfolding m_def [symmetric] by simp
  obtain fname where fname: "log_file s (i + int m) = Some fname" using assms(5) le k by fastforce
  have taken: "\<forall>l. i \<le> l \<and> l < i + int m \<longrightarrow> (\<exists>p. log_file s l = Some p \<and> path_exists (fs s) p)"
  proof (intro allI impI)
    fix l assume l: "i \<le> l \<and> l < i + int m"
    with assms(5) le k obtain p where "log_file s l = Some p" by fastforce
    with below l show "\<exists>p. log_file s l = Some p \<and> path_exists (fs s) p" by fastforce
  qed
  have "free_sn s i = Some (i + int m, fname)"
    by (rule free_sn_least [OF taken fname]) (use m fname le k assms(4) in auto)
  with taken fname m le k show ?thesis by auto
qed

section \<open>Rotation\<close>

fun write_all :: "(string \<Rightarrow> bool) \<Rightarrow> (string \<Rightarrow> bool) \<Rightarrow> (date_time \<times> string) list \<Rightarrow> log_state
    \<Rightarrow> log_state option" where
  "write_all mk op [] s = Some s"
| "write_all mk op ((now, txt) # ts) s = do { s \<leftarrow> handle_write_file mk op now txt s; write_all mk op ts s }"

definition same_day :: "log_state \<Rightarrow> date_time \<Rightarrow> bool" where
  "same_day s now \<longleftrightarrow> tm_year now = m_cur_year s \<and> tm_mon now = m_cur_month s \<and> tm_mday now = m_cur_day s"

text \<open>\<open>logged n0 cs c s\<close>: of the files from number \<open>n0\<close> on, the full ones hold the
  messages \<open>cs\<close>, and the one being written holds \<open>c\<close>.\<close>

definition logged :: "int \<Rightarrow> string list list \<Rightarrow> string list \<Rightarrow> log_state \<Rightarrow> bool" where
  "logged n0 cs c s \<longleftrightarrow> m_cur_sn s = n0 + int (length cs)
     \<and> m_ofstream s = \<lparr>os_file = log_file s (m_cur_sn s), os_fail = False\<rparr>
     \<and> log_file s (m_cur_sn s) \<noteq> None
     \<and> (\<forall>j \<le> length cs. \<exists>p. log_file s (n0 + int j) = Some p \<and> files (fs s) p = Some (concat ((cs @ [c]) ! j)))
     \<and> m_cur_line s = int (length c) + (if cs = [] then 0 else 1)"

definition full_lines :: "string list list \<Rightarrow> string list \<Rightarrow> int" where
  "full_lines cs c = int (length c) + (if cs = [] then 0 else 1)"

lemma log_file_cong:
  "m_path s = m_path t \<Longrightarrow> m_filename s = m_filename t \<Longrightarrow> m_cur_year s = m_cur_year t \<Longrightarrow>
    m_cur_month s = m_cur_month t \<Longrightarrow> m_cur_day s = m_cur_day t \<Longrightarrow> log_file s = log_file t"
  by (rule ext) (simp add: log_file_def)

lemma log_file_upd [simp]:
  "log_file (s\<lparr>fs := f\<rparr>) = log_file s" "log_file (s\<lparr>m_ofstream := os\<rparr>) = log_file s"
  "log_file (s\<lparr>m_cur_sn := n\<rparr>) = log_file s" "log_file (s\<lparr>m_cur_size := n\<rparr>) = log_file s"
  "log_file (s\<lparr>m_cur_line := n\<rparr>) = log_file s"
  by (rule log_file_cong; simp)+

text \<open>What a write changes, when no new day has begun and the size limit is not met.\<close>

definition names_kept :: "log_state \<Rightarrow> log_state \<Rightarrow> bool" where
  "names_kept s t \<longleftrightarrow> log_file t = log_file s \<and> m_maxline t = m_maxline s \<and> m_maxsize t = m_maxsize s
     \<and> (\<forall>now. same_day t now = same_day s now)"

lemma write_step:
  assumes "logged n0 cs c s" and "same_day s now" and "0 \<le> n0" and "0 \<le> m_cur_size s"
    and "m_cur_size s + int (length txt) < m_maxsize s" and "m_maxsize s < 2 ^ 31"
    and "m_cur_line s < 2 ^ 31 - 1" and "m_cur_sn s + 1 < 2 ^ 31" and "log_file s (m_cur_sn s + 1) \<noteq> None"
  shows "\<exists>t. handle_write_file mk (\<lambda>_. True) now txt s = Some t \<and> names_kept s t
    \<and> m_cur_size t \<le> m_cur_size s + int (length txt) \<and> 0 \<le> m_cur_size t
    \<and> (if m_maxline s \<le> full_lines cs c then logged n0 (cs @ [c @ [txt]]) [] t else logged n0 cs (c @ [txt]) t)"
proof -
  let ?sn = "m_cur_sn s"
  obtain p where p: "log_file s ?sn = Some p" using assms(1) by (auto simp: logged_def)
  obtain q where q: "log_file s (?sn + 1) = Some q" using assms(9) by blast
  have sn: "?sn = n0 + int (length cs)" using assms(1) by (simp add: logged_def)
  have os: "m_ofstream s = \<lparr>os_file = Some p, os_fail = False\<rparr>" using assms(1) p by (simp add: logged_def)
  have held: "\<forall>j \<le> length cs. \<exists>p. log_file s (n0 + int j) = Some p \<and> files (fs s) p = Some (concat ((cs @ [c]) ! j))"
    using assms(1) by (simp add: logged_def)
  then have pc: "files (fs s) p = Some (concat c)" using p sn by (metis le_refl nth_append_length option.sel)
  have line: "m_cur_line s = full_lines cs c" using assms(1) by (simp add: logged_def full_lines_def)
  let ?f1 = "(fs s)\<lparr>files := (files (fs s))(p \<mapsto> concat c @ txt)\<rparr>"
  let ?f2 = "?f1\<lparr>files := (files ?f1)(q \<mapsto> [])\<rparr>"
  have other: "r \<noteq> p" if "log_file s (n0 + int j) = Some r" "j < length cs" for r j
    using log_file_inj [of s "n0 + int j" r ?sn] that p sn assms(3) by auto
  have other2: "r \<noteq> q" if "log_file s (n0 + int j) = Some r" "j \<le> length cs" for r j
    using log_file_inj [of s "n0 + int j" r "?sn + 1"] that q sn assms(3) by auto
  let ?t = "if m_maxline s \<le> full_lines cs c
     then s\<lparr>m_ofstream := \<lparr>os_file = Some q, os_fail = False\<rparr>, fs := ?f2, m_cur_sn := ?sn + 1,
            m_cur_size := int (length txt), m_cur_line := 1\<rparr>
     else s\<lparr>fs := ?f1, m_cur_size := m_cur_size s + int (length txt), m_cur_line := m_cur_line s + 1\<rparr>"
  have run: "handle_write_file mk (\<lambda>_. True) now txt s = Some ?t"
    using assms(2,4-8) os pc line q
    by (auto simp: handle_write_file_def same_day_def os_write_def os_close_clear_def os_open_def
        add_int_def Let_def)
  have files: "\<exists>r. log_file s (n0 + int j) = Some r
      \<and> files (fs ?t) r = Some (concat ((cs @ [c @ [txt]]) ! j))" if jle: "j \<le> length cs" for j
  proof -
    obtain r where r: "log_file s (n0 + int j) = Some r" "files (fs s) r = Some (concat ((cs @ [c]) ! j))"
      using held jle by blast
    show ?thesis
    proof (cases "j < length cs")
      case True
      with r other [OF r(1)] other2 [OF r(1)] show ?thesis by (auto simp: nth_append)
    next
      case False
      with jle have j: "j = length cs" by simp
      with r(1) p sn have "r = p" by simp
      with j r(1) other2 [OF r(1)] show ?thesis by auto
    qed
  qed
  have "names_kept s ?t" by (simp add: names_kept_def same_day_def)
  moreover have "logged n0 (cs @ [c @ [txt]]) [] ?t" if "m_maxline s \<le> full_lines cs c"
  proof -
    have "\<exists>r. log_file s (n0 + int j) = Some r
        \<and> files (fs ?t) r = Some (concat (((cs @ [c @ [txt]]) @ [[]]) ! j))" if j: "j \<le> length (cs @ [c @ [txt]])" for j
    proof (cases "j \<le> length cs")
      case True
      then have "((cs @ [c @ [txt]]) @ [[]]) ! j = (cs @ [c @ [txt]]) ! j"
        by (intro nth_append_left) simp
      with files [OF True] show ?thesis by (simp only:)
    next
      case False
      with j have "j = Suc (length cs)" by simp
      with q sn \<open>m_maxline s \<le> full_lines cs c\<close> show ?thesis by (simp add: nth_append add.commute add.left_commute)
    qed
    with q sn that show ?thesis by (simp add: logged_def)
  qed
  moreover have "logged n0 cs (c @ [txt]) ?t" if "\<not> m_maxline s \<le> full_lines cs c"
    using files assms(1) that p sn by (simp add: logged_def)
  ultimately show ?thesis using run assms(4) by auto
qed

text \<open>Full files: the first has one message more than the limit, the others as many as the
  limit.\<close>

definition cut_at :: "nat \<Rightarrow> string list list \<Rightarrow> string list \<Rightarrow> bool" where
  "cut_at n cs c \<longleftrightarrow> (\<forall>j < length cs. length (cs ! j) = (if j = 0 then n + 1 else n)) \<and> full_lines cs c \<le> int n"

lemma cut_at_put:
  assumes "cut_at n cs c" and "1 \<le> n"
  shows "int n \<le> full_lines cs c \<Longrightarrow> cut_at n (cs @ [c @ [txt]]) []"
    and "\<not> int n \<le> full_lines cs c \<Longrightarrow> cut_at n cs (c @ [txt])"
  using assms by (auto simp: cut_at_def full_lines_def nth_append less_Suc_eq split: if_splits)

lemma write_all_logged:
  assumes "logged n0 cs c s" and "\<forall>(now, tx) \<in> set ts. same_day s now" and "0 \<le> n0" and "0 \<le> m_cur_size s"
    and "m_cur_size s + (\<Sum>(now, tx) \<leftarrow> ts. int (length tx)) < m_maxsize s" and "m_maxsize s < 2 ^ 31"
    and "m_maxline s = int n" and "1 \<le> n" and "n < 2 ^ 31 - 1" and "cut_at n cs c"
    and "m_cur_sn s + int (length ts) < 2 ^ 31"
    and "\<forall>k. n0 \<le> k \<and> k \<le> m_cur_sn s + int (length ts) \<longrightarrow> log_file s k \<noteq> None"
  shows "\<exists>t cs' c'. write_all mk (\<lambda>_. True) ts s = Some t \<and> logged n0 cs' c' t \<and> names_kept s t
    \<and> cut_at n cs' c' \<and> concat cs' @ c' = concat cs @ c @ map snd ts"
  using assms
proof (induction ts arbitrary: s cs c)
  case Nil
  then show ?case by (auto simp: names_kept_def)
next
  case (Cons m ts)
  obtain now tx where m: "m = (now, tx)" by (cases m)
  have line: "m_cur_line s = full_lines cs c" using Cons.prems(1) by (simp add: logged_def full_lines_def)
  have sn: "m_cur_sn s = n0 + int (length cs)" using Cons.prems(1) by (simp add: logged_def)
  have rest: "0 \<le> (\<Sum>(now, tx) \<leftarrow> ts. int (length tx))" by (induction ts) auto
  have "\<exists>t. handle_write_file mk (\<lambda>_. True) now tx s = Some t \<and> names_kept s t
    \<and> m_cur_size t \<le> m_cur_size s + int (length tx) \<and> 0 \<le> m_cur_size t
    \<and> (if m_maxline s \<le> full_lines cs c then logged n0 (cs @ [c @ [tx]]) [] t else logged n0 cs (c @ [tx]) t)"
    by (rule write_step [OF Cons.prems(1) _ Cons.prems(3,4) _ Cons.prems(6)])
      (use Cons.prems m rest line sn in \<open>auto simp: cut_at_def\<close>)
  then obtain v where v: "handle_write_file mk (\<lambda>_. True) now tx s = Some v" "names_kept s v"
    "m_cur_size v \<le> m_cur_size s + int (length tx)" "0 \<le> m_cur_size v"
    "if m_maxline s \<le> full_lines cs c then logged n0 (cs @ [c @ [tx]]) [] v else logged n0 cs (c @ [tx]) v"
    by blast
  obtain cs1 c1 where c1: "logged n0 cs1 c1 v" "cut_at n cs1 c1" "concat cs1 @ c1 = concat cs @ c @ [tx]"
    "length cs1 \<le> length cs + 1"
    using v(5) cut_at_put [OF Cons.prems(10,8), of tx] Cons.prems(7) by (auto split: if_splits)
  have "m_cur_sn v \<le> m_cur_sn s + 1" using c1(1,4) sn by (simp add: logged_def)
  then obtain t cs' c' where t: "write_all mk (\<lambda>_. True) ts v = Some t" "logged n0 cs' c' t" "names_kept v t"
    "cut_at n cs' c'" "concat cs' @ c' = concat cs1 @ c1 @ map snd ts"
    using Cons.IH [OF c1(1) _ Cons.prems(3) v(4) _ _ _ Cons.prems(8,9) c1(2)] Cons.prems(2,5,6,7,11,12) v(2,3) m
    by (auto simp: names_kept_def)
  have "concat cs' @ c' = (concat cs1 @ c1) @ map snd ts" using t(5) by simp
  then have "concat cs' @ c' = concat cs @ c @ map snd (m # ts)" unfolding c1(3) m by simp
  moreover have "write_all mk (\<lambda>_. True) (m # ts) s = Some t" using v(1) t(1) m by simp
  moreover have "names_kept s t" using v(2) t(3) by (simp add: names_kept_def)
  ultimately show ?case using t(2,4) by blast
qed

lemma free_sn_result:
  assumes "free_sn s i = Some r"
  shows "i \<le> fst r \<and> log_file s (fst r) = Some (snd r)"
proof (rule free_sn.raw_induct [OF _ assms, where P = "\<lambda>s i r. i \<le> fst r \<and> log_file s (fst r) = Some (snd r)"])
  fix f s i r
  assume "\<And>s i r. f s i = Some r \<Longrightarrow> i \<le> fst r \<and> log_file s (fst r) = Some (snd r)"
    and "log_file s i \<bind> (\<lambda>p. if path_exists (fs s) p then if i + 1 < 2 ^ 31 then f s (i + 1) else None
      else Some (i, p)) = Some r"
  then show "i \<le> fst r \<and> log_file s (fst r) = Some (snd r)"
    by (fastforce simp: bind_eq_Some_conv split: if_splits)
qed

lemma open_logged:
  assumes "open_log mk (\<lambda>_. True) now s = Some (0, t)" and "\<not> m_opened s" and "m_enable_write_file s"
    and "m_ofstream s = \<lparr>os_file = None, os_fail = False\<rparr>"
  shows "logged (m_cur_sn t) [] [] t" "0 \<le> m_cur_sn t" "m_cur_size t = 0" "m_maxline t = m_maxline s"
    "m_maxsize t = m_maxsize s" "\<And>day. same_day t day \<longleftrightarrow> tm_year day = tm_year now
      \<and> tm_mon day = tm_mon now \<and> tm_mday day = tm_mday now"
proof -
  let ?s = "s\<lparr>m_cur_year := tm_year now, m_cur_month := tm_mon now, m_cur_day := tm_mday now,
    m_cur_sn := 0, m_cur_line := 0, m_cur_size := 0\<rparr>"
  obtain f sn p where f: "free_sn (?s\<lparr>fs := f\<rparr>) 0 = Some (sn, p)"
    and t: "t = ?s\<lparr>m_cur_sn := sn, m_ofstream := \<lparr>os_file = Some p, os_fail = False\<rparr>,
      fs := f\<lparr>files := (files f)(p \<mapsto> [])\<rparr>, has_work := True, worker_runs := \<not> io_stopped s, m_opened := True\<rparr>"
    using assms
    by (auto simp: open_log_def open_file_thread_def Let_def bind_eq_Some_conv os_open_def
        split: if_splits option.splits)
  from free_sn_result [OF f] have p: "0 \<le> sn" "log_file ?s sn = Some p" by simp_all
  have names: "log_file t = log_file ?s" unfolding t by (rule log_file_cong) simp_all
  show "logged (m_cur_sn t) [] [] t" "0 \<le> m_cur_sn t" "m_cur_size t = 0" "m_maxline t = m_maxline s"
    "m_maxsize t = m_maxsize s" "\<And>day. same_day t day \<longleftrightarrow> tm_year day = tm_year now
      \<and> tm_mon day = tm_mon now \<and> tm_mday day = tm_mday now"
    unfolding logged_def same_day_def names using p by (simp_all add: t)
qed

text \<open>C27: Rotation. After the log is opened and while the day and the limit on the size are not
  reached, no message is lost, split or put out of order: the files from the number chosen at the
  opening on hold the messages written, one file after the other. Each full file holds as many messages
  as the limit on the lines, but the first holds one more.\<close>

theorem rotation_by_lines:
  assumes "open_log mk (\<lambda>_. True) now s0 = Some (0, s)" and "\<not> m_opened s0" and "m_enable_write_file s0"
    and "m_ofstream s0 = \<lparr>os_file = None, os_fail = False\<rparr>"
    and "\<forall>(day, tx) \<in> set ts. tm_year day = tm_year now \<and> tm_mon day = tm_mon now \<and> tm_mday day = tm_mday now"
    and "(\<Sum>(day, tx) \<leftarrow> ts. int (length tx)) < m_maxsize s0" and "m_maxsize s0 < 2 ^ 31"
    and "m_maxline s0 = int n" and "1 \<le> n" and "n < 2 ^ 31 - 1"
    and "m_cur_sn s + int (length ts) < 2 ^ 31"
    and "\<forall>k. m_cur_sn s \<le> k \<and> k \<le> m_cur_sn s + int (length ts) \<longrightarrow> log_file s k \<noteq> None"
  shows "\<exists>t cs c. write_all mk (\<lambda>_. True) ts s = Some t \<and> concat cs @ c = map snd ts
    \<and> (\<forall>j < length cs. length (cs ! j) = (if j = 0 then n + 1 else n))
    \<and> (\<forall>j \<le> length cs. \<exists>p. log_file s (m_cur_sn s + int j) = Some p
         \<and> files (fs t) p = Some (concat ((cs @ [c]) ! j)))"
proof -
  note op = open_logged [OF assms(1-4)]
  have "cut_at n [] []" by (simp add: cut_at_def full_lines_def)
  then obtain t cs c where t: "write_all mk (\<lambda>_. True) ts s = Some t" "logged (m_cur_sn s) cs c t"
    "names_kept s t" "cut_at n cs c" "concat cs @ c = map snd ts"
    using write_all_logged [OF op(1) _ op(2) _ _ _ _ assms(9,10) _ assms(11,12), of mk] assms(5-8) op(3-6)
    by auto
  from t(2,3) have "\<forall>j \<le> length cs. \<exists>p. log_file s (m_cur_sn s + int j) = Some p
      \<and> files (fs t) p = Some (concat ((cs @ [c]) ! j))" by (simp add: logged_def names_kept_def)
  with t(1,4,5) show ?thesis unfolding cut_at_def by blast
qed

section \<open>Opening again\<close>

text \<open>A log that has been closed does not write again. Closing ends the worker and with it stops
  its io service for good; opening again returns 0, but there is no worker, so nothing that is
  posted is ever written. Besides, no module is enabled any more, so nothing is logged either.\<close>

theorem reopened_log_writes_nothing:
  assumes "m_opened s" and "worker_runs s" and "work_queue s = []"
    and "worker_turn mk op now (close_begin s) = Some s1" and "open_log mk op now s1 = Some (r, s2)"
  shows "close_end s1 = Some s1 \<and> m_opened s2
    \<and> (\<forall>mk op day. worker_turn mk op day s2 = None)
    \<and> (\<forall>l day usec tid module msg. log_at l day usec tid module msg s2 = Some s2)"
proof -
  have s1: "\<not> worker_runs s1" "io_stopped s1" "\<not> m_opened s1" "m_modules s1 = {}"
    using assms(1-4) by (auto simp: worker_turn_def close_begin_def)
  then have "\<not> worker_runs s2"
    using assms(5) by (auto simp: open_log_def open_file_thread_def Let_def bind_eq_Some_conv split_beta
      split: if_splits option.splits)
  with s1 open_log_frame [OF assms(5) s1(3)] show ?thesis
    by (simp add: close_end_def worker_turn_def log_at_def log_def check_module_def)
qed

section \<open>Instances\<close>

definition sept_18 :: date_time where
  "sept_18 = \<lparr>tm_year = 114, tm_mon = 8, tm_mday = 18, tm_hour = 20, tm_min = 46, tm_sec = 18\<rparr>"

definition no_files :: file_system where
  "no_files = \<lparr>dirs = {}, files = Map.empty\<rparr>"

text \<open>A logger that is set up for level \<open>LF_ERROR\<close>, two lines and one module, and opened.\<close>

definition set_up_log :: log_state where
  "set_up_log = (init_log_state no_files)\<lparr>m_path := ''l'', m_filename := ''f'', m_maxline := 2,
     m_maxsize := 5000000, m_log_level := 3, m_enable_write_file := True, m_enable_print_screen := True,
     m_modules := {''RPC''}\<rparr>"

definition opened_log :: log_state where
  "opened_log = set_up_log\<lparr>m_cur_year := 114, m_cur_month := 8, m_cur_day := 18,
     fs := \<lparr>dirs = {''l/2014-9-18'', ''l''}, files = [''l/2014-9-18/f.0'' \<mapsto> []]\<rparr>,
     m_ofstream := \<lparr>os_file = Some ''l/2014-9-18/f.0'', os_fail = False\<rparr>, has_work := True,
     worker_runs := True, m_opened := True\<rparr>"

lemma digits_small: "digits 0 = ''0''" "digits 1 = ''1''" "digits 2 = ''2''" "digits 9 = ''9''" "digits 18 = ''18''"
  "digits 2014 = ''2014''" "digits (Suc 0) = ''1''"
  by code_simp+

lemma opened_names:
  "m_path s = ''l'' \<Longrightarrow> m_filename s = ''f'' \<Longrightarrow> m_cur_year s = 114 \<Longrightarrow> m_cur_month s = 8 \<Longrightarrow> m_cur_day s = 18 \<Longrightarrow>
    day_dir s = Some ''l/2014-9-18'' \<and> log_file s sn = fits 1024 (''l/2014-9-18/f.'' @ decimal sn)"
  by (simp add: day_dir_def log_file_def fits_def decimal_def digits_small)

lemma opened_steps: "open_log (\<lambda>_. True) (\<lambda>_. True) sept_18 set_up_log = Some (0, opened_log)"
  by (simp add: open_log_def open_file_thread_def set_up_log_def init_log_state_def no_files_def sept_18_def
      ensure_dir_def make_dir_def path_exists_def opened_names os_open_def opened_log_def fits_def
      decimal_def digits_small free_sn.simps)

lemma set_up_steps:
  "init_log (\<lambda>_. True) (\<lambda>_. True) sept_18 ''l'' ''f'' True True (int (level_no LF_ERROR)) [''RPC''] 5000000 2
    (init_log_state no_files) = Some (0, opened_log)"
  using opened_steps
  by (simp add: init_log_def set_path_def set_filename_def fits_def set_maxline_def set_maxsize_def
      LOG_FLAG_def enable_log_level_def enable_write_file_def enable_print_screen_def enable_module_def
      set_up_log_def init_log_state_def)

lemma log_line_short:
  assumes "length module < 1000"
  shows "\<exists>tx. log_line (format_log_head sept_18 7 42 module l) msg = Some tx"
proof -
  have "length (format_log_head sept_18 7 42 module l) < 2000"
    using assms by (cases l) (simp_all add: format_log_head_def sept_18_def zero_pad_def pad_right_def
        decimal_def digits.simps)
  then show ?thesis by (simp add: log_line_def MAX_LOG_LINE_def)
qed

theorem enabled_levels_are_dropped_witness:
  "log_at LF_ERROR sept_18 7 42 ''RPC'' ''lost'' opened_log = Some opened_log
    \<and> (\<exists>tx. log_at LF_DEBUG sept_18 7 42 ''RPC'' ''chat'' opened_log
          = Some (opened_log\<lparr>work_queue := [tx], screen := [fst (colors LF_DEBUG) @ tx @ snd (colors LF_DEBUG)]\<rparr>))"
proof -
  obtain t1 where t1: "log_line (format_log_head sept_18 7 42 ''RPC'' LF_ERROR) ''lost'' = Some t1"
    using log_line_short [of "''RPC''" LF_ERROR "''lost''"] by auto
  obtain t2 where t2: "log_line (format_log_head sept_18 7 42 ''RPC'' LF_DEBUG) ''chat'' = Some t2"
    using log_line_short [of "''RPC''" LF_DEBUG "''chat''"] by auto
  have "LF_ERROR < LF_DEBUG" by (simp add: less_log_level_def)
  with enabled_levels_are_dropped [OF set_up_steps t1] enabled_levels_are_dropped [OF set_up_steps t2]
  show ?thesis by (simp add: opened_log_def set_up_log_def init_log_state_def)
qed

theorem free_sn_finds_least_witness:
  "\<exists>j p. free_sn opened_log 0 = Some (j, p) \<and> 0 \<le> j \<and> j \<le> 3 \<and> \<not> path_exists (fs opened_log) p"
proof -
  have few: "dirs (fs opened_log) \<union> dom (files (fs opened_log)) = {''l/2014-9-18'', ''l'', ''l/2014-9-18/f.0''}"
    by (auto simp: opened_log_def)
  have "log_file opened_log k \<noteq> None" if "0 \<le> k" "k \<le> 3" for k
  proof -
    from that have "k < 10" "0 \<le> k" by auto
    then show ?thesis
      by (simp add: opened_log_def set_up_log_def init_log_state_def opened_names fits_def decimal_def digits.simps)
  qed
  then have "\<exists>j p. free_sn opened_log 0 = Some (j, p) \<and> 0 \<le> j \<and> j \<le> 0 + int 3 \<and> log_file opened_log j = Some p
    \<and> \<not> path_exists (fs opened_log) p
    \<and> (\<forall>k. 0 \<le> k \<and> k < j \<longrightarrow> (\<exists>p. log_file opened_log k = Some p \<and> path_exists (fs opened_log) p))"
    by (intro free_sn_finds_least) (simp_all add: few)
  then show ?thesis by auto
qed

theorem rotation_by_lines_witness:
  "\<exists>t cs c. write_all (\<lambda>_. True) (\<lambda>_. True) [(sept_18, ''a''), (sept_18, ''b''), (sept_18, ''c''), (sept_18, ''d'')]
      opened_log = Some t \<and> concat cs @ c = [''a'', ''b'', ''c'', ''d'']
    \<and> (\<forall>j < length cs. length (cs ! j) = (if j = 0 then 3 else 2))"
proof -
  have names: "\<forall>k. 0 \<le> k \<and> k \<le> (4 :: int) \<longrightarrow> log_file opened_log k \<noteq> None"
  proof (intro allI impI)
    fix k :: int assume "0 \<le> k \<and> k \<le> 4"
    then have "k < 10" "0 \<le> k" by auto
    then show "log_file opened_log k \<noteq> None"
      by (simp add: opened_log_def set_up_log_def init_log_state_def opened_names fits_def decimal_def digits.simps)
  qed
  let ?ts = "[(sept_18, ''a''), (sept_18, ''b''), (sept_18, ''c''), (sept_18, ''d'')]"
  have sn: "m_cur_sn opened_log = 0" by (simp add: opened_log_def set_up_log_def init_log_state_def)
  have "\<exists>t cs c. write_all (\<lambda>_. True) (\<lambda>_. True) ?ts opened_log = Some t \<and> concat cs @ c = map snd ?ts
    \<and> (\<forall>j < length cs. length (cs ! j) = (if j = 0 then 2 + 1 else 2))
    \<and> (\<forall>j \<le> length cs. \<exists>p. log_file opened_log (m_cur_sn opened_log + int j) = Some p
         \<and> files (fs t) p = Some (concat ((cs @ [c]) ! j)))"
    by (rule rotation_by_lines [OF opened_steps])
      (use names in \<open>simp_all add: sn\<close>, simp_all add: set_up_log_def init_log_state_def)
  then obtain t cs c where "write_all (\<lambda>_. True) (\<lambda>_. True) ?ts opened_log = Some t"
    "concat cs @ c = map snd ?ts" "\<forall>j < length cs. length (cs ! j) = (if j = 0 then 2 + 1 else 2)" by blast
  then show ?thesis by (intro exI [of _ t] exI [of _ cs] exI [of _ c]) (simp del: write_all.simps)
qed

theorem reopened_log_writes_nothing_witness:
  "\<exists>s1 r s2. worker_turn (\<lambda>_. True) (\<lambda>_. True) sept_18 (close_begin opened_log) = Some s1
    \<and> open_log (\<lambda>_. True) (\<lambda>_. True) sept_18 s1 = Some (r, s2) \<and> m_opened s2
    \<and> worker_turn (\<lambda>_. True) (\<lambda>_. True) sept_18 s2 = None"
proof -
  obtain s1 where s1: "worker_turn (\<lambda>_. True) (\<lambda>_. True) sept_18 (close_begin opened_log) = Some s1"
    "s1 = opened_log\<lparr>m_opened := False, m_modules := {}, has_work := False, worker_runs := False, io_stopped := True\<rparr>"
    by (simp add: worker_turn_def close_begin_def opened_log_def set_up_log_def init_log_state_def)
  have "\<exists>r s2. open_log (\<lambda>_. True) (\<lambda>_. True) sept_18 s1 = Some (r, s2)"
    by (simp add: s1(2) open_log_def open_file_thread_def set_up_log_def init_log_state_def no_files_def sept_18_def
      ensure_dir_def path_exists_def opened_names os_open_def opened_log_def fits_def
      decimal_def digits_small free_sn.simps)
  then obtain r s2 where s2: "open_log (\<lambda>_. True) (\<lambda>_. True) sept_18 s1 = Some (r, s2)" by blast
  have "m_opened opened_log" "worker_runs opened_log" "work_queue opened_log = []"
    by (simp_all add: opened_log_def set_up_log_def init_log_state_def)
  from reopened_log_writes_nothing [OF this s1(1) s2] s1(1) s2 show ?thesis by blast
qed

end
