(* ===== verification/SignalService.thy ===== *)
theory SignalService
  imports NbPrelude
begin

text \<open>
  Signals, \<open>signal_handler_t\<close> and \<open>signal_service_t\<close> of mylib/utility/signal\_handler.h,
  signal\_handler.cpp and signal\_service.h.

  A callback is the name of a function, \<open>None\<close> the empty function object. The calls of \<open>sigwait\<close>
  are a list: a signal for a call that delivers one, \<open>None\<close> for one that fails. When the list
  is used up the loop waits on. \<open>valid_sig\<close> are the signal numbers that \<open>sigaddset\<close> accepts.
\<close>

section \<open>The handler\<close>

record 'f signal_handler =
  m_wait_mask :: "nat set"
  m_signal_func_map :: "nat \<rightharpoonup> 'f option"
  m_isquit :: bool

definition init_handler :: "'f signal_handler" where
  "init_handler = \<lparr>m_wait_mask = {}, m_signal_func_map = Map.empty, m_isquit = False\<rparr>"

definition sigaddset :: "(nat \<Rightarrow> bool) \<Rightarrow> nat \<Rightarrow> nat set \<Rightarrow> nat set" where
  "sigaddset valid_sig n ms = (if valid_sig n then insert n ms else ms)"

text \<open>\<open>block_all_signal\<close> and \<open>event_loop\<close> set the mask of blocked signals of the calling thread.\<close>

definition block_all_signal :: "nat set \<Rightarrow> nat set \<Rightarrow> int \<times> nat set" where
  "block_all_signal all blocked = (0, blocked \<union> all)"

definition register_signal :: "(nat \<Rightarrow> bool) \<Rightarrow> nat \<Rightarrow> 'f option \<Rightarrow> 'f signal_handler \<Rightarrow> int \<times> 'f signal_handler" where
  "register_signal valid_sig n f h =
     (let h = h\<lparr>m_wait_mask := sigaddset valid_sig n (m_wait_mask h)\<rparr>
      in if m_signal_func_map h n \<noteq> None then (-1, h)
         else (0, h\<lparr>m_signal_func_map := (m_signal_func_map h)(n \<mapsto> f)\<rparr>))"

definition register_quit_signal :: "(nat \<Rightarrow> bool) \<Rightarrow> nat \<Rightarrow> 'f signal_handler \<Rightarrow> int \<times> 'f signal_handler" where
  "register_quit_signal valid_sig n h =
     (let h = h\<lparr>m_wait_mask := sigaddset valid_sig n (m_wait_mask h)\<rparr>
      in if m_signal_func_map h n \<noteq> None then (-1, h)
         else (0, h\<lparr>m_signal_func_map := (m_signal_func_map h)(n \<mapsto> None)\<rparr>))"

text \<open>The loop: what it returns, \<open>None\<close> while it still waits, and the callbacks it has made.\<close>

fun event_loop :: "'f signal_handler \<Rightarrow> nat option list \<Rightarrow> int option \<times> 'f list" where
  "event_loop h [] = (None, [])"
| "event_loop h (None # sigs) = (Some 0, [])"
| "event_loop h (Some n # sigs) = (case m_signal_func_map h n of
      None \<Rightarrow> (Some (-1), [])
    | Some None \<Rightarrow> (Some 0, [])
    | Some (Some f) \<Rightarrow> (let (ret, fs) = event_loop h sigs in (ret, f # fs)))"

definition SIGHUP :: nat where "SIGHUP = 1"
definition SIGINT :: nat where "SIGINT = 2"
definition SIGQUIT :: nat where "SIGQUIT = 3"
definition SIGTERM :: nat where "SIGTERM = 15"

definition set_terminate :: "nat \<Rightarrow> nat \<times> nat" where
  "set_terminate pid = (pid, SIGQUIT)"

section \<open>The service\<close>

text \<open>\<open>m_pid\<close> and \<open>m_is_terminated\<close> are not initialised: \<open>None\<close> until they are set.\<close>

record 'f signal_service =
  m_pid :: "nat option"
  m_is_terminated :: "bool option"
  m_handler :: "'f signal_handler"

definition init_signal_service :: "'f signal_service" where
  "init_signal_service = \<lparr>m_pid = None, m_is_terminated = None, m_handler = init_handler\<rparr>"

definition register_quits :: "(nat \<Rightarrow> bool) \<Rightarrow> nat list \<Rightarrow> 'f signal_handler \<Rightarrow> 'f signal_handler" where
  "register_quits valid_sig ns h = fold (\<lambda>n h. snd (register_quit_signal valid_sig n h)) ns h"

text \<open>Both versions of \<open>start\<close>, up to their call of \<open>event_loop\<close>.\<close>

definition signal_start :: "(nat \<Rightarrow> bool) \<Rightarrow> nat \<Rightarrow> 'f signal_service \<Rightarrow> 'f signal_service" where
  "signal_start valid_sig tid s = s\<lparr>m_pid := Some tid, m_is_terminated := Some False,
     m_handler := register_quits valid_sig [SIGINT, SIGQUIT, SIGTERM, SIGHUP] (m_handler s)\<rparr>"

definition signal_start_with :: "(nat \<Rightarrow> bool) \<Rightarrow> 16 word list \<Rightarrow> 'f signal_service \<Rightarrow> 'f signal_service" where
  "signal_start_with valid_sig quits s = s\<lparr>m_is_terminated := Some False,
     m_handler := register_quits valid_sig (map unat quits) (m_handler s)\<rparr>"

text \<open>\<open>None\<close>: the process id that is read was never written.\<close>

definition terminate :: "'f signal_service \<Rightarrow> ((nat \<times> nat) \<times> 'f signal_service) option" where
  "terminate s = do { pid \<leftarrow> m_pid s; Some (set_terminate pid, s\<lparr>m_is_terminated := Some True\<rparr>) }"

definition is_terminate :: "'f signal_service \<Rightarrow> bool option" where
  "is_terminate s = m_is_terminated s"

section \<open>Registration\<close>

inductive register_step :: "(nat \<Rightarrow> bool) \<Rightarrow> 'f signal_handler \<Rightarrow> 'f signal_handler \<Rightarrow> bool" for valid_sig where
  step_signal: "register_step valid_sig h (snd (register_signal valid_sig n f h))"
| step_quit: "register_step valid_sig h (snd (register_quit_signal valid_sig n h))"

text \<open>Every signal that is waited for has an entry.\<close>

definition handler_ok :: "'f signal_handler \<Rightarrow> bool" where
  "handler_ok h \<longleftrightarrow> m_wait_mask h \<subseteq> dom (m_signal_func_map h)"

interpretation sh: inductive_invariant "\<lambda>h. h = init_handler" "register_step valid_sig" handler_ok for valid_sig
proof
  show "handler_ok g" if "register_step valid_sig h g" "handler_ok h" for h g :: "'a signal_handler"
    using that by (cases rule: register_step.cases)
      (auto simp: handler_ok_def register_signal_def register_quit_signal_def sigaddset_def Let_def
        split: if_splits)
qed (simp add: handler_ok_def init_handler_def)

text \<open>A registration: a number with a callback, or \<open>None\<close> to quit.\<close>

definition register_all :: "(nat \<Rightarrow> bool) \<Rightarrow> (nat \<times> 'f option) list \<Rightarrow> 'f signal_handler \<Rightarrow> 'f signal_handler" where
  "register_all valid_sig rs h = fold (\<lambda>(n, f) h. snd (case f of
     None \<Rightarrow> register_quit_signal valid_sig n h | Some _ \<Rightarrow> register_signal valid_sig n f h)) rs h"

lemma register_all_map:
  "m_signal_func_map (register_all valid_sig rs h) = map_of rs ++ m_signal_func_map h"
proof (induction rs arbitrary: h)
  case Nil
  then show ?case by (simp add: register_all_def)
next
  case (Cons r rs)
  obtain n f where r: "r = (n, f)" by (cases r)
  let ?h = "snd (case f of None \<Rightarrow> register_quit_signal valid_sig n h | Some _ \<Rightarrow> register_signal valid_sig n f h)"
  have "register_all valid_sig (r # rs) h = register_all valid_sig rs ?h"
    by (simp add: register_all_def r)
  moreover have "m_signal_func_map ?h = (if m_signal_func_map h n = None then (m_signal_func_map h)(n \<mapsto> f)
      else m_signal_func_map h)"
    by (simp add: register_signal_def register_quit_signal_def Let_def split: option.split)
  ultimately show ?case using Cons.IH [of ?h] r
    by (auto simp: map_add_def fun_eq_iff split: option.split)
qed

lemma register_all_mask:
  "m_wait_mask (register_all valid_sig rs h) = m_wait_mask h \<union> {n \<in> fst ` set rs. valid_sig n}"
proof (induction rs arbitrary: h)
  case Nil
  then show ?case by (simp add: register_all_def)
next
  case (Cons r rs)
  obtain n f where r: "r = (n, f)" by (cases r)
  let ?h = "snd (case f of None \<Rightarrow> register_quit_signal valid_sig n h | Some _ \<Rightarrow> register_signal valid_sig n f h)"
  have "register_all valid_sig (r # rs) h = register_all valid_sig rs ?h"
    by (simp add: register_all_def r)
  moreover have "m_wait_mask ?h = sigaddset valid_sig n (m_wait_mask h)"
    by (simp add: register_signal_def register_quit_signal_def Let_def split: option.split)
  ultimately show ?case using Cons.IH [of ?h] r
    by (auto simp: sigaddset_def)
qed

lemma register_all_reach:
  "reach (\<lambda>h. h = init_handler) (register_step valid_sig) h \<Longrightarrow>
   reach (\<lambda>h. h = init_handler) (register_step valid_sig) (register_all valid_sig rs h)"
proof (induction rs arbitrary: h)
  case Nil
  then show ?case by (simp add: register_all_def)
next
  case (Cons r rs)
  obtain n f where r: "r = (n, f)" by (cases r)
  let ?h = "snd (case f of None \<Rightarrow> register_quit_signal valid_sig n h | Some _ \<Rightarrow> register_signal valid_sig n f h)"
  have "register_step valid_sig h ?h"
    by (cases f) (auto intro: register_step.intros)
  then have "reach (\<lambda>h. h = init_handler) (register_step valid_sig) ?h"
    using Cons.prems by (blast intro: reach.intros)
  then show ?case using Cons.IH by (simp add: register_all_def r)
qed

lemma register_quits_all:
  "register_quits valid_sig ns h = register_all valid_sig (map (\<lambda>n. (n, None)) ns) h"
  by (induction ns arbitrary: h) (simp_all add: register_quits_def register_all_def)

section \<open>The loop\<close>

text \<open>What the loop is for: the callbacks of the signals up to the first one that ends it.\<close>

definition callback :: "'f signal_handler \<Rightarrow> nat option \<Rightarrow> 'f option" where
  "callback h d = (case d of None \<Rightarrow> None | Some n \<Rightarrow>
     (case m_signal_func_map h n of None \<Rightarrow> None | Some f \<Rightarrow> f))"

lemma event_loop_callbacks:
  assumes "\<And>n. Some n \<in> set ds \<Longrightarrow> n \<in> dom (m_signal_func_map h)"
  shows "snd (event_loop h ds) = map (the \<circ> callback h) (takeWhile (\<lambda>d. callback h d \<noteq> None) ds)
    \<and> fst (event_loop h ds) = (if \<exists>d \<in> set ds. callback h d = None then Some 0 else None)"
  using assms
proof (induction h ds rule: event_loop.induct)
  case (3 h n sigs)
  from 3(2) [of n] obtain f where f: "m_signal_func_map h n = Some f" by auto
  show ?case
  proof (cases f)
    case None
    then show ?thesis using f by (simp add: callback_def)
  next
    case (Some g)
    then have "callback h (Some n) = Some g" using f by (simp add: callback_def)
    moreover have "snd (event_loop h sigs) = map (the \<circ> callback h) (takeWhile (\<lambda>d. callback h d \<noteq> None) sigs)
      \<and> fst (event_loop h sigs) = (if \<exists>d \<in> set sigs. callback h d = None then Some 0 else None)"
      using 3 f Some by simp
    ultimately show ?thesis using f Some by (simp add: split_beta)
  qed
qed (simp_all add: callback_def)

text \<open>C40: The event loop on any handler that registrations have built. \<open>sigwait\<close> delivers only signals of the
  mask that it is given. The loop then runs, in the order of delivery, the callback of every signal before the first
  quit signal (or failed wait), nothing after it, and returns 0 there; it waits on as long as there is none. The
  branch that prints "no signal callback fun" and returns -1 is never taken.\<close>

theorem event_loop_outcome:
  assumes "reach (\<lambda>h. h = init_handler) (register_step valid_sig) h"
    and "\<And>n. Some n \<in> set ds \<Longrightarrow> n \<in> m_wait_mask h"
  shows "event_loop h ds =
    (if \<exists>d \<in> set ds. callback h d = None then Some 0 else None,
     map (the \<circ> callback h) (takeWhile (\<lambda>d. callback h d \<noteq> None) ds))"
proof -
  have "handler_ok h" using assms(1) by (rule sh.inv_reach)
  then have "\<And>n. Some n \<in> set ds \<Longrightarrow> n \<in> dom (m_signal_func_map h)"
    using assms(2) by (auto simp: handler_ok_def)
  from event_loop_callbacks [OF this] show ?thesis by (simp add: prod_eq_iff)
qed

text \<open>Registrations of one number: whatever the order of \<open>register_signal\<close> and
  \<open>register_quit_signal\<close> calls, the first one for a number decides what the loop does with it and later
  ones leave it, also when they ask to quit; every accepted number is waited for. So the service, whose
  \<open>start\<close> registers its four quit signals after what the program has registered through
  \<open>get_handler\<close>, does not end on one that the program has taken: it runs the program's callback and
  waits on.\<close>

theorem first_registration_wins:
  "m_signal_func_map (register_all valid_sig rs init_handler) = map_of rs
   \<and> m_wait_mask (register_all valid_sig rs init_handler) = {n \<in> fst ` set rs. valid_sig n}
   \<and> m_signal_func_map (m_handler (signal_start valid_sig tid
        (init_signal_service\<lparr>m_handler := register_all valid_sig rs init_handler\<rparr>))) =
      map_of (rs @ map (\<lambda>n. (n, None)) [SIGINT, SIGQUIT, SIGTERM, SIGHUP])"
  by (simp add: register_all_map register_all_mask init_handler_def signal_start_def register_quits_all map_of_append del: list.map)

text \<open>The thread id that \<open>terminate\<close> signals is written only by the \<open>start\<close> without
  arguments. After it, \<open>terminate\<close> sends that thread SIGQUIT, which ends the loop unless the program has taken
  SIGQUIT for a callback. After the \<open>start\<close> that is given its quit signals, \<open>terminate\<close> reads
  a member that was never written.\<close>

theorem terminate_needs_plain_start:
  "(\<forall>tid s. \<exists>s'. terminate (signal_start valid_sig tid s) = Some ((tid, SIGQUIT), s')
      \<and> is_terminate s' = Some True
      \<and> (m_signal_func_map (m_handler s) SIGQUIT = None \<longrightarrow> event_loop (m_handler s') [Some SIGQUIT] = (Some 0, [])))
   \<and> (\<forall>quits. terminate (signal_start_with valid_sig quits init_signal_service) = None)"
  by (auto simp: terminate_def signal_start_def signal_start_with_def init_signal_service_def set_terminate_def
      is_terminate_def register_quits_all register_all_map SIGINT_def SIGQUIT_def SIGTERM_def SIGHUP_def map_add_def)

theorem terminate_needs_plain_start_witness:
  "event_loop (m_handler (snd (the (terminate (signal_start (\<lambda>n. 0 < n \<and> n < 65) 4711 (init_signal_service :: nat signal_service))))))
     [Some SIGQUIT] = (Some 0, [])"
proof -
  have "m_signal_func_map (m_handler (init_signal_service :: nat signal_service)) SIGQUIT = None"
    by (simp add: init_signal_service_def init_handler_def)
  then show ?thesis
    using terminate_needs_plain_start [of "\<lambda>n. 0 < n \<and> n < 65"] by (metis option.sel snd_conv)
qed

theorem event_loop_outcome_witness:
  "event_loop (register_all (\<lambda>n. 0 < n \<and> n < 65) [(10, Some 7), (SIGTERM, None), (SIGTERM, Some 8)] init_handler)
     [Some 10, Some 10, Some SIGTERM, Some 10] = (Some 0, [7, 7 :: nat])"
proof -
  let ?h = "register_all (\<lambda>n. 0 < n \<and> n < 65) [(10, Some 7), (SIGTERM, None), (SIGTERM, Some 8)] (init_handler :: nat signal_handler)"
  have "reach (\<lambda>h. h = init_handler) (register_step (\<lambda>n. 0 < n \<and> n < 65)) ?h"
    by (rule register_all_reach) (simp add: reach.intros)
  moreover have "n \<in> m_wait_mask ?h" if "Some n \<in> set [Some 10, Some 10, Some SIGTERM, Some 10]" for n
    using that by (auto simp: register_all_mask SIGTERM_def)
  ultimately show ?thesis
    by (subst event_loop_outcome) (simp_all add: callback_def register_all_map init_handler_def SIGTERM_def)
qed

end
