(* ===== verification/ZlibUtil.thy ===== *)
theory ZlibUtil
  imports NbPrelude "HOL-Library.Sublist"
begin

unbundle bit_operations_syntax

text \<open>
  The drivers of zlib in mylib/utility/zlib\_util.cpp.

  zlib itself is not part of the repository: \<open>deflate\<close> and \<open>inflate\<close> are parameters. Each
  takes its state, the flush argument, the input still available and the room in the output buffer, and gives
  its return code, the new state, the number of bytes it has consumed and the bytes it has made. What
  \<open>deflateInit2\<close>, for a \<open>windowBits\<close>, and \<open>inflateInit\<close> do is a parameter too: a state, or a failure. The contracts
  below state what the zlib manual says of them.
\<close>

section \<open>The interface of zlib\<close>

datatype z_flush = Z_NO_FLUSH | Z_SYNC_FLUSH | Z_FINISH

definition Z_OK :: int where "Z_OK = 0"
definition Z_STREAM_END :: int where "Z_STREAM_END = 1"
definition Z_NEED_DICT :: int where "Z_NEED_DICT = 2"
definition Z_STREAM_ERROR :: int where "Z_STREAM_ERROR = -2"
definition Z_DATA_ERROR :: int where "Z_DATA_ERROR = -3"
definition Z_MEM_ERROR :: int where "Z_MEM_ERROR = -4"
definition Z_BUF_ERROR :: int where "Z_BUF_ERROR = -5"

lemmas z_codes = Z_OK_def Z_STREAM_END_def Z_NEED_DICT_def Z_STREAM_ERROR_def Z_DATA_ERROR_def
  Z_MEM_ERROR_def Z_BUF_ERROR_def

type_synonym 'z coder = "'z \<Rightarrow> z_flush \<Rightarrow> bytes \<Rightarrow> nat \<Rightarrow> int \<times> 'z \<times> nat \<times> bytes"

definition MAX_WBITS :: int where
  "MAX_WBITS = 15"

definition CHUNK :: nat where
  "CHUNK = 2048"

definition BUFFER_INC_FACTOR :: nat where
  "BUFFER_INC_FACTOR = 2"

section \<open>From string to string\<close>

text \<open>The inner loop of \<open>compress\<close>: the buffer of \<open>CHUNK\<close> bytes is filled and emptied
  into the output as long as it comes back full.\<close>

partial_function (option) deflate_chunk :: "'z coder \<Rightarrow> z_flush \<Rightarrow> 'z \<Rightarrow> bytes \<Rightarrow> bytes
    \<Rightarrow> (int \<times> 'z \<times> bytes) option" where [code]:
  "deflate_chunk deflate flush z avail output =
     (case deflate z flush avail CHUNK of (ret, z, used, made) \<Rightarrow>
        if ret = Z_STREAM_ERROR then Some (-1, z, output)
        else if CHUNK - length made = 0 then deflate_chunk deflate flush z (drop used avail) (output @ made)
        else Some (0, z, output @ made))"

text \<open>The size of a string, converted to \<open>int\<close>.\<close>

definition int_of_size :: "bytes \<Rightarrow> int" where
  "int_of_size input = sint (word_of_nat (length input) :: 32 word)"

partial_function (option) compress_loop :: "'z coder \<Rightarrow> bytes \<Rightarrow> nat \<Rightarrow> 'z \<Rightarrow> bytes
    \<Rightarrow> (int \<times> bytes) option" where [code]:
  "compress_loop deflate input copied z output =
     (let avail = take CHUNK (drop copied input);
          copied = copied + length avail;
          flush = (if int_of_size input = int copied then Z_FINISH else Z_SYNC_FLUSH)
      in if copied \<ge> 2 ^ 31 then None
         else do {
           (ret, z, output) \<leftarrow> deflate_chunk deflate flush z avail output;
           if ret \<noteq> 0 then Some (-1, output)
           else if flush \<noteq> Z_FINISH then compress_loop deflate input copied z output
           else Some (0, output)
         })"

definition compress_string :: "(int \<Rightarrow> 'z option) \<Rightarrow> 'z coder \<Rightarrow> bytes \<Rightarrow> (int \<times> bytes) option" where
  "compress_string open_deflate deflate input =
     (case open_deflate (- MAX_WBITS) of None \<Rightarrow> Some (-1, []) | Some z \<Rightarrow> compress_loop deflate input 0 z [])"

text \<open>The inner loop of \<open>uncompress\<close>: \<open>Inl\<close> for a return out of the function, \<open>Inr\<close> with the
  last return code of \<open>inflate\<close> otherwise.\<close>

partial_function (option) inflate_chunk :: "'z coder \<Rightarrow> 'z \<Rightarrow> bytes \<Rightarrow> bytes
    \<Rightarrow> ((int + int) \<times> 'z \<times> bytes) option" where [code]:
  "inflate_chunk inflate z avail output =
     (case inflate z Z_NO_FLUSH avail CHUNK of (ret, z, used, made) \<Rightarrow>
        if ret = Z_STREAM_ERROR then Some (Inl (-1), z, output)
        else if ret = Z_NEED_DICT then Some (Inl Z_DATA_ERROR, z, output)
        else if ret = Z_DATA_ERROR \<or> ret = Z_MEM_ERROR then Some (Inl ret, z, output)
        else if CHUNK - length made = 0 then inflate_chunk inflate z (drop used avail) (output @ made)
        else Some (Inr ret, z, output @ made))"

partial_function (option) uncompress_loop :: "'z coder \<Rightarrow> bytes \<Rightarrow> nat \<Rightarrow> 'z \<Rightarrow> int \<Rightarrow> bytes
    \<Rightarrow> (int \<times> bytes) option" where [code]:
  "uncompress_loop inflate input copied z ret output =
     (let avail = take CHUNK (drop copied input);
          copied = copied + length avail
      in if copied \<ge> 2 ^ 31 then None
         else if avail = [] then Some (if ret = Z_STREAM_END then 0 else -1, output)
         else do {
           (r, z, output) \<leftarrow> inflate_chunk inflate z avail output;
           case r of Inl e \<Rightarrow> Some (e, output)
           | Inr ret \<Rightarrow>
               if ret \<noteq> Z_STREAM_END then uncompress_loop inflate input copied z ret output
               else Some (if ret = Z_STREAM_END then 0 else -1, output)
         })"

definition uncompress_string :: "int + 'z \<Rightarrow> 'z coder \<Rightarrow> bytes \<Rightarrow> (int \<times> bytes) option" where
  "uncompress_string inflateInit inflate input =
     (case inflateInit of Inl ret \<Rightarrow> Some (ret, []) | Inr z \<Rightarrow> uncompress_loop inflate input 0 z Z_OK [])"

section \<open>From buffer to buffer\<close>

text \<open>\<open>write_at\<close> writes into the buffer from a position on; fresh memory holds \<open>junk\<close>. The
  allocations are taken to succeed; a buffer size that leaves \<open>int\<close> is undefined.\<close>

definition write_at :: "nat \<Rightarrow> bytes \<Rightarrow> bytes \<Rightarrow> bytes" where
  "write_at pos made buf = take pos buf @ made @ drop (pos + length made) buf"

partial_function (option) buffer_loop :: "'z coder \<Rightarrow> byte \<Rightarrow> 'z \<Rightarrow> bytes \<Rightarrow> nat \<Rightarrow> nat \<Rightarrow> nat \<Rightarrow> nat \<Rightarrow> bytes
    \<Rightarrow> (int \<times> bytes) option" where [code]:
  "buffer_loop deflate junk z avail next_out avail_out total_out bufferSize buf =
     (case deflate z Z_SYNC_FLUSH avail avail_out of (err, z, used, made) \<Rightarrow>
        let buf = write_at next_out made buf;
            avail = drop used avail;
            next_out = next_out + length made;
            avail_out = avail_out - length made;
            total_out = total_out + length made
        in if err \<noteq> Z_OK then Some (-1, [])
           else if avail_out = 0 then
             if bufferSize * BUFFER_INC_FACTOR \<ge> 2 ^ 31 then None
             else buffer_loop deflate junk z avail bufferSize bufferSize total_out (bufferSize * BUFFER_INC_FACTOR)
               (buf @ replicate (bufferSize * BUFFER_INC_FACTOR - length buf) junk)
           else Some (sint (word_of_nat total_out :: 32 word), buf))"

text \<open>The result is the length that is returned and the contents of the buffer \<open>*out\<close>, which is freed
  when the length is -1. A length from 2 GB on is negative as an \<open>int\<close> and asks \<open>malloc\<close> for almost
  all of the address space; \<open>deflate\<close> refuses the null pointer that it gives.\<close>

definition compress_buffer :: "(int \<Rightarrow> 'z option) \<Rightarrow> 'z coder \<Rightarrow> byte \<Rightarrow> bytes \<Rightarrow> (int \<times> bytes) option" where
  "compress_buffer open_deflate deflate junk input =
     (case open_deflate (- MAX_WBITS) of None \<Rightarrow> Some (-1, [])
      | Some z \<Rightarrow> if 2 ^ 31 \<le> length input then Some (-1, [])
          else buffer_loop deflate junk z input 0 (length input) 0 (length input) (replicate (length input) junk))"

section \<open>The contracts of zlib\<close>

text \<open>
  The manual's rules for the caller of \<open>deflate\<close>: a call with \<open>Z_SYNC_FLUSH\<close> brings input; a call that has filled its room is
  repeated with the same flush argument and the input that is left, until there is room left; and after that with
  \<open>Z_FINISH\<close> the stream is complete and there is no further call.
\<close>

datatype z_phase = Between | Within z_flush bytes

fun may_call :: "z_phase \<Rightarrow> z_flush \<Rightarrow> bytes \<Rightarrow> bool" where
  "may_call Between flush avail \<longleftrightarrow> flush = Z_FINISH \<or> flush = Z_SYNC_FLUSH \<and> avail \<noteq> []"
| "may_call (Within f rest) flush avail \<longleftrightarrow> flush = f \<and> avail = rest"

text \<open>
  What \<open>deflate\<close> does when it is called by these rules. \<open>good phase z fed made\<close>: the state has consumed \<open>fed\<close> and made \<open>made\<close>,
  and the caller is in the \<open>phase\<close>. A call with room takes a part of what is available and makes no more than fits; with
  \<open>Z_SYNC_FLUSH\<close> it makes progress, which is \<open>Z_OK\<close>. When it leaves room, it has taken everything, and what has been
  made can be decoded: with \<open>Z_SYNC_FLUSH\<close> to everything that has been fed, with \<open>Z_FINISH\<close> as a
  complete stream. \<open>work\<close> is how many bytes there are to be made of what is available: a call that fills its room
  leaves that many less, up to the six bytes of a flush marker that it may have begun (in a room of six bytes
  or less, says the manual, there may be markers without end).
\<close>

definition deflate_contract :: "'z coder \<Rightarrow> (z_phase \<Rightarrow> 'z \<Rightarrow> bytes \<Rightarrow> bytes \<Rightarrow> bool)
    \<Rightarrow> (z_flush \<Rightarrow> bytes \<Rightarrow> bytes \<Rightarrow> bool) \<Rightarrow> (z_flush \<Rightarrow> 'z \<Rightarrow> bytes \<Rightarrow> nat) \<Rightarrow> bool" where
  "deflate_contract deflate good decodes work \<longleftrightarrow>
     (\<forall>phase z fed made flush avail room ret z' used out. good phase z fed made \<longrightarrow> may_call phase flush avail \<longrightarrow> 0 < room \<longrightarrow>
        deflate z flush avail room = (ret, z', used, out) \<longrightarrow>
        ret \<noteq> Z_STREAM_ERROR \<and> (flush = Z_SYNC_FLUSH \<longrightarrow> ret = Z_OK) \<and> used \<le> length avail \<and> length out \<le> room
        \<and> (length out < room \<longrightarrow> used = length avail \<and> decodes flush (made @ out) (fed @ avail)
             \<and> (flush = Z_SYNC_FLUSH \<longrightarrow> good Between z' (fed @ avail) (made @ out)))
        \<and> (length out = room \<longrightarrow> good (Within flush (drop used avail)) z' (fed @ take used avail) (made @ out)
             \<and> work flush z' (drop used avail) + room \<le> work flush z avail + 6))"

text \<open>The same for \<open>inflate\<close> on the way through one stream that encodes \<open>content\<close>.\<close>

definition inflate_contract :: "'z coder \<Rightarrow> bytes \<Rightarrow> bytes \<Rightarrow> ('z \<Rightarrow> bytes \<Rightarrow> bytes \<Rightarrow> bool)
    \<Rightarrow> ('z \<Rightarrow> bytes \<Rightarrow> nat) \<Rightarrow> bool" where
  "inflate_contract inflate stream content good work \<longleftrightarrow>
     (\<forall>z fed made avail room ret z' used out. good z fed made \<longrightarrow> 0 < room \<longrightarrow> prefix (fed @ avail) stream \<longrightarrow>
        inflate z Z_NO_FLUSH avail room = (ret, z', used, out) \<longrightarrow>
        ret \<in> {Z_OK, Z_STREAM_END, Z_BUF_ERROR}
        \<and> used \<le> length avail \<and> length out \<le> room \<and> good z' (fed @ take used avail) (made @ out)
        \<and> (length out < room \<longrightarrow> used = length avail \<and> (ret = Z_STREAM_END \<longleftrightarrow> fed @ avail = stream)
             \<and> (fed @ avail = stream \<longrightarrow> made @ out = content))
        \<and> (length out = room \<longrightarrow> work z' (drop used avail) < work z avail))"

lemma deflate_call:
  assumes "deflate_contract deflate good decodes work" and "good phase z fed made" and "may_call phase flush avail" and "0 < room"
    and "deflate z flush avail room = (ret, z', used, out)"
  shows "ret \<noteq> Z_STREAM_ERROR" "flush = Z_SYNC_FLUSH \<Longrightarrow> ret = Z_OK" "used \<le> length avail" "length out \<le> room"
    "length out < room \<Longrightarrow> used = length avail" "length out < room \<Longrightarrow> decodes flush (made @ out) (fed @ avail)"
    "length out < room \<Longrightarrow> flush = Z_SYNC_FLUSH \<Longrightarrow> good Between z' (fed @ avail) (made @ out)"
    "length out = room \<Longrightarrow> good (Within flush (drop used avail)) z' (fed @ take used avail) (made @ out)"
    "length out = room \<Longrightarrow> work flush z' (drop used avail) + room \<le> work flush z avail + 6"
  using assms unfolding deflate_contract_def by blast+

lemma inflate_call:
  assumes "inflate_contract inflate stream content good work" and "good z fed made" and "0 < room"
    and "prefix (fed @ avail) stream" and "inflate z Z_NO_FLUSH avail room = (ret, z', used, out)"
  shows "ret \<in> {Z_OK, Z_STREAM_END, Z_BUF_ERROR}" "used \<le> length avail" "length out \<le> room"
    "good z' (fed @ take used avail) (made @ out)"
    "length out < room \<Longrightarrow> used = length avail"
    "length out < room \<Longrightarrow> ret = Z_STREAM_END \<longleftrightarrow> fed @ avail = stream"
    "length out < room \<Longrightarrow> fed @ avail = stream \<Longrightarrow> made @ out = content"
    "length out = room \<Longrightarrow> work z' (drop used avail) < work z avail"
  using assms unfolding inflate_contract_def by blast+

section \<open>Compressing a string\<close>

lemma sint_of_nat_mod:
  assumes "n mod 2 ^ 32 = m" and "m < 2 ^ 31"
  shows "sint (word_of_nat n :: 32 word) = int m"
proof -
  have "(word_of_nat n :: 32 word) = word_of_nat m"
    using assms(1) by (simp add: word_of_nat_eq_iff take_bit_eq_mod)
  then show ?thesis
    using assms(2) by (simp add: signed_of_nat signed_take_bit_int_eq_self)
qed

lemma sint_of_nat_small: "n < 2 ^ 31 \<Longrightarrow> sint (word_of_nat n :: 32 word) = int n"
  by (rule sint_of_nat_mod) simp_all

lemma deflate_chunk_feeds:
  assumes "deflate_contract deflate good decodes work" and "good phase z fed made" and "may_call phase flush avail"
  shows "\<exists>z' made'. deflate_chunk deflate flush z avail made = Some (0, z', made')
    \<and> (flush = Z_SYNC_FLUSH \<longrightarrow> good Between z' (fed @ avail) made') \<and> decodes flush made' (fed @ avail)"
  using assms(2,3)
proof (induction "work flush z avail" arbitrary: phase z avail fed made rule: less_induct)
  case less
  obtain ret z1 used out where c: "deflate z flush avail CHUNK = (ret, z1, used, out)"
    by (cases "deflate z flush avail CHUNK")
  have room: "0 < CHUNK" "6 < CHUNK" by (simp_all add: CHUNK_def)
  note call = deflate_call [OF assms(1) less.prems room(1) c]
  show ?case
  proof (cases "length out = CHUNK")
    case True
    have "work flush z1 (drop used avail) < work flush z avail" using call(9) [OF True] room(2) by simp
    from less.hyps [OF this call(8) [OF True]] call(1) True c
    show ?thesis by (subst deflate_chunk.simps) simp
  next
    case False
    with call(4) have lt: "length out < CHUNK" by simp
    with call(1,5,6,7) c show ?thesis by (subst deflate_chunk.simps) auto
  qed
qed

lemma compress_loop_feeds:
  assumes "deflate_contract deflate good decodes work" and "good Between z (take copied input) made"
    and "int_of_size input = int n" and "copied \<le> n" and "n \<le> length input" and "n < 2 ^ 31"
    and "n = length input \<or> CHUNK dvd n - copied \<and> copied < n"
  shows "\<exists>out. compress_loop deflate input copied z made = Some (0, out) \<and> decodes Z_FINISH out (take n input)"
  using assms(2,4,7)
proof (induction "n - copied" arbitrary: z copied made rule: less_induct)
  case less
  let ?avail = "take CHUNK (drop copied input)"
  let ?copied = "copied + length ?avail"
  let ?flush = "if int_of_size input = int ?copied then Z_FINISH else Z_SYNC_FLUSH"
  have fed: "take copied input @ ?avail = take ?copied input"
    by (simp add: take_add min_def)
  have le: "?copied \<le> n"
  proof (cases "n = length input")
    case False
    with less.prems(3) have "CHUNK \<le> n - copied" by (simp add: dvd_imp_le)
    then show ?thesis using assms(5) less.prems(2) by simp
  qed (use less.prems(2) in simp)
  have may: "may_call Between ?flush ?avail"
  proof (cases "?copied = n")
    case True
    with assms(3) have "?flush = Z_FINISH" by presburger
    then show ?thesis by (simp only: may_call.simps simp_thms)
  next
    case False
    with assms(3) have sync: "?flush = Z_SYNC_FLUSH" by auto
    have "?avail \<noteq> []"
    proof
      assume none: "?avail = []"
      then have "length input \<le> copied" by (simp add: CHUNK_def)
      with less.prems(2) assms(5) have "copied = n" by simp
      with False none show False by simp
    qed
    then show ?thesis unfolding sync may_call.simps by blast
  qed
  from deflate_chunk_feeds [OF assms(1) less.prems(1) may, unfolded fed] obtain z' made' where run: "deflate_chunk deflate ?flush z ?avail made = Some (0, z', made')"
    "?flush = Z_SYNC_FLUSH \<longrightarrow> good Between z' (take ?copied input) made'" "decodes ?flush made' (take ?copied input)" by blast
  have small: "\<not> 2 ^ 31 \<le> ?copied" using le assms(6) by linarith
  have step: "compress_loop deflate input copied z made = (if ?flush \<noteq> Z_FINISH
      then compress_loop deflate input ?copied z' made' else Some (0, made'))"
    by (subst compress_loop.simps) (simp only: Let_def if_not_P [OF small] run(1), simp)
  show ?case
  proof (cases "?copied = n")
    case True
    then show ?thesis using run(3) step assms(3) by simp
  next
    case False
    have shorter: "n - ?copied < n - copied"
      using le False assms(5) less.prems(2) by (auto simp: CHUNK_def)
    have "n = length input \<or> CHUNK dvd n - ?copied \<and> ?copied < n"
    proof (cases "n = length input")
      case False
      with less.prems(3) have d: "CHUNK dvd n - copied" "copied < n" by auto
      then have "CHUNK \<le> n - copied" by (simp add: dvd_imp_le)
      then have "length ?avail = CHUNK" using assms(5) by simp
      then have "CHUNK dvd n - ?copied" using dvd_diff_nat [OF d(1) dvd_refl] by simp
      with le \<open>?copied \<noteq> n\<close> show ?thesis by simp
    qed simp
    moreover have "good Between z' (take ?copied input) made'" using run(2) False assms(3) by simp
    ultimately obtain out where
      "compress_loop deflate input ?copied z' made' = Some (0, out)" "decodes Z_FINISH out (take n input)"
      using less.hyps [OF shorter _ le] by blast
    then show ?thesis using step False assms(3) by simp
  qed
qed

lemma compress_string_feeds:
  assumes "deflate_contract deflate good decodes work" and "open_deflate (- MAX_WBITS) = Some z" and "good Between z [] []"
    and "length input < 2 ^ 31"
  shows "\<exists>out. compress_string open_deflate deflate input = Some (0, out) \<and> decodes Z_FINISH out input"
proof -
  have "int_of_size input = int (length input)"
    using assms(4) by (simp add: int_of_size_def sint_of_nat_small)
  then show ?thesis
    using compress_loop_feeds [OF assms(1), of z 0 input "[]" "length input"] assms(2-4)
    by (simp add: compress_string_def)
qed

text \<open>C30: A string of less than 2 GB: \<open>compress\<close> returns 0, it ends, and its output is a complete stream that
  decodes to the whole input: every chunk has been fed, in order and to the end, and every full buffer
  has been appended to the output. \<open>deflate\<close> is any function with the contract of zlib's manual, which asks nothing
  of calls outside the caller's rules: that \<open>compress\<close> makes none is part of the proof.\<close>

theorem compress_feeds_everything:
  assumes "deflate_contract deflate good decodes work" and "open_deflate (- MAX_WBITS) = Some z" and "good Between z [] []"
    and "length input < 2 ^ 31"
  shows "\<exists>out. compress_string open_deflate deflate input = Some (0, out) \<and> decodes Z_FINISH out input"
  by (rule compress_string_feeds [where open_deflate = open_deflate, OF assms])

text \<open>The size is read into an \<open>int\<close>. Of a string of 4 GB and \<open>n\<close> bytes, \<open>n\<close> a multiple of the
  chunk size, \<open>compress\<close> takes the first \<open>n\<close> bytes, finishes the stream there and returns 0: the
  output decodes to those bytes and the rest is lost without an error.\<close>

theorem compress_truncates_huge:
  assumes "deflate_contract deflate good decodes work" and "open_deflate (- MAX_WBITS) = Some z" and "good Between z [] []"
    and "length input = 2 ^ 32 + n" and "CHUNK dvd n" and "0 < n" and "n < 2 ^ 31"
  shows "\<exists>out. compress_string open_deflate deflate input = Some (0, out) \<and> decodes Z_FINISH out (take n input)"
proof -
  have "int_of_size input = int n"
    unfolding int_of_size_def by (rule sint_of_nat_mod) (use assms(4,7) in simp_all)
  then show ?thesis
    using compress_loop_feeds [OF assms(1), of z 0 input "[]" n] assms(2-7)
    by (simp add: compress_string_def)
qed

section \<open>Decompressing a string\<close>

lemma inflate_chunk_reads:
  assumes "inflate_contract inflate stream content good work" and "good z fed made" and "prefix (fed @ avail) stream"
  shows "\<exists>z' ret made'. inflate_chunk inflate z avail made = Some (Inr ret, z', made')
    \<and> good z' (fed @ avail) made' \<and> (ret = Z_STREAM_END \<longleftrightarrow> fed @ avail = stream)
    \<and> (fed @ avail = stream \<longrightarrow> made' = content)"
  using assms(2,3)
proof (induction "work z avail" arbitrary: z avail fed made rule: less_induct)
  case less
  obtain ret z1 used out where c: "inflate z Z_NO_FLUSH avail CHUNK = (ret, z1, used, out)"
    by (cases "inflate z Z_NO_FLUSH avail CHUNK")
  have room: "0 < CHUNK" by (simp add: CHUNK_def)
  note call = inflate_call [OF assms(1) less.prems(1) room less.prems(2) c]
  have ret: "ret \<noteq> Z_STREAM_ERROR" "ret \<noteq> Z_NEED_DICT" "ret \<noteq> Z_DATA_ERROR" "ret \<noteq> Z_MEM_ERROR"
    using call(1) by (auto simp: z_codes)
  show ?case
  proof (cases "length out = CHUNK")
    case True
    from less.hyps [OF call(8) [OF True] call(4)] less.prems(2) ret True c
    show ?thesis by (subst inflate_chunk.simps) simp
  next
    case False
    with call(3) have lt: "length out < CHUNK" by simp
    with call(4-7) ret c show ?thesis by (subst inflate_chunk.simps) auto
  qed
qed

lemma uncompress_loop_reads:
  assumes "inflate_contract inflate stream content good work" and "prefix input stream" and "length input < 2 ^ 31"
    and "good z (take copied input) made" and "copied \<le> length input" and "ret \<noteq> Z_STREAM_END"
    and "input = stream \<Longrightarrow> copied < length input"
  shows "\<exists>out. uncompress_loop inflate input copied z ret made = Some (if input = stream then 0 else -1, out)
    \<and> (input = stream \<longrightarrow> out = content)"
  using assms(4-)
proof (induction "length input - copied" arbitrary: z copied made ret rule: less_induct)
  case less
  let ?avail = "take CHUNK (drop copied input)"
  let ?copied = "copied + length ?avail"
  show ?case
  proof (cases "?avail = []")
    case True
    then have "copied = length input" using less.prems(2) by (simp add: CHUNK_def)
    moreover from this have "input \<noteq> stream" using less.prems(4) by blast
    ultimately show ?thesis using less.prems(3) assms(3) by (subst uncompress_loop.simps) simp
  next
    case False
    have fed: "take copied input @ ?avail = take ?copied input"
      by (simp add: take_add min_def)
    have le: "?copied \<le> length input" using less.prems(2) by simp
    have pre: "prefix (take ?copied input) stream" using assms(2) take_is_prefix prefix_order.trans by blast
    obtain z' r made' where run: "inflate_chunk inflate z ?avail made = Some (Inr r, z', made')"
      "good z' (take ?copied input) made'" "r = Z_STREAM_END \<longleftrightarrow> take ?copied input = stream"
      "take ?copied input = stream \<longrightarrow> made' = content"
      using inflate_chunk_reads [OF assms(1) less.prems(1), of ?avail] pre unfolding fed by blast
    have whole: "take ?copied input = stream \<Longrightarrow> input = stream"
      using assms(2) by (metis prefix_order.antisym take_is_prefix)
    show ?thesis
    proof (cases "r = Z_STREAM_END")
      case True
      then show ?thesis using run whole assms(3) le False by (subst uncompress_loop.simps) (simp add: Let_def)
    next
      case r: False
      have shorter: "length input - ?copied < length input - copied"
        using False less.prems(2) by (cases "copied = length input") (auto simp: CHUNK_def)
      have "input = stream \<Longrightarrow> ?copied < length input"
        using r run(3) le by (cases "?copied = length input") auto
      from less.hyps [OF shorter run(2) le r this] obtain out where
        "uncompress_loop inflate input ?copied z' r made' = Some (if input = stream then 0 else -1, out)"
        "input = stream \<longrightarrow> out = content" by blast
      then show ?thesis using run(1) r assms(3) le False
        by (subst uncompress_loop.simps) (simp add: Let_def)
    qed
  qed
qed

text \<open>C34: For a stream that \<open>inflate\<close> accepts, of less than 2 GB, \<open>uncompress\<close> ends, returns 0 and
  gives exactly its content; for a stream that has been cut short it returns -1.\<close>

theorem uncompress_reads_stream:
  assumes "inflate_contract inflate stream content good work" and "good z [] []" and "stream \<noteq> []"
    and "prefix input stream" and "length input < 2 ^ 31"
  shows "\<exists>out. uncompress_string (Inr z) inflate input = Some (if input = stream then 0 else -1, out)
    \<and> (input = stream \<longrightarrow> out = content)"
  using uncompress_loop_reads [OF assms(1,4,5), of z 0 "[]" Z_OK] assms(2,3)
  by (simp add: uncompress_string_def z_codes)

section \<open>Compressing into a buffer\<close>

lemma write_at_simps:
  assumes "take pos buf = old" and "length old = pos" and "pos + length made \<le> length buf"
  shows "length (write_at pos made buf) = length buf"
    "take (pos + length made) (write_at pos made buf) = old @ made"
  using assms by (auto simp: write_at_def)

text \<open>After \<open>k\<close> full buffers, with up to 1 GB to be made.\<close>

lemma buffer_loop_feeds:
  assumes "deflate_contract deflate good decodes work"
    and "good phase z fed made" and "may_call phase Z_SYNC_FLUSH avail" and "fed @ avail = input" and "take (length made) buf = made"
    and "length made < length buf" and "13 \<le> length buf \<longrightarrow> length made + 6 < length buf" and "2 ^ k \<le> length buf"
    and "length buf < 2 ^ 31" and "length made + work Z_SYNC_FLUSH z avail \<le> 10 ^ 9 + 6 * k"
  shows "\<exists>n buf'. buffer_loop deflate junk z avail (length made) (length buf - length made) (length made) (length buf) buf
      = Some (int n, buf') \<and> n \<le> length buf' \<and> n < 2 ^ 31 \<and> decodes Z_SYNC_FLUSH (take n buf') input"
  using assms(2-)
proof (induction "(13 - length buf, work Z_SYNC_FLUSH z avail)" arbitrary: phase z avail fed made buf k
    rule: wf_induct_rule [OF wf_lex_prod [OF wf_less_than wf_less_than]])
  case 1
  note less = this
  let ?room = "length buf - length made"
  obtain err z1 used out where c: "deflate z Z_SYNC_FLUSH avail ?room = (err, z1, used, out)"
    by (cases "deflate z Z_SYNC_FLUSH avail ?room")
  have room: "0 < ?room" using less(6) by simp
  note call = deflate_call [OF assms(1) less(2,3) room c]
  have fit: "length made + length out \<le> length buf" using call(4) less(6) by simp
  let ?buf = "write_at (length made) out buf"
  note w = write_at_simps [OF less(5) refl fit]
  show ?case
  proof (cases "length out = ?room")
    case True
    let ?cap = "length buf" and ?new = "?buf @ replicate (length buf) junk"
    have full: "length made + length out = ?cap" using True room by simp
    have more: "length (made @ out) + work Z_SYNC_FLUSH z1 (drop used avail) \<le> 10 ^ 9 + 6 * Suc k"
      using call(9) [OF True] less(10) True by simp
    have "(2 :: nat) ^ k < 2 ^ 31" using less(8,9) by (rule le_less_trans)
    then have "k < 31" by (rule power_less_imp_less_exp [rotated]) simp
    then have "?cap < 2 ^ 30" using more full by simp
    then have size: "length ?new < 2 ^ 31" using w(1) by simp
    have fed: "(fed @ take used avail) @ drop used avail = input" using less(4) by simp
    have "take (length (made @ out)) ?new = made @ out" using w full by simp
    moreover have "length (made @ out) < length ?new" using w(1) full room by (cases buf) auto
    moreover have "13 \<le> length ?new \<longrightarrow> length (made @ out) + 6 < length ?new" using w(1) full by simp
    moreover have "2 ^ Suc k \<le> length ?new" using w(1) less(8) by simp
    moreover have "((13 - length ?new, work Z_SYNC_FLUSH z1 (drop used avail)), 13 - ?cap, work Z_SYNC_FLUSH z avail)
        \<in> less_than <*lex*> less_than"
      using call(9) [OF True] less(7) room w(1) by auto
    ultimately obtain n buf' where "buffer_loop deflate junk z1 (drop used avail) (length (made @ out))
        (length ?new - length (made @ out)) (length (made @ out)) (length ?new) ?new = Some (int n, buf')"
      "n \<le> length buf'" "n < 2 ^ 31" "decodes Z_SYNC_FLUSH (take n buf') input"
      using less(1) [OF _ call(8) [OF True] _ fed, of ?new "Suc k"] size more by auto
    moreover have "\<not> 2 ^ 31 \<le> ?cap * BUFFER_INC_FACTOR" using \<open>?cap < 2 ^ 30\<close> by (simp add: BUFFER_INC_FACTOR_def)
    ultimately show ?thesis using call(2) c True w(1) full
      by (subst buffer_loop.simps) (simp add: Let_def BUFFER_INC_FACTOR_def mult_2_right)
  next
    case False
    with call(4) have lt: "length out < ?room" by simp
    have small: "length made + length out < 2 ^ 31" using fit less(9) by simp
    have "buffer_loop deflate junk z avail (length made) ?room (length made) (length buf) buf
        = Some (int (length made + length out), ?buf)"
      using call(2) c lt small sint_of_nat_small [of "length made + length out"]
      by (subst buffer_loop.simps) (simp add: Let_def diff_is_0_eq [symmetric] del: of_nat_add diff_is_0_eq)
    moreover have "decodes Z_SYNC_FLUSH (take (length made + length out) ?buf) input"
      using call(6) [OF lt] w(2) less(4) by simp
    ultimately show ?thesis using w(1) fit small by metis
  qed
qed

lemma compress_buffer_result:
  assumes "deflate_contract deflate good decodes work" and "open_deflate (- MAX_WBITS) = Some z" and "good Between z [] []"
    and "work Z_SYNC_FLUSH z input \<le> 10 ^ 9"
    and "fst (deflate z Z_SYNC_FLUSH [] 0) \<noteq> Z_OK"
  shows "\<exists>n buf. compress_buffer open_deflate deflate junk input = Some (n, buf) \<and> n < 2 ^ 31
    \<and> (if input = [] \<or> 2 ^ 31 \<le> length input then n = -1
       else 0 \<le> n \<and> nat n \<le> length buf \<and> decodes Z_SYNC_FLUSH (take (nat n) buf) input)"
proof (cases "input = [] \<or> 2 ^ 31 \<le> length input")
  case True
  then show ?thesis using assms(2,5)
    by (auto simp: compress_buffer_def buffer_loop.simps [of deflate junk z "[]" 0 0 0 0] Let_def split: prod.splits)
next
  case False
  note loop = buffer_loop_feeds [OF assms(1,3), where avail = input and buf = "replicate (length input) junk" and junk = junk and k = 0]
  from False obtain n buf where n: "compress_buffer open_deflate deflate junk input = Some (int n, buf)" "n \<le> length buf" "n < 2 ^ 31"
    "decodes Z_SYNC_FLUSH (take n buf) input"
    using loop assms(2,4) by (auto simp: compress_buffer_def Suc_le_eq)
  then have "int n < 2 ^ 31" by simp
  with n False show ?thesis by auto
qed

text \<open>Compressing into a fresh buffer, an input of which there are at most 10 ^ 9 bytes to be made: \<open>compress\<close> ends and returns a length
  within the buffer, and so many bytes of the buffer, which has been doubled in place as often as it was
  full, decode to the whole input (the stream is flushed, but never finished). Nothing to compress is an
  error: the buffer has no room, \<open>deflate\<close> complains, and the result is -1, as it is for an input from 2 GB on.\<close>

theorem compress_buffer_feeds:
  assumes "deflate_contract deflate good decodes work" and "open_deflate (- MAX_WBITS) = Some z" and "good Between z [] []"
    and "work Z_SYNC_FLUSH z input \<le> 10 ^ 9"
    and "fst (deflate z Z_SYNC_FLUSH [] 0) \<noteq> Z_OK"
  shows "\<exists>n buf. compress_buffer open_deflate deflate junk input = Some (n, buf)
    \<and> (if input = [] \<or> 2 ^ 31 \<le> length input then n = -1
       else 0 \<le> n \<and> nat n \<le> length buf \<and> decodes Z_SYNC_FLUSH (take (nat n) buf) input)"
  using compress_buffer_result [where open_deflate = open_deflate, OF assms] by blast

section \<open>What one function writes and the other reads\<close>

text \<open>
  \<open>compress\<close> asks for a negative \<open>windowBits\<close>, which is raw deflate data (RFC 1951): a stream begins with a
  block header of three bits, and behind that of a stored block that is not the last one \<open>deflate\<close> fills the byte with
  zero bits. \<open>inflateInit\<close> is for the zlib format (RFC 1950), whose first byte has 8 in its lower half and
  whose first two bytes are a multiple of 31, and \<open>inflate\<close> gives \<open>Z_DATA_ERROR\<close> for any other head.
\<close>

definition raw_head :: "bytes \<Rightarrow> bool" where
  "raw_head m \<longleftrightarrow> 2 \<le> length m \<and> (m ! 0 AND 7 = 0 \<longrightarrow> m ! 0 = 0)"

definition zlib_head :: "bytes \<Rightarrow> bool" where
  "zlib_head m \<longleftrightarrow> m ! 0 AND 15 = 8 \<and> (256 * unat (m ! 0) + unat (m ! 1)) mod 31 = 0"

definition checks_head :: "'z coder \<Rightarrow> 'z \<Rightarrow> bool" where
  "checks_head inflate z \<longleftrightarrow> (\<forall>avail room. 0 < room \<longrightarrow> 2 \<le> length avail \<longrightarrow> \<not> zlib_head avail \<longrightarrow>
     fst (inflate z Z_NO_FLUSH avail room) = Z_DATA_ERROR)"

lemma raw_not_zlib:
  assumes "raw_head m"
  shows "\<not> zlib_head m"
proof
  assume "zlib_head m"
  then have "m ! 0 AND 15 = 8" by (simp add: zlib_head_def)
  moreover have "m ! 0 AND 7 = (m ! 0 AND 15) AND 7" by (simp add: and.assoc)
  ultimately show False using assms by (auto simp: raw_head_def)
qed

lemma uncompress_raw:
  assumes "raw_head stream" and "checks_head inflate z"
  shows "uncompress_string (Inr z) inflate stream = Some (Z_DATA_ERROR, [])"
proof -
  let ?avail = "take CHUNK stream"
  have avail: "2 \<le> length ?avail" "?avail ! 0 = stream ! 0" "?avail ! 1 = stream ! 1" "length ?avail < 2 ^ 31"
    using assms(1) by (auto simp: raw_head_def CHUNK_def)
  then have "\<not> zlib_head ?avail" using raw_not_zlib [OF assms(1)] by (simp add: zlib_head_def)
  moreover have "0 < CHUNK" by (simp add: CHUNK_def)
  ultimately have err: "fst (inflate z Z_NO_FLUSH ?avail CHUNK) = Z_DATA_ERROR"
    using assms(2) avail(1) unfolding checks_head_def by blast
  obtain ret z' used made where "inflate z Z_NO_FLUSH ?avail CHUNK = (ret, z', used, made)"
    by (cases "inflate z Z_NO_FLUSH ?avail CHUNK")
  with err have "inflate_chunk inflate z ?avail [] = Some (Inl Z_DATA_ERROR, z', [])"
    by (subst inflate_chunk.simps) (simp add: z_codes)
  moreover have "?avail \<noteq> []" using avail(1) by (intro notI) (simp del: take_eq_Nil take_eq_Nil2 length_take)
  ultimately show ?thesis using avail(4)
    by (subst uncompress_string_def, subst uncompress_loop.simps) (simp add: Let_def CHUNK_def del: take_eq_Nil take_eq_Nil2)
qed

text \<open>The two functions are not inverse to one another: what \<open>compress\<close> makes of a string of less than 2 GB, with
  result 0, \<open>uncompress\<close> refuses with \<open>Z_DATA_ERROR\<close> at the first two bytes, whatever the string, and gives nothing.\<close>

theorem uncompress_rejects_compressed:
  assumes "deflate_contract deflate good decodes work" and "open_deflate (- MAX_WBITS) = Some z" and "good Between z [] []"
    and "length input < 2 ^ 31"
    and "\<And>m. decodes Z_FINISH m input \<Longrightarrow> raw_head m" and "checks_head inflate y"
  shows "\<exists>out. compress_string open_deflate deflate input = Some (0, out)
    \<and> uncompress_string (Inr y) inflate out = Some (Z_DATA_ERROR, [])"
  using compress_string_feeds [where open_deflate = open_deflate, OF assms(1-4)] uncompress_raw [OF _ assms(6)] assms(5) by blast

section \<open>Instances\<close>

text \<open>A coder that copies behind a lead that it is set up with, and one that reads a stream of known length.\<close>

definition stored :: "bytes coder" where
  "stored z flush avail room =
     (if room = 0 then Z_BUF_ERROR
      else if flush = Z_FINISH \<and> length (z @ avail) < room then Z_STREAM_END else Z_OK,
      drop room (z @ avail), length avail, take room (z @ avail))"

definition stored_good :: "bytes \<Rightarrow> z_phase \<Rightarrow> bytes \<Rightarrow> bytes \<Rightarrow> bytes \<Rightarrow> bool" where
  "stored_good lead phase z fed made \<longleftrightarrow> lead @ fed = made @ z"

definition stored_work :: "z_flush \<Rightarrow> bytes \<Rightarrow> bytes \<Rightarrow> nat" where
  "stored_work flush z avail = length (z @ avail)"

lemma stored_contract: "deflate_contract stored (stored_good lead) (\<lambda>_ m f. m = lead @ f) stored_work"
  unfolding deflate_contract_def stored_def stored_good_def stored_work_def
  by (auto simp: z_codes simp del: take_append drop_append)

lemma stored_init: "stored_good lead Between lead [] []"
  by (simp add: stored_good_def)

definition init_with :: "bytes \<Rightarrow> int \<Rightarrow> bytes option" where
  "init_with lead windowBits = (if windowBits = - MAX_WBITS then Some lead else None)"

lemma init_with_raw [simp]: "init_with lead (- MAX_WBITS) = Some lead"
  by (simp add: init_with_def)

text \<open>The state counts the bytes that have been consumed and keeps those not yet given out.\<close>

definition block_reader :: "nat \<Rightarrow> (nat \<times> bytes) coder" where
  "block_reader whole z flush avail room =
     (case z of (n, pending) \<Rightarrow>
       (if n + length avail = whole \<and> length (pending @ avail) < room then Z_STREAM_END else Z_OK,
        (n + length avail, drop room (pending @ avail)), length avail, take room (pending @ avail)))"

definition block_good :: "nat \<times> bytes \<Rightarrow> bytes \<Rightarrow> bytes \<Rightarrow> bool" where
  "block_good z fed made \<longleftrightarrow> fst z = length fed \<and> fed = made @ snd z"

definition block_work :: "nat \<times> bytes \<Rightarrow> bytes \<Rightarrow> nat" where
  "block_work z avail = length (snd z @ avail)"

lemma block_contract: "inflate_contract (block_reader (length content)) content content block_good block_work"
  unfolding inflate_contract_def
proof (intro allI impI)
  fix z fed made avail room ret z' used out
  assume good: "block_good z fed made" and room: "0 < room" and pre: "prefix (fed @ avail) content"
    and call: "block_reader (length content) z Z_NO_FLUSH avail room = (ret, z', used, out)"
  obtain p where z: "z = (length fed, p)" "fed = made @ p"
    using good by (cases z) (auto simp: block_good_def)
  have whole: "length fed + length avail = length content \<longleftrightarrow> fed @ avail = content"
    using pre by (auto simp: prefix_def)
  show "ret \<in> {Z_OK, Z_STREAM_END, Z_BUF_ERROR} \<and> used \<le> length avail \<and> length out \<le> room
    \<and> block_good z' (fed @ take used avail) (made @ out)
    \<and> (length out < room \<longrightarrow> used = length avail \<and> (ret = Z_STREAM_END \<longleftrightarrow> fed @ avail = content)
         \<and> (fed @ avail = content \<longrightarrow> made @ out = content))
    \<and> (length out = room \<longrightarrow> block_work z' (drop used avail) < block_work z avail)"
    using call z room whole
    by (auto simp: block_reader_def block_good_def block_work_def z_codes split: if_splits
        simp del: take_append drop_append)
qed

definition huge :: bytes where
  "huge = replicate (2 ^ 32 + CHUNK) 7"

theorem compress_feeds_everything_witness:
  "\<exists>out. compress_string (init_with []) stored (replicate 5000 7) = Some (0, out) \<and> out = replicate 5000 7"
  by (rule compress_feeds_everything [where open_deflate = "init_with []", OF stored_contract [of "[]", simplified] init_with_raw stored_init]) simp

theorem compress_truncates_huge_witness:
  "\<exists>out. compress_string (init_with []) stored huge = Some (0, out) \<and> out = replicate CHUNK 7"
proof -
  have "length huge = 2 ^ 32 + CHUNK" by (simp add: huge_def)
  from compress_truncates_huge [where open_deflate = "init_with []", OF stored_contract [of "[]", simplified] init_with_raw stored_init this] show ?thesis
    by (simp add: CHUNK_def huge_def)
qed

theorem uncompress_reads_stream_witness:
  "\<exists>out. uncompress_string (Inr (0, [])) (block_reader 5000) (replicate 5000 7) = Some (0, out)
     \<and> out = replicate 5000 7"
  using uncompress_reads_stream [OF block_contract [of "replicate 5000 7"], of "(0, [])" "replicate 5000 7"]
  by (simp add: block_good_def)

theorem compress_buffer_feeds_witness:
  "\<exists>n buf. compress_buffer (init_with []) stored 0 [1, 2, 3] = Some (n, buf) \<and> take (nat n) buf = [1, 2, 3]"
proof -
  have "stored_work Z_SYNC_FLUSH [] [1, 2, 3] \<le> 10 ^ 9" by (simp add: stored_work_def)
  moreover have "fst (stored [] Z_SYNC_FLUSH [] 0) \<noteq> Z_OK" by (simp add: stored_def z_codes)
  ultimately show ?thesis using compress_buffer_feeds [where open_deflate = "init_with []", OF stored_contract [of "[]", simplified] init_with_raw stored_init, of "[1, 2, 3]" 0]
    by fastforce
qed

text \<open>A reader that looks at the head first.\<close>

definition head_checker :: "(nat \<times> bytes) coder" where
  "head_checker z flush avail room =
     (if 2 \<le> length avail \<and> \<not> zlib_head avail then (Z_DATA_ERROR, z, 0, []) else block_reader 0 z flush avail room)"

lemma head_checker_checks: "checks_head head_checker z"
  by (simp add: checks_head_def head_checker_def)

theorem uncompress_rejects_compressed_witness:
  "\<exists>out. compress_string (init_with [1, 0]) stored [5, 6, 7] = Some (0, out)
    \<and> uncompress_string (Inr (0, [])) head_checker out = Some (Z_DATA_ERROR, [])"
  using uncompress_rejects_compressed [where open_deflate = "init_with [1, 0]" and input = "[5, 6, 7]",
    OF stored_contract init_with_raw stored_init _ _ head_checker_checks, of "(0, [])"]
  by (simp add: raw_head_def)

end
