(* ===== verification/Singleton.thy ===== *)
theory Singleton
  imports NbPrelude
begin

text \<open>
  \<open>singleton_t\<close> of mylib/utility/singleton.h in its two versions: a static object in the function (the one that
  is compiled, \<open>BOOST_SINGLETON\<close> is defined), and \<open>pthread_once\<close> with an object on the heap.

  Any number of threads call \<open>instance\<close>. A thread's program counter says where in the call it is; a step is one
  statement of one thread, in any interleaving. The guard of the static object, which the language requires, and
  the control of \<open>pthread_once\<close> are the same: the first thread that comes runs the initialisation, those that
  come meanwhile wait.
\<close>

section \<open>Threads in a call\<close>

type_synonym thread = nat

datatype once_control = Once_init | Once_running thread | Once_done

datatype inst_pc =
    Outside
  | Constructing
  | Registering
  | Returning
  | Returned ptr
  | Crashed

section \<open>The version with \<open>pthread_once\<close>\<close>

text \<open>The static members, the objects of the class that are alive, how many were ever constructed, how often
  \<open>destroy\<close> is registered with \<open>atexit\<close>, and the program counters.\<close>

record once_world =
  m_ponce :: once_control
  m_instance :: "ptr option"
  ow_alive :: "ptr set"
  ow_built :: nat
  ow_atexit :: nat
  ow_pc :: "thread \<Rightarrow> inst_pc"

definition init_once_world :: once_world where
  "init_once_world = \<lparr>m_ponce = Once_init, m_instance = None, ow_alive = {}, ow_built = 0, ow_atexit = 0,
     ow_pc = (\<lambda>_. Outside)\<rparr>"

definition goes_to :: "thread \<Rightarrow> inst_pc \<Rightarrow> once_world \<Rightarrow> once_world" where
  "goes_to t pc w = w\<lparr>ow_pc := (ow_pc w)(t := pc)\<rparr>"

text \<open>\<open>init\<close>, in two statements; \<open>p\<close> is the address that \<open>new\<close> gives.\<close>

definition singleton_new :: "thread \<Rightarrow> ptr \<Rightarrow> once_world \<Rightarrow> once_world option" where
  "singleton_new t p w = (if p \<in> ow_alive w then None
     else Some (goes_to t Registering (w\<lparr>m_instance := Some p, ow_alive := insert p (ow_alive w),
       ow_built := Suc (ow_built w)\<rparr>)))"

definition singleton_register :: "thread \<Rightarrow> once_world \<Rightarrow> once_world" where
  "singleton_register t w = goes_to t Returning (w\<lparr>ow_atexit := Suc (ow_atexit w), m_ponce := Once_done\<rparr>)"

text \<open>\<open>destroy\<close>, which \<open>exit\<close> runs as often as it is registered.\<close>

definition singleton_destroy :: "once_world \<Rightarrow> once_world" where
  "singleton_destroy w = (case m_instance w of None \<Rightarrow> w
     | Some p \<Rightarrow> w\<lparr>ow_alive := ow_alive w - {p}, m_instance := None\<rparr>)"

definition once_exit :: "once_world \<Rightarrow> once_world" where
  "once_exit w = ((singleton_destroy ^^ ow_atexit w) w)\<lparr>ow_atexit := 0\<rparr>"

text \<open>\<open>instance\<close>: one step of thread \<open>t\<close>. \<open>None\<close>: it has to wait. Returning dereferences
  \<open>m_instance\<close>.\<close>

definition once_instance_step :: "thread \<Rightarrow> ptr \<Rightarrow> once_world \<Rightarrow> once_world option" where
  "once_instance_step t p w = (case ow_pc w t of
      Outside \<Rightarrow> (case m_ponce w of
          Once_init \<Rightarrow> Some (goes_to t Constructing (w\<lparr>m_ponce := Once_running t\<rparr>))
        | Once_running _ \<Rightarrow> None
        | Once_done \<Rightarrow> Some (goes_to t Returning w))
    | Constructing \<Rightarrow> singleton_new t p w
    | Registering \<Rightarrow> Some (singleton_register t w)
    | Returning \<Rightarrow> Some (goes_to t (case m_instance w of None \<Rightarrow> Crashed | Some q \<Rightarrow> Returned q) w)
    | Returned _ \<Rightarrow> Some (goes_to t Outside w)
    | Crashed \<Rightarrow> None)"

inductive once_step :: "once_world \<Rightarrow> once_world \<Rightarrow> bool" where
  "once_instance_step t p w = Some v \<Longrightarrow> once_step w v"

inductive_cases once_stepE: "once_step w v"

section \<open>The version with a static object\<close>

text \<open>The object \<open>s_oT\<close> has a fixed address; \<open>st_alive\<close> is its lifetime.\<close>

record static_world =
  st_guard :: once_control
  st_alive :: bool
  st_built :: nat
  st_pc :: "thread \<Rightarrow> inst_pc"

definition init_static_world :: static_world where
  "init_static_world = \<lparr>st_guard = Once_init, st_alive = False, st_built = 0, st_pc = (\<lambda>_. Outside)\<rparr>"

definition static_instance_step :: "ptr \<Rightarrow> thread \<Rightarrow> static_world \<Rightarrow> static_world option" where
  "static_instance_step s_oT t w = (case st_pc w t of
      Outside \<Rightarrow> (case st_guard w of
          Once_init \<Rightarrow> Some (w\<lparr>st_guard := Once_running t, st_pc := (st_pc w)(t := Constructing)\<rparr>)
        | Once_running _ \<Rightarrow> None
        | Once_done \<Rightarrow> Some (w\<lparr>st_pc := (st_pc w)(t := Returning)\<rparr>))
    | Constructing \<Rightarrow> Some (w\<lparr>st_alive := True, st_built := Suc (st_built w), st_guard := Once_done,
        st_pc := (st_pc w)(t := Returning)\<rparr>)
    | Returning \<Rightarrow> Some (w\<lparr>st_pc := (st_pc w)(t := Returned s_oT)\<rparr>)
    | Returned _ \<Rightarrow> Some (w\<lparr>st_pc := (st_pc w)(t := Outside)\<rparr>)
    | _ \<Rightarrow> None)"

inductive static_step :: "ptr \<Rightarrow> static_world \<Rightarrow> static_world \<Rightarrow> bool" for s_oT where
  "static_instance_step s_oT t w = Some v \<Longrightarrow> static_step s_oT w v"

inductive_cases static_stepE: "static_step s_oT w v"

text \<open>The end of the program ends the lifetime of a static object that was constructed.\<close>

definition static_exit :: "static_world \<Rightarrow> static_world" where
  "static_exit w = w\<lparr>st_alive := False\<rparr>"

section \<open>One object\<close>

definition once_ok :: "once_world \<Rightarrow> bool" where
  "once_ok w \<longleftrightarrow> (case m_ponce w of
      Once_init \<Rightarrow> ow_built w = 0 \<and> ow_atexit w = 0 \<and> (\<forall>t. ow_pc w t = Outside)
    | Once_running r \<Rightarrow> (\<forall>t. t \<noteq> r \<longrightarrow> ow_pc w t = Outside) \<and> ow_atexit w = 0
        \<and> (ow_pc w r = Constructing \<and> ow_built w = 0
           \<or> ow_pc w r = Registering \<and> ow_built w = 1 \<and> (\<exists>p. m_instance w = Some p \<and> p \<in> ow_alive w))
    | Once_done \<Rightarrow> ow_built w = 1 \<and> ow_atexit w = 1
        \<and> (\<exists>p. m_instance w = Some p \<and> p \<in> ow_alive w
             \<and> (\<forall>t. ow_pc w t \<in> {Outside, Returning, Returned p})))"

text \<open>What the counter of one thread says of the control.\<close>

lemma once_ok_pc:
  assumes "once_ok w"
  shows "case ow_pc w t of
      Outside \<Rightarrow> True
    | Constructing \<Rightarrow> m_ponce w = Once_running t
    | Registering \<Rightarrow> m_ponce w = Once_running t
    | Returning \<Rightarrow> m_ponce w = Once_done
    | Returned p \<Rightarrow> m_ponce w = Once_done \<and> m_instance w = Some p
    | Crashed \<Rightarrow> False"
proof (cases "m_ponce w")
  case Once_init
  with assms show ?thesis by (simp add: once_ok_def)
next
  case (Once_running r)
  with assms show ?thesis by (cases "t = r") (auto simp: once_ok_def)
next
  case Once_done
  with assms obtain p where "m_instance w = Some p" "ow_pc w t \<in> {Outside, Returning, Returned p}"
    by (auto simp: once_ok_def)
  with Once_done show ?thesis by auto
qed

lemma once_ok_built: "once_ok w \<Longrightarrow> ow_built w \<le> 1"
  by (cases "m_ponce w") (auto simp: once_ok_def)

lemma once_instance_ok:
  assumes "once_ok w" and "once_instance_step t p w = Some v"
  shows "once_ok v"
proof (cases "ow_pc w t")
  case Outside
  with assms show ?thesis
    by (cases "m_ponce w") (auto simp: once_ok_def once_instance_step_def goes_to_def)
next
  case Constructing
  with assms once_ok_pc [OF assms(1), of t] show ?thesis
    by (auto simp: once_ok_def once_instance_step_def singleton_new_def goes_to_def split: if_splits)
next
  case Registering
  with assms once_ok_pc [OF assms(1), of t] show ?thesis
    by (auto simp: once_ok_def once_instance_step_def singleton_register_def goes_to_def)
next
  case Returning
  with assms once_ok_pc [OF assms(1), of t] show ?thesis
    by (auto simp: once_ok_def once_instance_step_def goes_to_def)
next
  case (Returned q)
  with assms once_ok_pc [OF assms(1), of t] show ?thesis
    by (auto simp: once_ok_def once_instance_step_def goes_to_def)
next
  case Crashed
  with assms show ?thesis by (simp add: once_instance_step_def)
qed

interpretation on: inductive_invariant "\<lambda>w. w = init_once_world" once_step once_ok
proof
  show "once_ok v" if "once_step w v" "once_ok w" for w v
    using that by (auto elim!: once_stepE intro: once_instance_ok)
qed (simp add: once_ok_def init_once_world_def)

definition static_ok :: "ptr \<Rightarrow> static_world \<Rightarrow> bool" where
  "static_ok s_oT w \<longleftrightarrow> (case st_guard w of
      Once_init \<Rightarrow> st_built w = 0 \<and> (\<forall>t. st_pc w t = Outside)
    | Once_running r \<Rightarrow> st_built w = 0 \<and> st_pc w r = Constructing \<and> (\<forall>t. t \<noteq> r \<longrightarrow> st_pc w t = Outside)
    | Once_done \<Rightarrow> st_built w = 1 \<and> st_alive w \<and> (\<forall>t. st_pc w t \<in> {Outside, Returning, Returned s_oT}))"

lemma static_ok_pc:
  assumes "static_ok s w"
  shows "case st_pc w t of
      Outside \<Rightarrow> True
    | Constructing \<Rightarrow> st_guard w = Once_running t
    | Returning \<Rightarrow> st_guard w = Once_done
    | Returned p \<Rightarrow> st_guard w = Once_done \<and> p = s \<and> st_alive w
    | _ \<Rightarrow> False"
proof (cases "st_guard w")
  case Once_init
  with assms show ?thesis by (simp add: static_ok_def)
next
  case (Once_running r)
  with assms show ?thesis by (cases "t = r") (auto simp: static_ok_def)
next
  case Once_done
  with assms have "st_pc w t \<in> {Outside, Returning, Returned s}" "st_alive w"
    by (auto simp: static_ok_def)
  with Once_done show ?thesis by auto
qed

lemma static_ok_built: "static_ok s w \<Longrightarrow> st_built w \<le> 1"
  by (cases "st_guard w") (auto simp: static_ok_def)

lemma static_instance_ok:
  assumes "static_ok s w" and "static_instance_step s t w = Some v"
  shows "static_ok s v"
proof (cases "st_pc w t")
  case Outside
  with assms show ?thesis by (cases "st_guard w") (auto simp: static_ok_def static_instance_step_def)
next
  case Constructing
  with assms static_ok_pc [OF assms(1), of t] show ?thesis
    by (auto simp: static_ok_def static_instance_step_def)
next
  case Returning
  with assms static_ok_pc [OF assms(1), of t] show ?thesis
    by (auto simp: static_ok_def static_instance_step_def)
next
  case (Returned q)
  with assms static_ok_pc [OF assms(1), of t] show ?thesis
    by (auto simp: static_ok_def static_instance_step_def)
qed (use assms in \<open>simp_all add: static_instance_step_def\<close>)

interpretation st: inductive_invariant "\<lambda>w. w = init_static_world" "static_step s_oT" "static_ok s_oT" for s_oT
proof
  show "static_ok s_oT v" if "static_step s_oT w v" "static_ok s_oT w" for w v
    using that by (auto elim!: static_stepE intro: static_instance_ok)
qed (simp add: static_ok_def init_static_world_def)

text \<open>C24: In every interleaving of calls of \<open>instance\<close> by any number of threads, and in both versions, the object is
  constructed at most once; no thread dereferences a null pointer; whenever a call has returned, the object
  is alive, and all calls have returned the same one; and a thread that must wait waits for one that can go on.\<close>

theorem one_instance:
  assumes "reach (\<lambda>w. w = init_once_world) once_step w" and "reach (\<lambda>v. v = init_static_world) (static_step s_oT) v"
  shows "ow_built w \<le> 1 \<and> ow_pc w t \<noteq> Crashed
    \<and> (\<forall>p. ow_pc w t = Returned p \<longrightarrow> p \<in> ow_alive w \<and> (\<forall>u q. ow_pc w u = Returned q \<longrightarrow> q = p))
    \<and> (ow_pc w t = Outside \<longrightarrow> once_instance_step t p w = None \<longrightarrow>
         (\<exists>u. m_ponce w = Once_running u \<and> (\<forall>p'. p' \<notin> ow_alive w \<longrightarrow> once_instance_step u p' w \<noteq> None)))
    \<and> st_built v \<le> 1 \<and> st_pc v t \<noteq> Crashed \<and> (\<forall>p. st_pc v t = Returned p \<longrightarrow> p = s_oT \<and> st_alive v)
    \<and> (static_instance_step s_oT t v = None \<longrightarrow> (\<exists>u. st_guard v = Once_running u \<and> static_instance_step s_oT u v \<noteq> None))"
proof -
  have w: "once_ok w" by (rule on.inv_reach [OF assms(1)])
  have v: "static_ok s_oT v" by (rule st.inv_reach [OF assms(2)])
  have "p \<in> ow_alive w \<and> (\<forall>u q. ow_pc w u = Returned q \<longrightarrow> q = p)" if "ow_pc w t = Returned p" for p
    proof -
    have "m_ponce w = Once_done" "m_instance w = Some p" using once_ok_pc [OF w, of t] that by simp_all
    moreover have "q = p" if "ow_pc w u = Returned q" for u q
      using once_ok_pc [OF w, of u] that \<open>m_instance w = Some p\<close> by simp
    ultimately show ?thesis using w by (auto simp: once_ok_def)
  qed
  moreover have "\<exists>u. m_ponce w = Once_running u \<and> (\<forall>p'. p' \<notin> ow_alive w \<longrightarrow> once_instance_step u p' w \<noteq> None)"
    if "ow_pc w t = Outside" "once_instance_step t p w = None"
    using that w by (cases "m_ponce w") (auto simp: once_ok_def once_instance_step_def singleton_new_def)
  moreover have "\<exists>u. st_guard v = Once_running u \<and> static_instance_step s_oT u v \<noteq> None"
    if "static_instance_step s_oT t v = None"
  proof -
    have "st_pc v t = Outside"
      using that static_ok_pc [OF v, of t] by (cases "st_pc v t") (simp_all add: static_instance_step_def)
    with that v show ?thesis by (cases "st_guard v") (auto simp: static_ok_def static_instance_step_def)
  qed
  moreover have "ow_pc w t \<noteq> Crashed" using once_ok_pc [OF w, of t] by auto
  moreover have "st_pc v t \<noteq> Crashed \<and> (\<forall>p. st_pc v t = Returned p \<longrightarrow> p = s_oT \<and> st_alive v)"
    using static_ok_pc [OF v, of t] by auto
  ultimately show ?thesis using once_ok_built [OF w] static_ok_built [OF v] by blast
qed

text \<open>After the end of the program has run \<open>destroy\<close>, a later call (of another object's destructor, or of a
  thread that still runs) does not construct a new object: with \<open>pthread_once\<close> it dereferences a null pointer, with
  the static object it returns the object whose lifetime is over.\<close>

theorem instance_after_exit:
  assumes "reach (\<lambda>w. w = init_once_world) once_step w" and "m_ponce w = Once_done" and "ow_pc w t = Outside"
    and "reach (\<lambda>v. v = init_static_world) (static_step s_oT) v" and "st_guard v = Once_done" and "st_pc v t = Outside"
  shows "(\<exists>w1 w2. once_instance_step t p (once_exit w) = Some w1 \<and> once_instance_step t p w1 = Some w2
      \<and> ow_pc w2 t = Crashed \<and> ow_built w2 = 1)
    \<and> (\<exists>v1 v2. static_instance_step s_oT t (static_exit v) = Some v1 \<and> static_instance_step s_oT t v1 = Some v2
      \<and> st_pc v2 t = Returned s_oT \<and> \<not> st_alive v2)"
proof -
  obtain q where w: "ow_built w = 1" "ow_atexit w = 1" "m_instance w = Some q"
    using on.inv_reach [OF assms(1)] assms(2) by (auto simp: once_ok_def)
  then have "once_exit w = w\<lparr>ow_alive := ow_alive w - {q}, m_instance := None, ow_atexit := 0\<rparr>"
    by (simp add: once_exit_def singleton_destroy_def)
  then show ?thesis using w assms(2,3,5,6)
    by (simp add: once_instance_step_def goes_to_def static_instance_step_def static_exit_def)
qed

section \<open>Instances\<close>

text \<open>Two threads: the second comes while the first constructs the object.\<close>

definition two_callers :: once_world where
  "two_callers = init_once_world\<lparr>m_ponce := Once_done, m_instance := Some 40, ow_alive := {40}, ow_built := 1,
     ow_atexit := 1, ow_pc := (\<lambda>_. Outside)(1 := Returned 40, 2 := Returned 40)\<rparr>"

fun once_schedule :: "(thread \<times> ptr) list \<Rightarrow> once_world \<Rightarrow> once_world option" where
  "once_schedule [] w = Some w"
| "once_schedule ((t, p) # ts) w = do { w \<leftarrow> once_instance_step t p w; once_schedule ts w }"

fun static_schedule :: "ptr \<Rightarrow> thread list \<Rightarrow> static_world \<Rightarrow> static_world option" where
  "static_schedule s [] w = Some w"
| "static_schedule s (t # ts) w = do { w \<leftarrow> static_instance_step s t w; static_schedule s ts w }"

lemma once_schedule_reach:
  "once_schedule ts w = Some v \<Longrightarrow> reach (\<lambda>w. w = init_once_world) once_step w
    \<Longrightarrow> reach (\<lambda>w. w = init_once_world) once_step v"
  by (induction ts w rule: once_schedule.induct)
    (auto simp: bind_eq_Some_conv, blast intro: reach_step once_step.intros)

lemma static_schedule_reach:
  "static_schedule s ts w = Some v \<Longrightarrow> reach (\<lambda>w. w = init_static_world) (static_step s) w
    \<Longrightarrow> reach (\<lambda>w. w = init_static_world) (static_step s) v"
  by (induction s ts w rule: static_schedule.induct)
    (auto simp: bind_eq_Some_conv, blast intro: reach_step static_step.intros)

lemma two_callers_run:
  "once_schedule [(1, 40), (1, 40), (1, 0), (2, 0), (1, 0), (2, 0)] init_once_world = Some two_callers"
  by (simp add: init_once_world_def two_callers_def once_instance_step_def singleton_new_def
      singleton_register_def goes_to_def fun_eq_iff)

lemma two_callers_reach: "reach (\<lambda>w. w = init_once_world) once_step two_callers"
  by (rule once_schedule_reach [OF two_callers_run]) (simp add: reach_init)

definition static_called :: static_world where
  "static_called = \<lparr>st_guard = Once_done, st_alive = True, st_built = 1, st_pc = (\<lambda>_. Outside)(1 := Returned 5)\<rparr>"

lemma static_called_reach: "reach (\<lambda>w. w = init_static_world) (static_step 5) static_called"
  by (rule static_schedule_reach [of 5 "[1, 1, 1]" init_static_world])
    (simp_all add: reach_init init_static_world_def static_called_def static_instance_step_def fun_eq_iff)

theorem one_instance_witness:
  "ow_pc two_callers 1 = Returned 40 \<and> 40 \<in> ow_alive two_callers \<and> ow_built two_callers \<le> 1
    \<and> ow_pc two_callers 2 = Returned 40 \<and> st_alive static_called"
proof -
  have pc: "ow_pc two_callers 1 = Returned 40" "ow_pc two_callers 2 = Returned 40" "st_pc static_called 1 = Returned 5"
    by (simp_all add: two_callers_def static_called_def)
  note * = one_instance [OF two_callers_reach static_called_reach, where t = 1 and p = 0]
  have "ow_built two_callers \<le> 1" by (rule conjunct1 [OF *])
  moreover have "40 \<in> ow_alive two_callers" using * pc(1) by blast
  moreover have "st_alive static_called" using * pc(3) by blast
  ultimately show ?thesis using pc by blast
qed

theorem instance_after_exit_witness:
  "\<exists>w1 w2. once_instance_step 7 0 (once_exit two_callers) = Some w1 \<and> once_instance_step 7 0 w1 = Some w2
    \<and> ow_pc w2 7 = Crashed \<and> ow_built w2 = 1"
proof -
  have "m_ponce two_callers = Once_done" "ow_pc two_callers 7 = Outside"
    by (simp_all add: two_callers_def init_once_world_def)
  moreover have "st_guard static_called = Once_done" "st_pc static_called 7 = Outside"
    by (simp_all add: static_called_def)
  ultimately show ?thesis
    by (rule instance_after_exit [OF two_callers_reach _ _ static_called_reach, where t = 7 and p = 0,
        THEN conjunct1])
qed

end
