(* ===== verification/Spec2Isabelle.thy ===== *)
theory Spec2Isabelle
  imports HeartBeatClients MonitorThreads IdleClose IoThreads ConnTracking ListenStrategy RpcHub RpcFailures LogImpl SignalService ZlibUtil Singleton
begin

text \<open>
  A verification development for newbee, a C++ library for network servers (src/mylib) with an empty gateway
  (src/newbee). It models the library's own logic: the heart beat service, the rpc layer, the logger, the pool
  of io services, signals and the drivers of zlib.

  \<^bold>\<open>The parts and how they interact.\<close> A server (rpc/rpc\_server.h) has an acceptor (rpc/rpc\_acceptor.cpp), which
  opens a listening socket on an io service of the pool (utility/io\_service\_pool.cpp) and gives every accepted
  socket to a new connection (rpc/rpc\_connecter.cpp) with a strategy object of its own. The connection queues
  what is written and keeps one write and one read outstanding; what it reads it hands to the strategy, the
  connection protocol (rpc/rpc\_common\_conn\_protocol.cpp), which cuts the stream into messages (head of
  rpc/rpc\_msg\_head.h, built by rpc/rpc\_utility.cpp, compressed by utility/zlib\_util.cpp) and posts each to the
  dispatcher (rpc/rpc.cpp), which calls the method registered for its command. The connection monitor
  (rpc/rpc\_conn\_monitor.cpp) keeps connections in a heart beat service (heart\_beat/heart\_beat\_service.h): a
  thread with a timer that owns an element manager (heart\_beat/heart\_beat\_element\_mgr.h), which keeps its
  elements, ordered by the time of their last beat, in an intrusive list (heart\_beat/heart\_beat\_list.h) of nodes
  of a memory pool, and makes a callback for those that expire or that make room for others. All of them log
  through log/log\_impl.cpp; utility/signal\_handler.cpp and signal\_service.h end a program; the pool, the monitor
  and the logger are the one object that utility/singleton.h makes of their class.

  \<^bold>\<open>Theories.\<close>
  \<^item> NbPrelude: machine types, generic lemmas, the reachable states of a step relation and the locale
    \<open>inductive_invariant\<close> through which every component with steps gets its invariant.
  \<^item> HeartBeatList: \<open>heart_beat_list_t\<close>. The nodes are a map from addresses to records with the two links;
    \<open>push_front\<close>, \<open>pop_front\<close>, \<open>pop_back\<close>, \<open>erase\<close> are \<open>None\<close> where the code would follow a dangling pointer. The
    locale \<open>intrusive_list\<close> states what its client needs; the interpretation \<open>hb\<close> proves it, and any sequence of
    calls refines a plain list.
  \<^item> HeartBeatMgr: \<open>heart_beat_element_mgr_t\<close>, its loops as \<open>partial_function\<close>. \<open>mgr_wf\<close> relates list, pool and hash
    map; \<open>spec_mgr_call\<close> is the abstract registry, a list of time stamped elements, and every history of calls
    refines it, statuses and callbacks included.
  \<^item> HeartBeatService: \<open>heart_beat_service_t\<close>, with the queue of posted tasks, the thread and the timer. \<open>svc_run\<close>
    interleaves clients, timer and thread arbitrarily; the service refines the registry of HeartBeatMgr.
  \<^item> HeartBeatRegistry: all calls of the manager, the setters and those that empty it included, against a registry
    that is a list of entries and a counter. \<open>represents\<close> is the simulation; manager and registry give the same
    results and are undefined together, which shows which call is undefined, and when.
  \<^item> HeartBeatServiceRegistry: the contract of the service, \<open>desk_do\<close>, a machine of its own with a queue of requests, four
    phases, an alarm and the registry. The service refines it (\<open>desk_of\<close>) in every interleaving.
  \<^item> HeartBeatClients: the threads that call \<open>get_all_element_and_clear\<close>, statement by statement with the one flag that they
    share: calls that do not overlap return only when served, overlapping ones may return before, and all return.
  \<^item> ConnMonitor: \<open>rpc_conn_monitor_t\<close> on that service, with the callback that closes connections, up to its destruction.
  \<^item> IdleClose: one connection of the monitor as an automaton of its own. Without a maximum of elements, or with one that is not exceeded, the monitor
    is the product of these, so that what one connection does changes nothing for another, and a connection is closed by
    the first pass at which it has been silent for the timeout.
  \<^item> MonitorThreads: the callbacks of the monitor and its \<open>stop\<close> statement by statement between their threads: without
    interleaving a pass is one turn of ConnMonitor, with it at most one connection is closed after \<open>stop\<close>.
  \<^item> ConnTracking: the connections of a process with their protocol objects, the monitor, its thread and its timer as one
    system. \<open>tracking\<close> is its invariant: what the monitor holds, changed by the calls in its queue, is the set of open
    monitored connections.
  \<^item> RpcMsg: the message head as eight bytes in the order of the target, and the message builders.
  \<^item> RpcDef: the enumerations, the events of a connection, and the locales \<open>piecewise_consumer\<close> and
    \<open>frame_consumer\<close> of readers for which the cut of a stream does not matter.
  \<^item> ConnProtocol: \<open>rpc_common_conn_protocal_t\<close>. \<open>split_msgs\<close> is the specification of the stream; the reader
    refines it (interpretation \<open>rd\<close> of \<open>frame_consumer\<close>).
  \<^item> RpcConnecter: \<open>rpc_connecter_t\<close> with its socket: tasks, outstanding operations and the wire. A happening is a
    call of a client, a task or the completion of an operation, in any order.
  \<^item> ListenStrategy: \<open>rpc_listen_strategy_i\<close> as the record of its virtual functions, the locale \<open>listen_strategy\<close> with what a
    connection relies on, and its interpretation \<open>ls\<close> on the protocol object; a connection has at most one read outstanding.
  \<^item> RpcDispatch: \<open>rpc_t\<close>, and the end to end property from one connection's client to the other's methods.
  \<^item> RpcBroken: the same when the connection fails or is closed anywhere: what is handled is a prefix of what was sent.
  \<^item> RpcHub: the objects of all connections of a server with the queue of its io service, which they share: each connection
    is served as if it were alone.
  \<^item> RpcTalk: conversations, both ends with their clients and with methods that answer. Calls, io handlers, reads of any size
    and turns of the dispatchers come in any order. Where each answer ranks below what it answers, a potential falls with
    every step, so that every schedule comes to rest, with all that was sent handled and all requests answered.
  \<^item> RpcFailures: conversations in which connections are closed and reads and writes fail anywhere, and methods
    need not exist: what is handled is still a prefix of what was sent, each message once. Reads go on after an end has
    broken off, so the report of the broken connection may stand before messages.
  \<^item> IoServicePool, RpcServer: \<open>io_service_pool_t\<close>, \<open>rpc_acceptor_t\<close>, \<open>rpc_server_t\<close>.
  \<^item> IoThreads: the threads of the pool and the handlers they run. As long as it is started only while it has no threads,
    a service has one thread and its handlers run one at a time; this is why a turn of a connection is one step.
  \<^item> LogImpl: \<open>log_t\<close>, its levels, files and their rotation.
  \<^item> SignalService: \<open>signal_handler_t\<close> and \<open>signal_service_t\<close>.
  \<^item> ZlibUtil: \<open>zlib_util_t\<close> over zlib, which is a parameter with the contract of its manual. The contract asks
    nothing of calls outside the rules of the manual (\<open>may_call\<close>); the proofs show that the drivers keep to them.
  \<^item> Singleton: both versions of \<open>singleton_t\<close>, called by any number of threads, one statement at a time.

  \<^bold>\<open>What is shown.\<close> For each component: the invariant of its reachable states, the outcome of every operation on
  every branch, and where there is a contract a refinement of it; for the components together, that messages
  sent are the messages handled, and a prefix of them where a connection breaks, on every connection of a server, that
  requests are answered and every schedule of a conversation comes to rest, that the monitor holds the open
  connections, closes the silent ones and, when told to close all, disconnects all. Loops that are not structurally recursive are
  \<open>partial_function (option)\<close>, so that \<open>None\<close> is undefined behaviour or a loop without an end, and the theorems
  that an operation gives \<open>Some\<close> exclude both; there is no fuel. Machine integers keep their width: the counts and limits of
  the manager are 64 bit words, message lengths and timeouts 32 bit words, and \<open>time_t\<close> is an integer whose
  overflow is undefined. Where the code does not do what it means to do, a theorem shows what it does: a
  full manager that has been emptied crashes at the next new element, and this is its only undefined call, a service that has stopped does not come back, an
  acceptor gives up after one failed accept and goes on after a stop in which \<open>cancel\<close> throws, a message that is read after its connection
  has been closed is handled behind the report of this, a stopped monitor closes nothing, the enabled log levels are those that are not logged, compressed messages cannot be
  uncompressed, and of two overlapping calls for all elements one may return empty handed.

  \<^bold>\<open>What the model leaves open.\<close> Not in the repository, and parameters or states of the model: asio (its
  sockets deliver a stream in order and complete each operation once; an io service runs the tasks posted to it in
  order), \<open>sync_close_i\<close> and \<open>set_write_state\<close> of the connection, which are declared and never defined (where
  a theorem needs it, \<open>sync_close_i\<close> calls no more of the strategy than \<open>on_closed\<close>, in ConnTracking it does call it
  and disconnects, and \<open>set_write_state\<close> sets the flag), the names by which the
  monitor calls its service (\<open>asyn_add_element\<close> and so on, which the service does not have), the operating system's signals and clock, file writes, zlib, and the memory pool of the manager (an
  allocator that gives a free address or fails). A handler of a
  connection and a turn of the service's thread are one step; IoThreads and MonitorThreads show where this is sound, and
  HeartBeatClients, MonitorThreads and Singleton go down to statements where threads share a flag. What two threads do to one
  connection after a second \<open>start\<close> of the pool is not modelled further.
  Not modelled: the empty gateway, and log lines other than those of the logger itself.
\<close>

section \<open>Messages and their compression\<close>

lemma compress_msg_payload:
  assumes "deflate_contract deflate good decodes work" and "open_deflate (- MAX_WBITS) = Some z" and "good Between z [] []"
    and "work Z_SYNC_FLUSH z data \<le> 10 ^ 9"
    and "fst (deflate z Z_SYNC_FLUSH [] 0) \<noteq> Z_OK"
    and "unat cmd < length (cmd_filter u)" and "length data < 2 ^ 32"
  shows "\<exists>msg. compress_msg u (compress_buffer open_deflate deflate junk) cmd data = Some msg
    \<and> framed msg \<and> hd_cmd (head_of msg) = cmd
    \<and> (if hd_res (head_of msg) = ZLIB_FLAG_MASK then decodes Z_SYNC_FLUSH (drop head_size msg) data
       else hd_res (head_of msg) = 0 \<and> drop head_size msg = data)"
proof -
  let ?zc = "compress_buffer open_deflate deflate junk"
  have plain_msg: "framed (make_msg cmd data) \<and> hd_cmd (head_of (make_msg cmd data)) = cmd
      \<and> hd_res (head_of (make_msg cmd data)) = 0 \<and> drop head_size (make_msg cmd data) = data"
    using framed_make_msg [OF assms(7), of cmd] by (simp add: make_msg_def zero_head_def)
  obtain n buf where n: "?zc data = Some (n, buf)" "n < 2 ^ 31"
    "if data = [] \<or> 2 ^ 31 \<le> length data then n = -1
     else 0 \<le> n \<and> nat n \<le> length buf \<and> decodes Z_SYNC_FLUSH (take (nat n) buf) data"
    using compress_buffer_result [where open_deflate = open_deflate, OF assms(1-5)] by blast
  have cut: "take (unat (of_nat (length data) :: 32 word)) data = data"
    using unat_of_length [OF assms(7)] by simp
  have "compress_msg u ?zc cmd data = (if length data < ZLIB_SIZE_LIMIT u \<or> \<not> opened u \<or> cmd_filter u ! unat cmd \<noteq> 0
      \<or> n \<le> 0 then Some (make_msg cmd data) else Some (head_bytes
        \<lparr>hd_len = of_int n, hd_cmd = cmd, hd_res = ZLIB_FLAG_MASK\<rparr> @ take (nat n) buf))"
    using assms(6) n(1,3) unfolding compress_msg_def cut make_msg_def zero_head_def Let_def by (simp split: if_splits)
  then consider (plain) "compress_msg u ?zc cmd data = Some (make_msg cmd data)"
    | (small) "0 < n" "compress_msg u ?zc cmd data = Some (head_bytes
        \<lparr>hd_len = of_int n, hd_cmd = cmd, hd_res = ZLIB_FLAG_MASK\<rparr> @ take (nat n) buf)"
    by (auto split: if_splits)
  then show ?thesis
  proof cases
    case plain
    then show ?thesis using plain_msg by (auto simp: ZLIB_FLAG_MASK_def)
  next
    case small
    with n(3) have len: "nat n \<le> length buf" "decodes Z_SYNC_FLUSH (take (nat n) buf) data"
      by (auto split: if_splits)
    with small framed_compressed [OF small(1) n(2) len(1)] show ?thesis by auto
  qed
qed

text \<open>C31: A message of \<open>compress_msg\<close> with the compressor of the repository, for any command below 65535: the
  call returns a well framed message with the command. Behind the head are the data themselves and no flag, or,
  with the flag, bytes that decode to exactly the data. The data are such that zlib makes at most \<open>10 ^ 9\<close> bytes of them.\<close>

theorem compressed_payload_decodes:
  assumes "deflate_contract deflate good decodes work" and "open_deflate (- MAX_WBITS) = Some z" and "good Between z [] []"
    and "work Z_SYNC_FLUSH z data \<le> 10 ^ 9"
    and "fst (deflate z Z_SYNC_FLUSH [] 0) \<noteq> Z_OK"
    and "unat cmd < length (cmd_filter u)" and "length data < 2 ^ 32"
  shows "\<exists>msg. compress_msg u (compress_buffer open_deflate deflate junk) cmd data = Some msg
    \<and> framed msg \<and> hd_cmd (head_of msg) = cmd
    \<and> (if hd_res (head_of msg) = ZLIB_FLAG_MASK then decodes Z_SYNC_FLUSH (drop head_size msg) data
       else hd_res (head_of msg) = 0 \<and> drop head_size msg = data)"
  by (rule compress_msg_payload [where open_deflate = open_deflate, OF assms])

theorem compressed_payload_decodes_witness:
  "\<exists>msg. compress_msg open_util (compress_buffer (init_with []) stored 0) 9 [5, 5, 5, 5, 5] = Some msg
     \<and> framed msg \<and> drop head_size msg = [5, 5, 5, 5, 5]"
proof -
  have "stored_work Z_SYNC_FLUSH [] [5, 5, 5, 5, 5] \<le> 10 ^ 9" by (simp add: stored_work_def)
  moreover have "fst (stored [] Z_SYNC_FLUSH [] 0) \<noteq> Z_OK" by (simp add: stored_def z_codes)
  ultimately show ?thesis
    using compressed_payload_decodes [where open_deflate = "init_with []", OF stored_contract [of "[]", simplified] init_with_raw stored_init, of "[5, 5, 5, 5, 5]" 9 open_util 0]
    by (auto simp: open_util_def split: if_splits)
qed

text \<open>C35: The message utilities do not undo one another: a message that \<open>compress_msg\<close> has compressed and
  flagged, \<open>uncompress_msg\<close> turns into an empty body; what has not been compressed it leaves as it is.
  The data are such that zlib makes at most \<open>10 ^ 9\<close> bytes of them, nothing decodes to them that begins like a zlib stream, and
  \<open>inflate\<close> checks the zlib header (\<open>checks_head\<close>).\<close>

theorem uncompress_msg_loses_payload:
  assumes "deflate_contract deflate good decodes work" and "open_deflate (- MAX_WBITS) = Some z" and "good Between z [] []"
    and "work Z_SYNC_FLUSH z data \<le> 10 ^ 9"
    and "fst (deflate z Z_SYNC_FLUSH [] 0) \<noteq> Z_OK"
    and "unat cmd < length (cmd_filter u)" and "length data < 2 ^ 32"
    and "\<And>m. decodes Z_SYNC_FLUSH m data \<Longrightarrow> raw_head m" and "checks_head inflate y" and "opened u"
  shows "\<exists>msg. compress_msg u (compress_buffer open_deflate deflate junk) cmd data = Some msg
    \<and> uncompress_msg u (uncompress_string (Inr y) inflate) (hd_res (head_of msg)) (drop head_size msg)
      = Some (if hd_res (head_of msg) = ZLIB_FLAG_MASK then [] else data)"
proof -
  obtain msg where msg: "compress_msg u (compress_buffer open_deflate deflate junk) cmd data = Some msg"
    "if hd_res (head_of msg) = ZLIB_FLAG_MASK then decodes Z_SYNC_FLUSH (drop head_size msg) data
     else hd_res (head_of msg) = 0 \<and> drop head_size msg = data"
    using compress_msg_payload [where open_deflate = open_deflate, OF assms(1-7)] by blast
  have "uncompress_string (Inr y) inflate (drop head_size msg) = Some (Z_DATA_ERROR, [])"
    if flag: "hd_res (head_of msg) = ZLIB_FLAG_MASK"
    using msg(2) assms(8) flag by (intro uncompress_raw [OF _ assms(9)]) simp
  then have "uncompress_msg u (uncompress_string (Inr y) inflate) (hd_res (head_of msg)) (drop head_size msg)
      = Some (if hd_res (head_of msg) = ZLIB_FLAG_MASK then [] else data)"
    using msg(2) assms(10) by (auto simp: uncompress_msg_def ZLIB_FLAG_MASK_def)
  with msg(1) show ?thesis by blast
qed

theorem uncompress_msg_loses_payload_witness:
  "\<exists>msg. compress_msg open_util (compress_buffer (init_with [0, 0]) stored 0) 9 [5, 5, 5, 5, 5] = Some msg
     \<and> uncompress_msg open_util (uncompress_string (Inr (0, [])) head_checker) (hd_res (head_of msg)) (drop head_size msg)
       = Some (if hd_res (head_of msg) = ZLIB_FLAG_MASK then [] else [5, 5, 5, 5, 5])"
proof -
  have "stored_work Z_SYNC_FLUSH [0, 0] [5, 5, 5, 5, 5] \<le> 10 ^ 9" by (simp add: stored_work_def)
  moreover have "fst (stored [0, 0] Z_SYNC_FLUSH [] 0) \<noteq> Z_OK" by (simp add: stored_def z_codes)
  ultimately show ?thesis
    using uncompress_msg_loses_payload [where open_deflate = "init_with [0, 0]", OF stored_contract init_with_raw stored_init,
      where data = "[5, 5, 5, 5, 5]" and u = open_util and cmd = 9 and junk = 0 and y = "(0, [])" and inflate = head_checker]
    by (auto simp: open_util_def raw_head_def head_checker_checks)
qed

end
